(* ===== verification/Prelude.thy ===== *)
theory Prelude
  imports Main "HOL-Library.Word" "HOL-Library.List_Lexorder" "HOL-Library.Sublist"
begin

text \<open>
  Shared vocabulary of the development: bytes and byte strings as Go has them, the
  byte-wise order of \<^verbatim>\<open>bytes.Compare\<close> (the lexicographic order of
  \<open>HOL-Library.List_Lexorder\<close> on \<open>8 word list\<close>), the big-endian fixed-width
  encoding of the standard library's \<^verbatim>\<open>encoding/binary\<close>, Go slices that may be nil,
  and the generic lemmas on lists and byte strings the components share.
\<close>

section \<open>Types\<close>

type_synonym byte = "8 word"
type_synonym bytes = "byte list"

text \<open>A Go byte slice that may be nil: \<open>None\<close> is nil.\<close>

type_synonym nbytes = "bytes option"

text \<open>
  \<^verbatim>\<open>append([]byte(nil), data...)\<close>: appending nothing to a nil slice leaves it nil, so the
  copy of an empty slice is nil.
\<close>

definition clone_nil :: "bytes \<Rightarrow> nbytes" where
  "clone_nil data = (if data = [] then None else Some data)"

text \<open>The bytes of a Go string literal.\<close>

definition str :: "string \<Rightarrow> bytes" where
  "str s = map of_char s"

text \<open>The error monad of the source: \<open>Inl\<close> is a non-nil error.\<close>

definition res_bind :: "'e + 'a \<Rightarrow> ('a \<Rightarrow> 'e + 'b) \<Rightarrow> 'e + 'b" where
  "res_bind m f = (case m of Inl e \<Rightarrow> Inl e | Inr x \<Rightarrow> f x)"

section \<open>Big-endian fixed-width integers\<close>

text \<open>
  \<^verbatim>\<open>binary.BigEndian\<close>: \<open>n\<close> bytes, most significant first, of a value below \<open>256 ^ n\<close>.
\<close>

fun be_bytes :: "nat \<Rightarrow> nat \<Rightarrow> bytes" where
  "be_bytes 0 v = []"
| "be_bytes (Suc n) v = be_bytes n (v div 256) @ [of_nat (v mod 256)]"

definition be_val :: "bytes \<Rightarrow> nat" where
  "be_val bs = foldl (\<lambda>a b. a * 256 + unat b) 0 bs"

named_theorems codec_simps \<open>round trips and lengths of the encodings\<close>
named_theorems order_simps \<open>comparisons of encoded byte strings\<close>

section \<open>Generic lemmas\<close>

lemma clone_nil_simps [simp]:
  "clone_nil [] = None" "clone_nil (b # bs) = Some (b # bs)"
  by (simp_all add: clone_nil_def)

lemma res_bind_simps [simp]:
  "res_bind (Inl e) f = Inl e" "res_bind (Inr x) f = f x"
  by (simp_all add: res_bind_def)

lemma res_bind_assoc: "res_bind (res_bind m f) g = res_bind m (\<lambda>x. res_bind (f x) g)"
  by (cases m) simp_all

lemma res_bind_Inr_conv:
  "res_bind m f = Inr y \<longleftrightarrow> (\<exists>x. m = Inr x \<and> f x = Inr y)"
  by (cases m) auto

lemma sint_inj: "sint (x :: 'a::len word) = sint y \<Longrightarrow> x = y"
  by (rule word_eq_iff_signed [THEN iffD2])

subsection \<open>Byte-wise comparison\<close>

lemma Nil_less_iff [simp]: "[] < (xs :: 'a::linorder list) \<longleftrightarrow> xs \<noteq> []"
  by (cases xs) auto

lemma append_less_append_same [simp]:
  "xs @ ys < xs @ (zs :: 'a::linorder list) \<longleftrightarrow> ys < zs"
  by (induction xs) auto

lemma less_append_iff [simp]: "xs < xs @ (ys :: 'a::linorder list) \<longleftrightarrow> ys \<noteq> []"
  using append_less_append_same [of xs "[]" ys] by simp

lemma append_le_append_same [simp]:
  "xs @ ys \<le> xs @ (zs :: 'a::linorder list) \<longleftrightarrow> ys \<le> zs"
  by (induction xs) auto

lemma less_append_diff:
  "(xs :: 'a::linorder list) < ys \<Longrightarrow> length xs = length ys \<Longrightarrow> xs @ us < ys @ vs"
proof (induction xs arbitrary: ys)
  case Nil
  then show ?case by simp
next
  case (Cons x xs)
  then show ?case by (cases ys) auto
qed

lemma append_less_same_length:
  "length (xs :: 'a::linorder list) = length ys \<Longrightarrow>
   xs @ us < ys @ vs \<longleftrightarrow> xs < ys \<or> xs = ys \<and> us < vs"
proof (induction xs arbitrary: ys)
  case Nil
  then show ?case by simp
next
  case (Cons x xs)
  then show ?case by (cases ys) auto
qed

lemma prefix_imp_le: "prefix xs ys \<Longrightarrow> (xs :: 'a::linorder list) \<le> ys"
proof -
  assume "prefix xs ys"
  then obtain zs where "ys = xs @ zs" by (auto simp: prefix_def)
  moreover have "xs @ [] \<le> xs @ zs" by (simp only: append_le_append_same) simp
  ultimately show ?thesis by simp
qed

subsection \<open>Big-endian lemmas\<close>

lemma length_be_bytes [simp, codec_simps]: "length (be_bytes n v) = n"
  by (induction n arbitrary: v) auto

lemma be_bytes_Nil [simp]: "be_bytes n v = [] \<longleftrightarrow> n = 0"
  by (cases n) auto

lemma be_val_snoc: "be_val (bs @ [b]) = be_val bs * 256 + unat b"
  by (simp add: be_val_def)

lemma be_val_be_bytes [simp, codec_simps]: "be_val (be_bytes n v) = v mod 256 ^ n"
proof (induction n arbitrary: v)
  case 0
  then show ?case by (simp add: be_val_def)
next
  case (Suc n)
  have "unat (of_nat (v mod 256) :: byte) = v mod 256"
    by (simp add: unat_of_nat)
  then have "be_val (be_bytes (Suc n) v) = (v div 256) mod 256 ^ n * 256 + v mod 256"
    by (simp add: be_val_snoc Suc.IH)
  also have "\<dots> = v mod 256 ^ Suc n"
    by (simp add: mod_mult2_eq mult.commute)
  finally show ?case .
qed

lemma div_mod_less_iff:
  "(v :: nat) div 256 < w div 256 \<or> v div 256 = w div 256 \<and> v mod 256 < w mod 256 \<longleftrightarrow> v < w"
proof -
  have "v = v div 256 * 256 + v mod 256" "w = w div 256 * 256 + w mod 256"
    "v mod 256 < 256" "w mod 256 < 256" by simp_all
  then show ?thesis by linarith
qed

lemma be_bytes_less_iff:
  "v < 256 ^ n \<Longrightarrow> w < 256 ^ n \<Longrightarrow> be_bytes n v < be_bytes n w \<longleftrightarrow> v < w"
proof (induction n arbitrary: v w)
  case 0
  then show ?case by simp
next
  case (Suc n)
  have bounds: "v div 256 < 256 ^ n" "w div 256 < 256 ^ n"
    using Suc.prems by (auto simp: less_mult_imp_div_less mult.commute)
  have inj: "be_bytes n (v div 256) = be_bytes n (w div 256) \<longleftrightarrow> v div 256 = w div 256"
  proof
    assume "be_bytes n (v div 256) = be_bytes n (w div 256)"
    then have "be_val (be_bytes n (v div 256)) = be_val (be_bytes n (w div 256))" by simp
    then show "v div 256 = w div 256" using bounds by simp
  qed simp
  have last: "(of_nat (v mod 256) :: byte) < of_nat (w mod 256) \<longleftrightarrow> v mod 256 < w mod 256"
    by (simp add: word_less_nat_alt unat_of_nat)
  have "be_bytes (Suc n) v < be_bytes (Suc n) w \<longleftrightarrow>
        v div 256 < w div 256 \<or> v div 256 = w div 256 \<and> v mod 256 < w mod 256"
    using Suc.IH [OF bounds] inj last by (simp add: append_less_same_length)
  also have "\<dots> \<longleftrightarrow> v < w" by (rule div_mod_less_iff)
  finally show ?case .
qed

lemma be_bytes_inj: "v < 256 ^ n \<Longrightarrow> w < 256 ^ n \<Longrightarrow> be_bytes n v = be_bytes n w \<longleftrightarrow> v = w"
  by (metis be_val_be_bytes mod_less)

lemma be_val_less: "be_val bs < 256 ^ length bs"
proof (induction bs rule: rev_induct)
  case Nil
  then show ?case by (simp add: be_val_def)
next
  case (snoc b bs)
  have "unat b < 256" using unsigned_less [of b, where 'a = nat] by simp
  with snoc show ?case by (simp add: be_val_snoc)
qed

lemma be_bytes_be_val [codec_simps]: "be_bytes (length bs) (be_val bs) = bs"
proof (induction bs rule: rev_induct)
  case Nil
  then show ?case by simp
next
  case (snoc b bs)
  have "unat b < 256" using unsigned_less [of b, where 'a = nat] by simp
  then have "(be_val bs * 256 + unat b) div 256 = be_val bs" "(be_val bs * 256 + unat b) mod 256 = unat b"
    by simp_all
  with snoc show ?case by (simp add: be_val_snoc)
qed

end
