(* ===== verification/Hlc.thy ===== *)
theory Hlc
  imports Prelude
begin

text \<open>
  The hybrid logical clock of \<^verbatim>\<open>src/pkg/util/hlc/hlc.go\<close>. A timestamp is an int64 wall
  time and an int32 logical counter, both kept at their width (\<open>64 word\<close> and \<open>32 word\<close>
  read as two's complement), so the wrap-around of \<^verbatim>\<open>Next\<close> and of the clock-offset
  arithmetic is the source's. The clock's state is its last reading; each operation takes
  the physical clock reading it makes as an argument (the source's \<^verbatim>\<open>physical\<close> callback).
\<close>

section \<open>Timestamps\<close>

datatype timestamp = Timestamp (WallTime: "64 word") (Logical: "32 word")

definition zero_ts :: timestamp where
  "zero_ts = Timestamp 0 0"

definition IsEmpty :: "timestamp \<Rightarrow> bool" where
  "IsEmpty t \<longleftrightarrow> WallTime t = 0 \<and> Logical t = 0"

definition Less :: "timestamp \<Rightarrow> timestamp \<Rightarrow> bool" where
  "Less t u \<longleftrightarrow> sint (WallTime t) < sint (WallTime u) \<or>
     (WallTime t = WallTime u \<and> sint (Logical t) < sint (Logical u))"

definition LessEq :: "timestamp \<Rightarrow> timestamp \<Rightarrow> bool" where
  "LessEq t u \<longleftrightarrow> \<not> Less u t"

definition Equal :: "timestamp \<Rightarrow> timestamp \<Rightarrow> bool" where
  "Equal t u \<longleftrightarrow> t = u"

text \<open>\<^verbatim>\<open>int32(^uint32(0)>>1)\<close> is the largest int32.\<close>

definition Next :: "timestamp \<Rightarrow> timestamp" where
  "Next t = (if Logical t = 0x7FFFFFFF then Timestamp (WallTime t + 1) 0
             else Timestamp (WallTime t) (Logical t + 1))"

definition AddNanos :: "timestamp \<Rightarrow> 64 word \<Rightarrow> timestamp" where
  "AddNanos t d = Timestamp (WallTime t + d) 0"

definition Forward :: "timestamp \<Rightarrow> timestamp \<Rightarrow> timestamp" where
  "Forward t u = (if Less t u then u else t)"

section \<open>The clock\<close>

record clock =
  maxOffset :: "64 word"
  last :: timestamp

definition NewClock :: "64 word \<Rightarrow> clock" where
  "NewClock off = \<lparr>maxOffset = off, last = zero_ts\<rparr>"

definition Now :: "64 word \<Rightarrow> clock \<Rightarrow> timestamp \<times> clock" where
  "Now phys c =
     (let l = (if sint (WallTime (last c)) < sint phys then Timestamp phys 0 else Next (last c))
      in (l, c\<lparr>last := l\<rparr>))"

datatype clock_error = RemoteClockAhead timestamp

definition Update :: "64 word \<Rightarrow> timestamp \<Rightarrow> clock \<Rightarrow> clock_error option \<times> clock" where
  "Update phys remote c =
     (if IsEmpty remote then (None, c)
      else if sint (phys + maxOffset c) < sint (WallTime remote)
      then (Some (RemoteClockAhead remote), c)
      else if Less (last c) remote then (None, c\<lparr>last := remote\<rparr>)
      else (None, c))"

text \<open>
  A history of clock operations: each event carries the physical reading the operation
  made. \<open>clock_exec\<close> is the clock after the history, \<open>clock_observed\<close> what its callers
  saw: the readings \<^verbatim>\<open>Now\<close> returned and the remote timestamps \<^verbatim>\<open>Update\<close> accepted.
\<close>

datatype clock_event = ENow "64 word" | EUpdate "64 word" timestamp

fun clock_step :: "clock_event \<Rightarrow> clock \<Rightarrow> clock" where
  "clock_step (ENow phys) c = snd (Now phys c)"
| "clock_step (EUpdate phys r) c = snd (Update phys r c)"

definition clock_exec :: "clock \<Rightarrow> clock_event list \<Rightarrow> clock" where
  "clock_exec c es = fold clock_step es c"

fun clock_observed :: "clock \<Rightarrow> clock_event list \<Rightarrow> timestamp list" where
  "clock_observed c [] = []"
| "clock_observed c (ENow phys # es) = fst (Now phys c) # clock_observed (snd (Now phys c)) es"
| "clock_observed c (EUpdate phys r # es) =
     (if fst (Update phys r c) = None \<and> \<not> IsEmpty r then [r] else []) @ clock_observed (snd (Update phys r c)) es"

text \<open>Every wall time an event brings in is at most \<open>B\<close>.\<close>

fun event_bounded :: "int \<Rightarrow> clock_event \<Rightarrow> bool" where
  "event_bounded B (ENow phys) \<longleftrightarrow> sint phys \<le> B"
| "event_bounded B (EUpdate phys r) \<longleftrightarrow> sint (WallTime r) \<le> B"

section \<open>The order on timestamps\<close>

text \<open>
  \<^verbatim>\<open>Less\<close> is a strict linear order; the type is an instance of the library's
  \<open>linorder\<close>, so that its order reasoning applies.
\<close>

lemma Less_sint:
  "Less t u \<longleftrightarrow> sint (WallTime t) < sint (WallTime u) \<or>
     (sint (WallTime t) = sint (WallTime u) \<and> sint (Logical t) < sint (Logical u))"
  by (auto simp: Less_def dest: sint_inj)

instantiation timestamp :: linorder
begin
definition less_eq_timestamp :: "timestamp \<Rightarrow> timestamp \<Rightarrow> bool" where
  "less_eq_timestamp t u = LessEq t u"
definition less_timestamp :: "timestamp \<Rightarrow> timestamp \<Rightarrow> bool" where
  "less_timestamp t u = Less t u"
instance
proof
  fix x y z :: timestamp
  show "(x < y) = (x \<le> y \<and> \<not> y \<le> x)"
    by (auto simp: less_eq_timestamp_def less_timestamp_def LessEq_def Less_sint)
  show "x \<le> x"
    by (auto simp: less_eq_timestamp_def LessEq_def Less_sint)
  show "x \<le> y \<Longrightarrow> y \<le> z \<Longrightarrow> x \<le> z"
    by (auto simp: less_eq_timestamp_def LessEq_def Less_sint)
  show "x \<le> y \<Longrightarrow> y \<le> x \<Longrightarrow> x = y"
    by (cases x; cases y)
      (auto simp: less_eq_timestamp_def LessEq_def Less_sint not_less dest: sint_inj)
  show "x \<le> y \<or> y \<le> x"
    by (auto simp: less_eq_timestamp_def LessEq_def Less_sint)
qed
end

lemma ts_less [simp]: "Less t u \<longleftrightarrow> t < u"
  by (simp add: less_timestamp_def)

lemma ts_less_eq [simp]: "LessEq t u \<longleftrightarrow> t \<le> u"
  by (simp add: less_eq_timestamp_def)

lemma ts_equal [simp]: "Equal t u \<longleftrightarrow> t = u"
  by (simp add: Equal_def)

lemma Forward_max [simp]: "Forward t u = max t u"
  by (auto simp: Forward_def max_def)

lemma IsEmpty_iff [simp]: "IsEmpty t \<longleftrightarrow> t = zero_ts"
  by (cases t) (simp add: IsEmpty_def zero_ts_def)

lemma ts_less_sint:
  "t < u \<longleftrightarrow> sint (WallTime t) < sint (WallTime u) \<or>
     (sint (WallTime t) = sint (WallTime u) \<and> sint (Logical t) < sint (Logical u))"
  unfolding less_timestamp_def by (rule Less_sint)

lemma sint_add_bounded:
  "- (2 ^ (LENGTH('a) - 1)) \<le> sint x + sint y \<Longrightarrow> sint x + sint y < 2 ^ (LENGTH('a) - 1) \<Longrightarrow>
   sint (x + y :: 'a::len word) = sint x + sint y"
  by (simp add: sint_word_ariths signed_take_bit_int_eq_self)

lemma sint_add_one:
  assumes "sint (x :: 'a::len word) < 2 ^ (LENGTH('a) - 1) - 1" "1 < LENGTH('a)"
  shows "sint (x + 1) = sint x + 1"
proof -
  have "sint (1 :: 'a word) = 1" using assms(2) by simp
  then show ?thesis
    using sint_add_bounded [of x 1] assms(1) sint_ge [of x] by simp
qed

lemma Next_greater:
  assumes "sint (WallTime t) < 2 ^ 63 - 1"
  shows "t < Next t"
proof (cases "Logical t = 2147483647")
  case True
  then show ?thesis
    using sint_add_one [of "WallTime t"] assms by (simp add: Next_def ts_less_sint)
next
  case False
  then have "sint (Logical t) \<noteq> sint (2147483647 :: 32 word)"
    using sint_inj by blast
  then have "sint (Logical t) < 2 ^ 31 - 1"
    using sint_lt [of "Logical t"] by simp
  then have "sint (Logical t + 1) = sint (Logical t) + 1"
    using sint_add_one [of "Logical t"] by simp
  with False show ?thesis
    by (simp add: Next_def ts_less_sint)
qed


lemma Next_least:
  assumes "t < u" "0 \<le> sint (Logical u)"
  shows "Next t \<le> u"
proof (cases "Logical t = 0x7FFFFFFF")
  case True
  with assms have lt: "sint (WallTime t) < sint (WallTime u)"
    using sint_lt [of "Logical u"] by (auto simp: ts_less_sint)
  then have "sint (WallTime t + 1) = sint (WallTime t) + 1"
    using sint_add_one [of "WallTime t"] sint_lt [of "WallTime u"] by simp
  with True lt assms(2) have "\<not> u < Next t"
    by (auto simp: Next_def ts_less_sint)
  then show ?thesis by simp
next
  case False
  then have "sint (Logical t) \<noteq> sint (0x7FFFFFFF :: 32 word)"
    using sint_inj by blast
  then have "sint (Logical t + 1) = sint (Logical t) + 1"
    using sint_add_one [of "Logical t"] sint_lt [of "Logical t"] by simp
  with False assms(1) have "\<not> u < Next t"
    by (auto simp: Next_def ts_less_sint)
  then show ?thesis by simp
qed

lemma Next_wall: "sint (WallTime t) < 2 ^ 63 - 1 \<Longrightarrow> sint (WallTime (Next t)) \<le> sint (WallTime t) + 1"
  using sint_add_one [of "WallTime t"] by (simp add: Next_def)

section \<open>The clock never goes back\<close>

lemma Now_last: "last (snd (Now phys c)) = fst (Now phys c)"
  by (simp add: Now_def Let_def)

lemma Now_increases:
  assumes "sint (WallTime (last c)) < 2 ^ 63 - 1"
  shows "last c < fst (Now phys c)"
  using Next_greater [OF assms] by (auto simp: Now_def Let_def ts_less_sint)

lemma clock_step_mono:
  assumes "sint (WallTime (last c)) < 2 ^ 63 - 1"
  shows "last c \<le> last (clock_step e c)"
  using Now_increases [OF assms]
  by (cases e) (auto simp: Now_last Update_def less_imp_le)

lemma clock_step_wall:
  assumes "event_bounded B e" "sint (WallTime (last c)) \<le> B" "B < 2 ^ 63 - 1"
  shows "sint (WallTime (last (clock_step e c))) \<le> B + 1"
  using assms Next_wall [of "last c"]
  by (cases e) (auto simp: Now_def Let_def Update_def)

lemma clock_exec_simps [simp]:
  "clock_exec c [] = c" "clock_exec c (e # es) = clock_exec (clock_step e c) es"
  by (simp_all add: clock_exec_def)

lemma event_bounded_mono: "event_bounded B e \<Longrightarrow> B \<le> B' \<Longrightarrow> event_bounded B' e"
  by (cases e) auto

lemma clock_exec_props:
  assumes "\<forall>e \<in> set es. event_bounded B e" "sint (WallTime (last c)) \<le> B"
    "B + int (length es) < 2 ^ 63 - 1"
  shows "last c \<le> last (clock_exec c es) \<and>
    sint (WallTime (last (clock_exec c es))) \<le> B + int (length es) \<and>
    (\<forall>t \<in> set (clock_observed c es). t \<le> last (clock_exec c es))"
  using assms
proof (induction es arbitrary: c B)
  case Nil
  then show ?case by simp
next
  case (Cons e es)
  let ?c = "clock_step e c"
  have step: "last c \<le> last ?c" "sint (WallTime (last ?c)) \<le> B + 1"
    using Cons.prems clock_step_mono [of c e] clock_step_wall [of B e c] by auto
  have "\<forall>e \<in> set es. event_bounded (B + 1) e"
    using Cons.prems(1) by (auto intro: event_bounded_mono [of B])
  then have IH: "last ?c \<le> last (clock_exec ?c es)"
    "sint (WallTime (last (clock_exec ?c es))) \<le> B + 1 + int (length es)"
    "\<forall>t \<in> set (clock_observed ?c es). t \<le> last (clock_exec ?c es)"
    using Cons.IH [of "B + 1" ?c] step Cons.prems(3) by auto
  have "\<forall>t \<in> set (clock_observed c (e # es)). t \<le> last ?c \<or> t \<in> set (clock_observed ?c es)"
    by (cases e) (auto simp: Now_last Update_def split: if_splits)
  with step IH show ?case by (auto intro: order_trans)
qed

text \<open>
  C20: a reading of the clock is strictly greater than every reading it returned and every
  remote timestamp it accepted before, however the physical clock moves, as long as the wall
  times stay clear of the int64 limit (each operation advances the wall time by at most one
  tick beyond what its inputs bring in).
\<close>

theorem clock_now_monotonic:
  assumes "\<forall>e \<in> set es. event_bounded B e" "sint (WallTime (last c)) \<le> B"
    "B + int (length es) < 2 ^ 63 - 1"
  shows "\<forall>t \<in> set (clock_observed c es). t < fst (Now phys (clock_exec c es))"
proof -
  have bound: "sint (WallTime (last (clock_exec c es))) < 2 ^ 63 - 1"
    using clock_exec_props [OF assms] assms(3) by simp
  show ?thesis
    using clock_exec_props [OF assms] Now_increases [OF bound, of phys]
    by (auto intro: le_less_trans)
qed

theorem clock_now_monotonic_witness:
  "clock_observed (NewClock 500) [ENow 10, EUpdate 10 (Timestamp 20 3), ENow 5, ENow 20] =
     [Timestamp 10 0, Timestamp 20 3, Timestamp 20 4, Timestamp 20 5] \<and>
   Timestamp 20 5 < fst (Now 7 (clock_exec (NewClock 500)
        [ENow 10, EUpdate 10 (Timestamp 20 3), ENow 5, ENow 20]))"
proof -
  have obs: "clock_observed (NewClock 500) [ENow 10, EUpdate 10 (Timestamp 20 3), ENow 5, ENow 20] =
     [Timestamp 10 0, Timestamp 20 3, Timestamp 20 4, Timestamp 20 5]"
    by (simp add: NewClock_def Now_def Update_def Next_def zero_ts_def ts_less_sint Let_def)
  have "\<forall>t \<in> set (clock_observed (NewClock 500)
        [ENow 10, EUpdate 10 (Timestamp 20 3), ENow 5, ENow 20]).
      t < fst (Now 7 (clock_exec (NewClock 500)
        [ENow 10, EUpdate 10 (Timestamp 20 3), ENow 5, ENow 20]))"
    by (rule clock_now_monotonic [where B = 20]) (simp_all add: NewClock_def zero_ts_def)
  then show ?thesis unfolding obs by simp
qed

end
