(* ===== verification/Encoding.thy ===== *)
theory Encoding
  imports Prelude
begin

unbundle bit_operations_syntax

text \<open>
  The order-preserving key encodings of \<^verbatim>\<open>src/pkg/util/encoding/encoding.go\<close>. Every
  \<^verbatim>\<open>Encode*\<close> appends to a buffer; every \<^verbatim>\<open>Decode*\<close> returns the rest of the input and the
  value, or an error. A float64 is its IEEE-754 bit pattern (\<^verbatim>\<open>math.Float64bits\<close>).
  The locale \<open>order_codec\<close> states what the rest of the system relies on (round trip,
  order, totality of the order); each encoding is an interpretation of it.
\<close>

section \<open>Fixed-width integers\<close>

datatype enc_error =
    NeedBytes nat
  | MalformedUvarint
  | EmptyInput
  | TruncatedEscape
  | InvalidEscape byte
  | MissingTerminator
  | IndexPanic

definition EncodeUint64 :: "bytes \<Rightarrow> 64 word \<Rightarrow> bytes" where
  "EncodeUint64 b v = b @ be_bytes 8 (unat v)"

definition DecodeUint64 :: "bytes \<Rightarrow> enc_error + bytes \<times> 64 word" where
  "DecodeUint64 b =
     (if length b < 8 then Inl (NeedBytes (length b))
      else Inr (drop 8 b, of_nat (be_val (take 8 b))))"

text \<open>\<^verbatim>\<open>binary.AppendUvarint\<close> and \<^verbatim>\<open>binary.Uvarint\<close> of the standard library.\<close>

function append_uvarint :: "64 word \<Rightarrow> bytes" where
  "append_uvarint v =
     (if v < 0x80 then [ucast v] else (ucast v OR 0x80) # append_uvarint (drop_bit 7 v))"
  by pat_completeness auto
termination
  by (relation "measure unat")
    (auto simp: drop_bit_eq_div unat_div word_less_nat_alt not_less intro!: div_less_dividend)

definition EncodeUvarint :: "bytes \<Rightarrow> 64 word \<Rightarrow> bytes" where
  "EncodeUvarint b v = b @ append_uvarint v"

text \<open>
  The result pairs the value with the number of bytes read; zero or negative is an error
  (input exhausted, or overflow at the tenth byte).
\<close>

fun uvarint_loop :: "nat \<Rightarrow> 64 word \<Rightarrow> nat \<Rightarrow> bytes \<Rightarrow> 64 word \<times> int" where
  "uvarint_loop i x s [] = (0, 0)"
| "uvarint_loop i x s (b # bs) =
     (if i = 10 then (0, - (int i + 1))
      else if b < 0x80 then
        (if i = 9 \<and> b > 1 then (0, - (int i + 1))
         else (x OR push_bit s (ucast b), int i + 1))
      else uvarint_loop (i + 1) (x OR push_bit s (ucast (b AND 0x7F))) (s + 7) bs)"

definition DecodeUvarint :: "bytes \<Rightarrow> enc_error + bytes \<times> 64 word" where
  "DecodeUvarint b =
     (let (v, n) = uvarint_loop 0 0 0 b
      in if n \<le> 0 then Inl MalformedUvarint else Inr (drop (nat n) b, v))"

text \<open>Int64 flips the sign bit.\<close>

definition EncodeInt64 :: "bytes \<Rightarrow> 64 word \<Rightarrow> bytes" where
  "EncodeInt64 b v = b @ be_bytes 8 (unat (v XOR 0x8000000000000000))"

definition DecodeInt64 :: "bytes \<Rightarrow> enc_error + bytes \<times> 64 word" where
  "DecodeInt64 b =
     (case DecodeUint64 b of Inl e \<Rightarrow> Inl e
      | Inr (rest, u) \<Rightarrow> Inr (rest, u XOR 0x8000000000000000))"

section \<open>Floats and booleans\<close>

definition EncodeFloat64 :: "bytes \<Rightarrow> 64 word \<Rightarrow> bytes" where
  "EncodeFloat64 b v =
     (let u = (if v AND 0x8000000000000000 \<noteq> 0 then NOT v else v OR 0x8000000000000000)
      in b @ be_bytes 8 (unat u))"

definition DecodeFloat64 :: "bytes \<Rightarrow> enc_error + bytes \<times> 64 word" where
  "DecodeFloat64 b =
     (case DecodeUint64 b of Inl e \<Rightarrow> Inl e
      | Inr (rest, u) \<Rightarrow>
          Inr (rest, if u AND 0x8000000000000000 \<noteq> 0 then u AND NOT 0x8000000000000000 else NOT u))"

definition EncodeBool :: "bytes \<Rightarrow> bool \<Rightarrow> bytes" where
  "EncodeBool b v = (if v then b @ [1] else b @ [0])"

definition DecodeBool :: "bytes \<Rightarrow> enc_error + bytes \<times> bool" where
  "DecodeBool b = (case b of [] \<Rightarrow> Inl EmptyInput | c # rest \<Rightarrow> Inr (rest, c \<noteq> 0))"

section \<open>Byte strings\<close>

abbreviation (input) escape :: byte where "escape \<equiv> 0x00"
abbreviation (input) escapedNul :: byte where "escapedNul \<equiv> 0xFF"
abbreviation (input) terminator :: byte where "terminator \<equiv> 0x01"

definition EncodeBytes :: "bytes \<Rightarrow> bytes \<Rightarrow> bytes" where
  "EncodeBytes b data =
     foldl (\<lambda>b c. if c = escape then b @ [escape, escapedNul] else b @ [c]) b data
       @ [escape, terminator]"

definition EncodedBytesLen :: "bytes \<Rightarrow> nat" where
  "EncodedBytesLen data = length data + 2 + count_list data escape"

text \<open>
  The first pass of \<^verbatim>\<open>DecodeBytes\<close> finds the terminator and counts the escaped NULs; the
  second copies into a slice allocated at its exact size (a write beyond it is an index
  panic).
\<close>

function decode_scan :: "bytes \<Rightarrow> nat \<Rightarrow> nat \<Rightarrow> enc_error + nat \<times> nat" where
  "decode_scan b i escapes =
     (if i < length b then
        if b ! i \<noteq> escape then decode_scan b (i + 1) escapes
        else if i + 1 \<ge> length b then Inl TruncatedEscape
        else if b ! (i + 1) = escapedNul then decode_scan b (i + 2) (escapes + 1)
        else if b ! (i + 1) = terminator then Inr (i, escapes)
        else Inl (InvalidEscape (b ! (i + 1)))
      else Inl MissingTerminator)"
  by pat_completeness auto
termination
  by (relation "measure (\<lambda>(b, i, _). length b - i)") auto

function decode_copy :: "bytes \<Rightarrow> nat \<Rightarrow> nat \<Rightarrow> nat \<Rightarrow> bytes \<Rightarrow> enc_error + bytes" where
  "decode_copy b stop i j data =
     (if i < stop then
        if j < length data then
          decode_copy b stop (if b ! i = escape then i + 2 else i + 1) (j + 1) (data[j := b ! i])
        else Inl IndexPanic
      else Inr data)"
  by pat_completeness auto
termination
  by (relation "measure (\<lambda>(b, e, i, j, d). e - i)") auto

definition DecodeBytes :: "bytes \<Rightarrow> enc_error + bytes \<times> bytes" where
  "DecodeBytes b =
     (case decode_scan b 0 0 of Inl e \<Rightarrow> Inl e
      | Inr (stop, escapes) \<Rightarrow>
          if escapes = 0 then Inr (drop (stop + 2) b, take stop b)
          else
            (case decode_copy b stop 0 0 (replicate (stop - escapes) 0) of Inl e \<Rightarrow> Inl e
             | Inr data \<Rightarrow> Inr (drop (stop + 2) b, data)))"

text \<open>Go strings are byte strings.\<close>

definition EncodeString :: "bytes \<Rightarrow> bytes \<Rightarrow> bytes" where
  "EncodeString b s = EncodeBytes b s"

definition DecodeString :: "bytes \<Rightarrow> enc_error + bytes \<times> bytes" where
  "DecodeString b = DecodeBytes b"

declare append_uvarint.simps [simp del] decode_scan.simps [simp del] decode_copy.simps [simp del]

section \<open>Reference definitions\<close>

text \<open>
  The payload \<^verbatim>\<open>EncodeBytes\<close> writes before its terminator, and the key order of a float:
  the integer whose unsigned order \<^verbatim>\<open>EncodeFloat64\<close> realises.
\<close>

fun esc :: "bytes \<Rightarrow> bytes" where
  "esc [] = []"
| "esc (c # cs) = (if c = escape then [escape, escapedNul] else [c]) @ esc cs"

definition fkey :: "64 word \<Rightarrow> 64 word" where
  "fkey v = (if bit v 63 then NOT v else v OR 0x8000000000000000)"

text \<open>
  The number a bit pattern denotes, in units of the smallest subnormal: sign, then 11 bits
  of exponent and 52 of fraction. Infinity (exponent 2047, fraction 0) is larger than every
  finite magnitude. \<open>fl_less\<close> is Go's \<^verbatim>\<open><\<close> on float64, false when an operand is a NaN.
\<close>

definition fl_neg :: "64 word \<Rightarrow> bool" where
  "fl_neg v \<longleftrightarrow> v \<ge> 0x8000000000000000"

definition fl_bits :: "64 word \<Rightarrow> nat" where
  "fl_bits v = unat v mod 2 ^ 63"

definition fl_mag :: "nat \<Rightarrow> nat" where
  "fl_mag a = (if a div 2 ^ 52 = 0 then a mod 2 ^ 52
               else (2 ^ 52 + a mod 2 ^ 52) * 2 ^ (a div 2 ^ 52 - 1))"

definition fl_val :: "64 word \<Rightarrow> int" where
  "fl_val v = (if fl_neg v then - int (fl_mag (fl_bits v)) else int (fl_mag (fl_bits v)))"

definition fl_nan :: "64 word \<Rightarrow> bool" where
  "fl_nan v \<longleftrightarrow> fl_bits v div 2 ^ 52 = 2047 \<and> fl_bits v mod 2 ^ 52 \<noteq> 0"

definition fl_less :: "64 word \<Rightarrow> 64 word \<Rightarrow> bool" where
  "fl_less v w \<longleftrightarrow> \<not> fl_nan v \<and> \<not> fl_nan w \<and> fl_val v < fl_val w"

definition fl_key :: "64 word \<Rightarrow> int" where
  "fl_key v = (if bit v 63 then - int (fl_bits v) - 1 else int (fl_bits v))"

section \<open>The contract of an encoding\<close>

text \<open>
  Appending, round trip in front of any suffix, and order under \<^verbatim>\<open>bytes.Compare\<close> whatever
  follows the two encodings. The laws make an encoding injective and prefix-free, so that
  keys built by concatenating encodings compare field by field.
\<close>

locale order_codec =
  fixes enc :: "bytes \<Rightarrow> 'a \<Rightarrow> bytes"
    and dec :: "bytes \<Rightarrow> enc_error + bytes \<times> 'a"
    and lt :: "'a \<Rightarrow> 'a \<Rightarrow> bool"
  assumes enc_append: "enc b x = b @ enc [] x"
    and roundtrip: "dec (enc [] x @ r) = Inr (r, x)"
    and ordered: "lt x y \<Longrightarrow> enc [] x @ r < enc [] y @ s"
    and total: "lt x y \<or> x = y \<or> lt y x"
begin

lemma prefix_free: "enc [] x @ r = enc [] y @ s \<longleftrightarrow> x = y \<and> r = s"
proof
  assume eq: "enc [] x @ r = enc [] y @ s"
  have "Inr (r, x) = (Inr (s, y) :: enc_error + bytes \<times> 'a)"
    using roundtrip [of x r] unfolding eq roundtrip by (rule sym)
  then show "x = y \<and> r = s" by simp
qed simp

lemma inj: "enc b x = enc b y \<longleftrightarrow> x = y"
  using prefix_free [of x "[]" y "[]"] by (simp add: enc_append [of b])

lemma lt_irrefl: "\<not> lt x x"
  using ordered [of x x "[]" "[]"] by auto

lemma lt_asym: "lt x y \<Longrightarrow> \<not> lt y x"
  using ordered [of x y "[]" "[]"] ordered [of y x "[]" "[]"] by auto

lemma less_iff: "enc [] x @ r < enc [] y @ s \<longleftrightarrow> lt x y \<or> x = y \<and> r < s"
proof -
  consider "lt x y" | "x = y" | "lt y x" using total by blast
  then show ?thesis
  proof cases
    case 1
    then show ?thesis using ordered by blast
  next
    case 2
    then show ?thesis using lt_irrefl by simp
  next
    case 3
    then show ?thesis using ordered [of y x s r] lt_asym lt_irrefl by auto
  qed
qed

lemma dec_enc: "dec (enc [] x) = Inr ([], x)"
  using roundtrip [of x "[]"] by simp

lemma less_iff_nil: "enc b x < enc b y \<longleftrightarrow> lt x y"
  using less_iff [of x "[]" y "[]"] by (simp add: enc_append [of b])

end

section \<open>Sign-bit lemmas\<close>

lemma xor_unset: "\<not> bit w n \<Longrightarrow> (w :: 'a::len word) XOR push_bit n 1 = w + push_bit n 1"
  by (rule disjunctive_add_eq_xor [symmetric], rule bit_word_eqI) (auto simp: bit_simps)

lemma add_twice: "x + p = v \<Longrightarrow> p + p = 0 \<Longrightarrow> x = v + (p :: 'a::comm_ring_1)"
  by (metis add.assoc add.right_neutral)

lemma xor_top_bit: "(v :: 64 word) XOR push_bit 63 1 = v + push_bit 63 1"
proof (cases "bit v 63")
  case True
  then have "\<not> bit (v XOR push_bit 63 1) 63" by (simp only: bit_simps) simp
  from xor_unset [OF this] have eq: "(v XOR push_bit 63 1) + push_bit 63 1 = v"
    by (simp only: xor.assoc xor_self_eq xor.right_neutral)
  have two: "push_bit 63 1 + push_bit 63 1 = (0 :: 64 word)" by simp
  show ?thesis by (rule add_twice [OF eq two])
qed (rule xor_unset)

lemma uint_top_bit: "uint (v + push_bit 63 1 :: 64 word) = sint v + 2 ^ 63"
  by transfer (simp add: signed_take_bit_eq_take_bit_shift take_bit_add push_bit_eq_mult)

lemma top_bit: "(0x8000000000000000 :: 64 word) = push_bit 63 1"
  by simp

lemma unat_xor_top: "unat ((v :: 64 word) XOR 0x8000000000000000) = nat (sint v + 2 ^ 63)"
  unfolding top_bit by (subst unat_eq_nat_uint) (simp only: xor_top_bit uint_top_bit)

lemma xor_top_less: "v XOR 0x8000000000000000 < w XOR 0x8000000000000000 \<longleftrightarrow> sint v < sint (w :: 64 word)"
proof -
  have "- (2 ^ 63) \<le> sint v" "- (2 ^ 63) \<le> sint w" using sint_ge [of v] sint_ge [of w] by simp_all
  then show ?thesis
    unfolding word_less_nat_alt unat_xor_top by linarith
qed

lemma xor_top_invol: "((v :: 64 word) XOR 0x8000000000000000) XOR 0x8000000000000000 = v"
  by (simp only: xor.assoc xor_self_eq xor.right_neutral)

lemma unat_64: "unat (v :: 64 word) < 256 ^ 8"
  using unsigned_less [of v, where 'a = nat] by simp

lemma be_bytes_word_less [order_simps]:
  "be_bytes 8 (unat v) @ r < be_bytes 8 (unat w) @ s \<longleftrightarrow> v < (w :: 64 word) \<or> v = w \<and> r < s"
  by (auto simp: append_less_same_length be_bytes_less_iff [OF unat_64 unat_64] word_less_nat_alt
      be_bytes_inj [OF unat_64 unat_64] word_unat_eq_iff)

lemma of_nat_be_val [codec_simps]: "of_nat (be_val (be_bytes 8 (unat v))) = (v :: 64 word)"
  using unat_64 [of v] by simp

lemma DecodeUint64_be [codec_simps]: "DecodeUint64 (be_bytes 8 (unat v) @ r) = Inr (r, v)"
  by (simp add: DecodeUint64_def of_nat_be_val del: be_val_be_bytes)

section \<open>Integers, floats and booleans\<close>

interpretation u64: order_codec EncodeUint64 DecodeUint64 "(<)"
  by unfold_locales (auto simp: EncodeUint64_def codec_simps order_simps)

interpretation i64: order_codec EncodeInt64 DecodeInt64 "\<lambda>v w. sint v < sint w"
proof
  fix v w :: "64 word" and r s :: bytes
  show "sint v < sint w \<or> v = w \<or> sint w < sint v"
    using sint_inj [of v w] by linarith
qed (simp_all add: EncodeInt64_def DecodeInt64_def codec_simps order_simps xor_top_less xor_top_invol)

interpretation bool_codec: order_codec EncodeBool DecodeBool "(<)"
  by unfold_locales (auto simp: EncodeBool_def DecodeBool_def)

section \<open>Floats\<close>

lemma top_exp: "(0x8000000000000000 :: 64 word) = 2 ^ 63"
  by simp

lemma and_top: "(v AND 0x8000000000000000 \<noteq> 0) \<longleftrightarrow> bit (v :: 64 word) 63"
  by (simp only: top_exp and_exp_eq_0_iff_not_bit not_not)

lemma EncodeFloat64_fkey: "EncodeFloat64 b v = b @ be_bytes 8 (unat (fkey v))"
  by (simp only: EncodeFloat64_def fkey_def and_top Let_def)

lemma bit_fkey: "bit (fkey v) 63 \<longleftrightarrow> \<not> bit v 63"
  unfolding fkey_def top_bit by (simp only: bit_simps split: if_split) simp

lemma andnot_or_top: "\<not> bit v 63 \<Longrightarrow> (v OR 0x8000000000000000) AND NOT 0x8000000000000000 = (v :: 64 word)"
proof (rule bit_word_eqI)
  fix n assume v: "\<not> bit v 63" and "n < LENGTH(64)"
  then show "bit ((v OR 0x8000000000000000) AND NOT 0x8000000000000000) n = bit v n"
    unfolding top_bit
    by (cases "n = 63") (simp_all only: bit_simps, auto)
qed

lemma DecodeFloat64_fkey: "DecodeFloat64 (be_bytes 8 (unat (fkey v)) @ r) = Inr (r, v)"
proof (cases "bit v 63")
  case True
  then show ?thesis
    by (simp only: DecodeFloat64_def DecodeUint64_be sum.case prod.case and_top bit_fkey)
      (simp add: fkey_def)
next
  case False
  then have "fkey v AND NOT 0x8000000000000000 = v"
    unfolding fkey_def by (simp only: andnot_or_top if_False not_False_eq_True)
  with False show ?thesis
    by (simp only: DecodeFloat64_def DecodeUint64_be sum.case prod.case and_top bit_fkey) simp
qed

lemma fkey_inj: "fkey v = fkey w \<Longrightarrow> v = w"
  using DecodeFloat64_fkey [of v "[]"] DecodeFloat64_fkey [of w "[]"] by simp

interpretation f64: order_codec EncodeFloat64 DecodeFloat64 "\<lambda>v w. fkey v < fkey w"
proof
  fix v w :: "64 word"
  show "fkey v < fkey w \<or> v = w \<or> fkey w < fkey v"
    using fkey_inj [of v w] by (auto simp: less_linear)
qed (simp_all add: EncodeFloat64_fkey DecodeFloat64_fkey order_simps)

lemma fl_mag_Suc: "fl_mag a < fl_mag (Suc a)"
proof (cases "Suc (a mod 2 ^ 52) = 2 ^ 52")
  case True
  then have d: "Suc a div 2 ^ 52 = Suc (a div 2 ^ 52)" and m: "Suc a mod 2 ^ 52 = 0"
    by (simp_all add: div_Suc mod_Suc)
  have "a mod 2 ^ 52 < (2 :: nat) ^ 52" by simp
  then have "(2 ^ 52 + a mod 2 ^ 52) * 2 ^ (a div 2 ^ 52 - 1) < (2 ^ 52 + 2 ^ 52) * 2 ^ (a div 2 ^ 52 - 1 :: nat)"
    by simp
  then show ?thesis
    by (cases "a div 2 ^ 52") (simp_all only: fl_mag_def d m, simp_all)
next
  case False
  then have "Suc a div 2 ^ 52 = a div 2 ^ 52" "Suc a mod 2 ^ 52 = Suc (a mod 2 ^ 52)"
    by (simp_all add: div_Suc mod_Suc)
  then show ?thesis by (simp only: fl_mag_def) simp
qed

lemma fl_mag_less: "fl_mag a < fl_mag b \<longleftrightarrow> a < b"
  using lift_Suc_mono_less_iff [of fl_mag, OF fl_mag_Suc] .

lemma bit_top_iff: "bit (v :: 64 word) 63 \<longleftrightarrow> 2 ^ 63 \<le> unat v"
proof -
  have "unat v div 2 ^ 63 < 2"
    using unat_64 [of v] by simp
  then have "odd (unat v div 2 ^ 63) \<longleftrightarrow> unat v div 2 ^ 63 = 1" by (cases "unat v div 2 ^ 63") auto
  also have "\<dots> \<longleftrightarrow> 2 ^ 63 \<le> unat v"
    using \<open>unat v div 2 ^ 63 < 2\<close> by (auto simp: div_greater_zero_iff dest: div_le_mono [of _ _ "2 ^ 63"])
  finally have "bit (unat v) 63 \<longleftrightarrow> 2 ^ 63 \<le> unat v"
    by (simp only: bit_iff_odd)
  then show ?thesis by (simp add: bit_unsigned_iff)
qed
lemma unat_or_top:
  assumes "\<not> bit v 63"
  shows "unat (v OR 0x8000000000000000 :: 64 word) = unat v + 2 ^ 63"
proof -
  have "v AND 0x8000000000000000 = 0" using assms and_top by blast
  then have "v OR 0x8000000000000000 = v + 0x8000000000000000" by (rule disjunctive_add_eq_or [symmetric])
  then show ?thesis using assms by (simp add: unat_word_ariths bit_top_iff)
qed

lemma unat_not: "unat (NOT v :: 64 word) = 2 ^ 64 - 1 - unat v"
proof -
  have "NOT v = -1 - v" by (simp add: not_eq_complement)
  moreover have "unat (-1 - v) = unat (-1 :: 64 word) - unat v" by (rule unat_sub) simp
  ultimately show ?thesis by (simp add: unsigned_minus_1_eq_mask mask_eq_exp_minus_1)
qed

lemma unat_fkey: "int (unat (fkey v)) = fl_key v + 2 ^ 63"
proof (cases "bit v 63")
  case True
  moreover have "unat v mod 2 ^ 63 = unat v - 2 ^ 63"
    using True unat_64 [of v] by (simp add: bit_top_iff mod_if le_mod_geq)
  ultimately show ?thesis
    using unat_64 [of v] by (simp add: fkey_def fl_key_def fl_bits_def unat_not bit_top_iff of_nat_diff)
next
  case False
  then have "unat v mod 2 ^ 63 = unat v" by (simp add: bit_top_iff)
  with False unat_or_top [OF False] show ?thesis
    by (simp add: fkey_def fl_key_def fl_bits_def)
qed

lemma fkey_less_iff: "fkey v < fkey w \<longleftrightarrow> fl_key v < fl_key w"
  using unat_fkey [of v] unat_fkey [of w] by (simp add: word_less_def)

lemma fl_neg_bit: "fl_neg v \<longleftrightarrow> bit v 63"
  by (simp add: fl_neg_def bit_top_iff word_le_nat_alt)

lemma fl_val_imp_key: "fl_val v < fl_val w \<Longrightarrow> fl_key v < fl_key w"
  by (auto simp: fl_val_def fl_key_def fl_neg_bit fl_mag_less split: if_splits)

lemma fl_key_imp_val: "fl_key v < fl_key w \<Longrightarrow> fl_val v < fl_val w \<or> fl_val v = 0 \<and> fl_val w = 0"
  using fl_mag_less [of 0 "fl_bits v"] fl_mag_less [of 0 "fl_bits w"]
  by (auto simp: fl_val_def fl_key_def fl_neg_bit fl_mag_less split: if_splits)

section \<open>Byte strings, escaped and terminated\<close>

lemma EncodeBytes_esc: "EncodeBytes b data = b @ esc data @ [escape, terminator]"
proof -
  have "foldl (\<lambda>b c. if c = escape then b @ [escape, escapedNul] else b @ [c]) b data = b @ esc data"
    by (induction data arbitrary: b) auto
  then show ?thesis by (simp add: EncodeBytes_def)
qed

lemma length_esc: "length (esc data) = length data + count_list data escape"
  by (induction data) auto

lemma esc_id: "count_list data escape = 0 \<Longrightarrow> esc data = data"
  by (induction data) (auto split: if_splits)

lemma esc_less: "d < e \<Longrightarrow> esc d @ [escape, terminator] @ r < esc e @ [escape, terminator] @ s"
proof (induction d arbitrary: e)
  case Nil
  then obtain c cs where "e = c # cs" by (cases e) auto
  then show ?case by (auto simp: word_less_nat_alt unat_gt_0)
next
  case (Cons c cs)
  then obtain c' cs' where e: "e = c' # cs'" by (cases e) auto
  show ?case
  proof (cases "c = c'")
    case True
    with Cons e show ?thesis by simp
  next
    case False
    with Cons.prems e have "c < c'" by simp
    moreover from this have "c' \<noteq> escape" by auto
    ultimately show ?thesis using e by (cases "c = escape") auto
  qed
qed

lemma drop_nth_step: "i < length b \<Longrightarrow> drop i b = b ! i # drop (Suc i) b"
  by (rule Cons_nth_drop_Suc [symmetric])

lemma drop_tail: "drop i b = c # cs \<Longrightarrow> drop (Suc i) b = cs"
  by (metis drop_Suc list.sel(3) tl_drop)

lemma decode_scan_esc:
  "drop i b = esc data @ escape # terminator # r \<Longrightarrow> i \<le> length b \<Longrightarrow>
   decode_scan b i k = Inr (i + length (esc data), k + count_list data escape)"
proof (induction data arbitrary: i k)
  case Nil
  then have "i + 1 < length b" "b ! i = escape" "b ! (i + 1) = terminator"
    by (auto simp: nth_via_drop dest: arg_cong [of _ _ length] arg_cong [of _ _ "\<lambda>l. l ! 1"])
  then show ?case by (subst decode_scan.simps) simp
next
  case (Cons c cs)
  show ?case
  proof (cases "c = escape")
    case True
    with Cons.prems have "i + 1 < length b" "b ! i = escape" "b ! (i + 1) = escapedNul"
      "drop (i + 2) b = esc cs @ escape # terminator # r"
      by (auto simp: nth_via_drop dest: drop_tail drop_tail [THEN drop_tail] arg_cong [of _ _ length]
          arg_cong [of _ _ "\<lambda>l. l ! 1"])
    with True Cons.IH [of "i + 2" "k + 1"] show ?thesis by (subst decode_scan.simps) simp
  next
    case False
    with Cons.prems have "i < length b" "b ! i = c" "drop (i + 1) b = esc cs @ escape # terminator # r"
      by (auto simp: nth_via_drop dest: drop_tail arg_cong [of _ _ length])
    with False Cons.IH [of "i + 1" k] show ?thesis by (subst decode_scan.simps) simp
  qed
qed

lemma decode_scan_sound:
  "decode_scan b i k = Inr (e, m) \<Longrightarrow>
   \<exists>data. drop i b = esc data @ escape # terminator # drop (e + 2) b"
proof (induction b i k rule: decode_scan.induct)
  case (1 b i k)
  from "1.prems" have i: "i < length b" by (subst (asm) decode_scan.simps) (simp split: if_splits)
  show ?case
  proof (cases "b ! i = escape")
    case False
    with "1.prems" i have "decode_scan b (i + 1) k = Inr (e, m)"
      by (subst (asm) decode_scan.simps) simp
    from "1.IH"(1) [OF i False this] obtain data
      where "drop (i + 1) b = esc data @ escape # terminator # drop (e + 2) b" by blast
    with False show ?thesis using drop_nth_step [OF i]
      by (intro exI [of _ "b ! i # data"]) simp
  next
    case True
    with "1.prems" i have i1: "\<not> length b \<le> i + 1" by (subst (asm) decode_scan.simps) (simp split: if_splits)
    then have dr: "drop i b = escape # b ! (i + 1) # drop (i + 2) b"
      using drop_nth_step [OF i] drop_nth_step [of "i + 1" b] True by simp
    show ?thesis
    proof (cases "b ! (i + 1) = escapedNul")
      case True
      with \<open>b ! i = escape\<close> "1.prems" i i1 have "decode_scan b (i + 2) (k + 1) = Inr (e, m)"
        by (subst (asm) decode_scan.simps) simp
      from "1.IH"(2) [OF i _ i1 True this] \<open>b ! i = escape\<close> obtain data
        where "drop (i + 2) b = esc data @ escape # terminator # drop (e + 2) b" by blast
      with dr True show ?thesis by (intro exI [of _ "escape # data"]) simp
    next
      case False
      with \<open>b ! i = escape\<close> "1.prems" i i1 have "b ! (i + 1) = terminator" "e = i"
        by (subst (asm) decode_scan.simps, simp split: if_splits)+
      with dr show ?thesis by (intro exI [of _ "[]"]) simp
    qed
  qed
qed

lemma decode_copy_esc:
  "drop i b = esc data @ r \<Longrightarrow> i \<le> length b \<Longrightarrow> j + length data \<le> length out \<Longrightarrow>
   decode_copy b (i + length (esc data)) i j out =
     Inr (take j out @ data @ drop (j + length data) out)"
proof (induction data arbitrary: i j out)
  case Nil
  then show ?case by (subst decode_copy.simps) simp
next
  case (Cons c cs)
  let ?d = "if c = escape then 2 else 1 :: nat"
  from Cons.prems have "b ! i = c" "drop (i + ?d) b = esc cs @ r" "i + ?d \<le> length b"
    by (auto simp: nth_via_drop dest: drop_tail arg_cong [of _ _ length] drop_tail [THEN drop_tail]
        split: if_splits)
  moreover have "take (j + 1) (out[j := c]) = take j out @ [c]"
    using Cons.prems by (simp add: take_Suc_conv_app_nth)
  moreover have "drop (j + 1 + length cs) (out[j := c]) = drop (j + Suc (length cs)) out" by simp
  ultimately show ?case
    using Cons.IH [of "i + ?d" "j + 1" "out[j := c]"] Cons.prems
    by (subst decode_copy.simps) (auto simp: add.assoc)
qed

lemma DecodeBytes_EncodeBytes: "DecodeBytes (esc data @ escape # terminator # r) = Inr (r, data)"
proof -
  let ?b = "esc data @ escape # terminator # r"
  have scan: "decode_scan ?b 0 0 = Inr (length (esc data), count_list data escape)"
    using decode_scan_esc [of 0 ?b data r 0] by simp
  have len: "length (esc data) - count_list data escape = length data"
    by (simp add: length_esc)
  have copy: "decode_copy ?b (length (esc data)) 0 0 (replicate (length data) 0) = Inr data"
    using decode_copy_esc [of 0 ?b data "escape # terminator # r" 0 "replicate (length data) 0"] by simp
  show ?thesis
    unfolding DecodeBytes_def scan sum.case prod.case len copy
    using esc_id [of data] by auto
qed

interpretation byt: order_codec EncodeBytes DecodeBytes "(<)"
  by unfold_locales (auto simp: EncodeBytes_esc DecodeBytes_EncodeBytes dest: esc_less)

lemma DecodeBytes_sound: "DecodeBytes b = Inr (rest, data) \<Longrightarrow> b = EncodeBytes [] data @ rest"
proof -
  assume dec: "DecodeBytes b = Inr (rest, data)"
  then obtain e k where "decode_scan b 0 0 = Inr (e, k)"
    by (auto simp: DecodeBytes_def split: sum.splits)
  from decode_scan_sound [OF this] obtain d where b: "b = esc d @ escape # terminator # drop (e + 2) b"
    by auto
  from DecodeBytes_EncodeBytes [of d "drop (e + 2) b"] dec have "data = d" "rest = drop (e + 2) b"
    unfolding b [symmetric] by simp_all
  with b show ?thesis by (simp add: EncodeBytes_esc)
qed

lemma decode_scan_no_panic: "decode_scan b i k \<noteq> Inl IndexPanic"
proof (induction b i k rule: decode_scan.induct)
  case (1 b i k)
  then show ?case by (subst decode_scan.simps) simp
qed

lemma DecodeBytes_no_panic: "DecodeBytes b \<noteq> Inl IndexPanic"
proof (cases "decode_scan b 0 0")
  case (Inl e)
  then show ?thesis using decode_scan_no_panic [of b 0 0] by (simp add: DecodeBytes_def)
next
  case (Inr em)
  then obtain e k where "decode_scan b 0 0 = Inr (e, k)" by (cases em) simp
  from decode_scan_sound [OF this] obtain d where "b = esc d @ escape # terminator # drop (e + 2) b"
    by auto
  then show ?thesis using DecodeBytes_EncodeBytes [of d "drop (e + 2) b"] by simp
qed

section \<open>Varints\<close>

lemma byte_consts: "bit (0x80 :: byte) n \<longleftrightarrow> n = 7" "bit (0x7F :: byte) n \<longleftrightarrow> n < 7"
proof -
  have m: "(0x7F :: byte) = mask 7" "(0x80 :: byte) = push_bit 7 1" by (simp_all add: mask_eq_exp_minus_1)
  show "bit (0x80 :: byte) n \<longleftrightarrow> n = 7" unfolding m by (simp only: bit_simps) auto
  show "bit (0x7F :: byte) n \<longleftrightarrow> n < 7" unfolding m by (simp only: bit_simps) auto
qed

lemma uvarint_or:
  "x OR push_bit s (ucast ((ucast v OR 0x80) AND 0x7F :: byte)) OR push_bit (s + 7) (drop_bit 7 v) =
   x OR push_bit s (v :: 64 word)"
proof -
  have "ucast ((ucast v OR 0x80) AND 0x7F :: byte) = take_bit 7 v"
    by (rule bit_word_eqI) (simp only: bit_simps byte_consts, auto)
  moreover have "push_bit s (take_bit 7 v) OR push_bit (s + 7) (drop_bit 7 v) = push_bit s v"
  proof (rule bit_word_eqI)
    fix n assume "n < LENGTH(64)"
    moreover have "n - s < 7 \<or> 7 + (n - (s + 7)) = n - s" by arith
    ultimately show "bit (push_bit s (take_bit 7 v) OR push_bit (s + 7) (drop_bit 7 v)) n = bit (push_bit s v) n"
      by (elim disjE) (auto simp: bit_simps)
  qed
  ultimately show ?thesis by (simp add: or.assoc)
qed

lemma uvarint_small:
  "v < 0x80 \<Longrightarrow> unat (ucast (v :: 64 word) :: byte) = unat v"
  "v < 0x80 \<Longrightarrow> ucast (ucast (v :: 64 word) :: byte) = v"
  by (simp_all add: word_unat_eq_iff word_less_nat_alt unsigned_ucast_eq unsigned_take_bit_eq take_bit_nat_eq_self)

lemma uvarint_cont: "\<not> (ucast (v :: 64 word) OR 0x80 :: byte) < 0x80"
proof
  let ?b = "ucast (v :: 64 word) OR 0x80 :: byte"
  assume "?b < 0x80"
  then have "\<not> bit (unat ?b) 7" by (simp add: word_less_nat_alt bit_iff_odd)
  then show False by (simp add: bit_simps byte_consts)
qed

lemma uvarint_loop_append:
  "unat v < 2 ^ (64 - 7 * i) \<Longrightarrow> i \<le> 9 \<Longrightarrow>
   uvarint_loop i x (7 * i) (append_uvarint v @ r) =
     (x OR push_bit (7 * i) v, int (i + length (append_uvarint v)))"
proof (induction v arbitrary: i x rule: append_uvarint.induct)
  case (1 v)
  show ?case
  proof (cases "v < 0x80")
    case True
    have "\<not> (i = 9 \<and> (ucast v :: byte) > 1)"
      using 1(2) uvarint_small(1) [OF True] by (auto simp: word_less_nat_alt)
    with True 1(3) uvarint_small [OF True] show ?thesis
      by (subst (1 2) append_uvarint.simps) (auto simp: word_less_nat_alt)
  next
    case False
    then have ge: "2 ^ 7 \<le> unat v" by (simp add: word_less_nat_alt)
    from le_less_trans [OF this 1(2)] have "(2 :: nat) ^ 7 < 2 ^ (64 - 7 * i)" .
    then have i: "7 < 64 - 7 * i" by (rule power_less_imp_less_exp [rotated]) simp
    have "unat (drop_bit 7 v) < 2 ^ (64 - 7 * (i + 1))"
    proof -
      have "unat v < 2 ^ (64 - 7 * (i + 1)) * 2 ^ 7"
        using 1(2) i by (simp only: power_add [symmetric]) (simp add: algebra_simps)
      then show ?thesis by (simp add: drop_bit_eq_div unat_div less_mult_imp_div_less)
    qed
    from 1(1) [OF False this] i False uvarint_cont [of v] 1(3) uvarint_or [of x "7 * i" v]
    show ?thesis by (subst (1 2) append_uvarint.simps) (simp add: add.commute [of "7 * i"] or.assoc)
  qed
qed

lemma DecodeUvarint_roundtrip: "DecodeUvarint (EncodeUvarint [] v @ r) = Inr (r, v)"
proof -
  have "append_uvarint v \<noteq> []" by (subst append_uvarint.simps) simp
  then show ?thesis
    using uvarint_loop_append [of v 0 0 r] unat_64 [of v]
    by (simp add: EncodeUvarint_def DecodeUvarint_def)
qed

section \<open>The contracts\<close>

lemma fl_zero_bits: "fl_val v = 0 \<longleftrightarrow> fl_bits v = 0"
  using fl_mag_less [of 0 "fl_bits v"] by (auto simp: fl_val_def fl_mag_def)

lemma fl_key_cases:
  "fl_key v < fl_key w \<longleftrightarrow> fl_val v < fl_val w \<or> v = 0x8000000000000000 \<and> w = 0"
proof
  assume less: "fl_key v < fl_key w"
  then consider "fl_val v < fl_val w" | "fl_bits v = 0" "fl_bits w = 0"
    using fl_key_imp_val [OF less] by (auto simp: fl_zero_bits)
  then show "fl_val v < fl_val w \<or> v = 0x8000000000000000 \<and> w = 0"
  proof cases
    case 2
    with less have "bit v 63" "\<not> bit w 63" by (auto simp: fl_key_def split: if_splits)
    with 2 have "unat v = 2 ^ 63" "unat w = 0"
      using unat_64 [of v] by (auto simp: bit_top_iff fl_bits_def mod_if le_mod_geq split: if_splits)
    then show ?thesis by (simp add: word_unat_eq_iff)
  qed simp
next
  assume "fl_val v < fl_val w \<or> v = 0x8000000000000000 \<and> w = 0"
  then show "fl_key v < fl_key w"
    using fl_val_imp_key [of v w] by (auto simp: fl_key_def fl_bits_def bit_top_iff)
qed

text \<open>
  C12: every encoding decodes to the value it encodes and the bytes that follow it,
  whatever those are.
\<close>

theorem encodings_roundtrip:
  "DecodeUint64 (EncodeUint64 [] u @ r) = Inr (r, u) \<and>
   DecodeInt64 (EncodeInt64 [] i @ r) = Inr (r, i) \<and>
   DecodeFloat64 (EncodeFloat64 [] f @ r) = Inr (r, f) \<and>
   DecodeBool (EncodeBool [] c @ r) = Inr (r, c) \<and>
   DecodeString (EncodeString [] d @ r) = Inr (r, d) \<and>
   DecodeUvarint (EncodeUvarint [] u @ r) = Inr (r, u)"
  by (simp add: u64.roundtrip i64.roundtrip f64.roundtrip bool_codec.roundtrip byt.roundtrip
      EncodeString_def DecodeString_def DecodeUvarint_roundtrip)

text \<open>
  C13: under \<^verbatim>\<open>bytes.Compare\<close> encoded values compare as the values do (unsigned, signed,
  false before true, byte-wise), and only when the values are equal do the bytes after the
  encodings decide. No encoding is a prefix of another.
\<close>

theorem encodings_ordered:
  "(EncodeUint64 b u @ r < EncodeUint64 b u' @ s \<longleftrightarrow> u < u' \<or> u = u' \<and> r < s) \<and>
   (EncodeInt64 b i @ r < EncodeInt64 b i' @ s \<longleftrightarrow> sint i < sint i' \<or> i = i' \<and> r < s) \<and>
   (EncodeBool b c @ r < EncodeBool b c' @ s \<longleftrightarrow> \<not> c \<and> c' \<or> c = c' \<and> r < s) \<and>
   (EncodeBytes b d @ r < EncodeBytes b d' @ s \<longleftrightarrow> d < d' \<or> d = d' \<and> r < s)"
  using u64.less_iff [of u r u' s] i64.less_iff [of i r i' s] bool_codec.less_iff [of c r c' s]
    byt.less_iff [of d r d' s]
  by (simp add: u64.enc_append [of b] i64.enc_append [of b] bool_codec.enc_append [of b]
      byt.enc_append [of b])

text \<open>
  C14: on floats that are not NaN the encoding orders as the numbers do; the one pair of
  numerically equal floats with different encodings is the two zeros, negative zero first.
\<close>

theorem float_encoding_ordered:
  assumes "\<not> fl_nan v" "\<not> fl_nan w"
  shows "EncodeFloat64 b v < EncodeFloat64 b w \<longleftrightarrow>
    fl_less v w \<or> v = 0x8000000000000000 \<and> w = 0"
  using assms f64.less_iff_nil [of b v w] by (simp add: fkey_less_iff fl_key_cases fl_less_def)

text \<open>The bit patterns of -2.5 and 1.\<close>

theorem float_encoding_ordered_witness:
  "\<not> fl_nan 0xC004000000000000 \<and> \<not> fl_nan 0x3FF0000000000000 \<and>
   (EncodeFloat64 [] 0xC004000000000000 < EncodeFloat64 [] 0x3FF0000000000000 \<longleftrightarrow>
    fl_less 0xC004000000000000 0x3FF0000000000000 \<or>
    (0xC004000000000000 :: 64 word) = 0x8000000000000000 \<and> (0x3FF0000000000000 :: 64 word) = 0)"
  by (intro conjI float_encoding_ordered) (simp_all add: fl_nan_def fl_bits_def)

text \<open>
  C15: \<^verbatim>\<open>DecodeBytes\<close> accepts exactly the encodings: it succeeds on a byte string if and
  only if that is the encoding of the value returned followed by the rest returned, and its
  copy loop never writes outside the slice it allocated.
\<close>

theorem DecodeBytes_exact:
  "(DecodeBytes b = Inr (rest, data) \<longleftrightarrow> b = EncodeBytes [] data @ rest) \<and>
   DecodeBytes b \<noteq> Inl IndexPanic"
  using DecodeBytes_sound byt.roundtrip DecodeBytes_no_panic by auto

end
