(* ===== verification/Keys.thy ===== *)
theory Keys
  imports Encoding
begin

text \<open>
  The keyspace layout of \<^verbatim>\<open>src/pkg/keys/keys.go\<close>: global keys (meta, system, table data) and
  local keys (store-local, range-local addressed). A key is its bytes; the order is
  \<^verbatim>\<open>bytes.Compare\<close>. A \<^verbatim>\<open>uuid.UUID\<close> is an array of 16 bytes. The lemmas show that the
  spans the system scans hold exactly the keys of their family, that transaction records
  travel with the range that covers their anchor, and that range lookup finds the right
  descriptor.
\<close>

type_synonym key = bytes
type_synonym uuid = bytes

section \<open>Keys\<close>

definition Key_Equal :: "key \<Rightarrow> key \<Rightarrow> bool" where
  "Key_Equal k o' \<longleftrightarrow> k = o'"

definition Key_Compare :: "key \<Rightarrow> key \<Rightarrow> int" where
  "Key_Compare k o' = (if k < o' then -1 else if k = o' then 0 else 1)"

definition Key_Less :: "key \<Rightarrow> key \<Rightarrow> bool" where
  "Key_Less k o' \<longleftrightarrow> Key_Compare k o' < 0"

definition Key_HasPrefix :: "key \<Rightarrow> key \<Rightarrow> bool" where
  "Key_HasPrefix k p \<longleftrightarrow> prefix p k"

definition Key_Next :: "key \<Rightarrow> key" where
  "Key_Next k = k @ [0]"

abbreviation (input) localPrefixByte :: byte where "localPrefixByte \<equiv> 0x01"
abbreviation (input) metaPrefixByte :: byte where "metaPrefixByte \<equiv> 0x02"
abbreviation (input) systemPrefixByte :: byte where "systemPrefixByte \<equiv> 0x03"
abbreviation (input) tablePrefixByte :: byte where "tablePrefixByte \<equiv> 0x04"

definition MinKey :: key where "MinKey = [metaPrefixByte]"
definition MaxKey :: key where "MaxKey = [0xFF]"
definition LocalPrefix :: key where "LocalPrefix = [localPrefixByte]"
definition MetaPrefix :: key where "MetaPrefix = [metaPrefixByte]"
definition SystemPrefix :: key where "SystemPrefix = [systemPrefixByte]"
definition TablePrefix :: key where "TablePrefix = [tablePrefixByte]"
definition localUnreplicatedPrefix :: key where
  "localUnreplicatedPrefix = localPrefixByte # str ''u''"
definition localAddressedPrefix :: key where
  "localAddressedPrefix = localPrefixByte # str ''k''"

text \<open>The loop of \<^verbatim>\<open>PrefixEnd\<close>, from the last byte down.\<close>

fun prefix_end_loop :: "key \<Rightarrow> nat \<Rightarrow> key" where
  "prefix_end_loop e 0 = MaxKey"
| "prefix_end_loop e (Suc i) =
     (if e ! i \<noteq> 0xFF then take (i + 1) (e[i := e ! i + 1]) else prefix_end_loop e i)"

definition PrefixEnd :: "key \<Rightarrow> key" where
  "PrefixEnd k = prefix_end_loop k (length k)"

definition IsLocal :: "key \<Rightarrow> bool" where
  "IsLocal k \<longleftrightarrow> length k > 0 \<and> k ! 0 = localPrefixByte"

section \<open>Store-local keys\<close>

definition StoreIdentKey :: key where
  "StoreIdentKey = localUnreplicatedPrefix @ str ''store-ident''"
definition StoreRegistryKey :: key where
  "StoreRegistryKey = localUnreplicatedPrefix @ str ''store-registry''"
definition StoreClusterVersionKey :: key where
  "StoreClusterVersionKey = localUnreplicatedPrefix @ str ''store-cluster-version''"
definition StoreRaftEngineKey :: key where
  "StoreRaftEngineKey = localUnreplicatedPrefix @ str ''store-raft-engine''"

definition makeRangeLocalKey :: "64 word \<Rightarrow> string \<Rightarrow> key" where
  "makeRangeLocalKey rangeID sfx =
     EncodeUint64 (localUnreplicatedPrefix @ str ''r'') rangeID @ str sfx"

definition RaftHardStateKey :: "64 word \<Rightarrow> key" where
  "RaftHardStateKey rangeID = makeRangeLocalKey rangeID ''hs''"
definition RaftLogKey :: "64 word \<Rightarrow> 64 word \<Rightarrow> key" where
  "RaftLogKey rangeID index = EncodeUint64 (makeRangeLocalKey rangeID ''log'') index"
definition RaftLogPrefix :: "64 word \<Rightarrow> key" where
  "RaftLogPrefix rangeID = makeRangeLocalKey rangeID ''log''"
definition RaftAppliedStateKey :: "64 word \<Rightarrow> key" where
  "RaftAppliedStateKey rangeID = makeRangeLocalKey rangeID ''as''"
definition RaftTruncatedStateKey :: "64 word \<Rightarrow> key" where
  "RaftTruncatedStateKey rangeID = makeRangeLocalKey rangeID ''ts''"

definition IsRaftEngineKey :: "key \<Rightarrow> bool" where
  "IsRaftEngineKey k =
     (let pre = length localUnreplicatedPrefix + 1 + 8
      in if length k < pre \<or> k ! length localUnreplicatedPrefix \<noteq> of_char CHR ''r'' then False
         else let sfx = drop pre k
              in if sfx = str ''hs'' \<or> sfx = str ''ts'' then True
                 else if length sfx = 3 + 8 \<and> take 3 sfx = str ''log'' then True
                 else False)"

definition RangeDescriptorKey :: "64 word \<Rightarrow> key" where
  "RangeDescriptorKey rangeID = makeRangeLocalKey rangeID ''desc''"
definition RangeUnreplicatedPrefix :: "64 word \<Rightarrow> key" where
  "RangeUnreplicatedPrefix rangeID = makeRangeLocalKey rangeID []"
definition RangeTombstoneKey :: "64 word \<Rightarrow> key" where
  "RangeTombstoneKey rangeID = makeRangeLocalKey rangeID ''tomb''"

section \<open>Range-local addressed keys\<close>

definition TransactionKey :: "key \<Rightarrow> uuid \<Rightarrow> key" where
  "TransactionKey anchor txnID =
     EncodeBytes localAddressedPrefix anchor @ str ''txn'' @ txnID"

definition IsTransactionKey :: "key \<Rightarrow> bool" where
  "IsTransactionKey k =
     (if \<not> prefix localAddressedPrefix k then False
      else case DecodeBytes (drop (length localAddressedPrefix) k) of
             Inl _ \<Rightarrow> False
           | Inr (tail, _) \<Rightarrow> length tail = 3 + 16 \<and> take 3 tail = str ''txn'')"

datatype key_error = MalformedRangeLocal enc_error | NotAddressable

definition Addr :: "key \<Rightarrow> key_error + key" where
  "Addr k =
     (if \<not> IsLocal k then Inr k
      else if prefix localAddressedPrefix k then
        (case DecodeBytes (drop (length localAddressedPrefix) k) of
           Inl e \<Rightarrow> Inl (MalformedRangeLocal e)
         | Inr (_, addr) \<Rightarrow> Inr addr)
      else Inl NotAddressable)"

definition RangeLocalAddressedSpan :: "key \<Rightarrow> key \<Rightarrow> key \<times> key" where
  "RangeLocalAddressedSpan start end' =
     (let s = EncodeBytes localAddressedPrefix start; s = take (length s - 2) s;
          e = EncodeBytes localAddressedPrefix end'; e = take (length e - 2) e
      in (s, e))"

section \<open>Meta keys\<close>

definition RangeMetaKey :: "key \<Rightarrow> key" where
  "RangeMetaKey endKey = MetaPrefix @ endKey"
definition MetaSpan :: "key \<times> key" where
  "MetaSpan = (MetaPrefix, PrefixEnd MetaPrefix)"

section \<open>System keys\<close>

definition systemKey :: "string list \<Rightarrow> key" where
  "systemKey parts = foldl (\<lambda>k p. EncodeString k (str p)) SystemPrefix parts"

abbreviation prefix_span :: "key \<Rightarrow> key \<times> key" where
  "prefix_span p \<equiv> (p, PrefixEnd p)"

definition ClusterVersionKey :: key where "ClusterVersionKey = systemKey [''cluster-version'']"

text \<open>A node ID is an int32, sign-extended by the conversion to uint64.\<close>

definition NodeRegistryKey :: "32 word \<Rightarrow> key" where
  "NodeRegistryKey nodeID = EncodeUint64 (systemKey [''nodes'']) (scast nodeID)"
definition NodeRegistrySpan :: "key \<times> key" where
  "NodeRegistrySpan = prefix_span (systemKey [''nodes''])"
definition AuthSecretKey :: key where "AuthSecretKey = systemKey [''auth-secret'']"
definition NodeIDGenKey :: key where "NodeIDGenKey = systemKey [''idgen'', ''node'']"
definition RangeIDGenKey :: key where "RangeIDGenKey = systemKey [''idgen'', ''range'']"
definition DescIDGenKey :: key where "DescIDGenKey = systemKey [''idgen'', ''desc'']"
definition UserKey :: "bytes \<Rightarrow> key" where
  "UserKey name = EncodeString (systemKey [''users'']) name"
definition AdminUserKey :: "bytes \<Rightarrow> key" where
  "AdminUserKey name = EncodeString (systemKey [''admins'']) name"
definition TableDescKey :: "64 word \<Rightarrow> key" where
  "TableDescKey tableID = EncodeUint64 (systemKey [''desc'']) tableID"
definition TableDescSpan :: "key \<times> key" where
  "TableDescSpan = prefix_span (systemKey [''desc''])"
definition TableStatsKey :: "64 word \<Rightarrow> key" where
  "TableStatsKey tableID = EncodeUint64 (systemKey [''stats'']) tableID"
definition TableStatsSpan :: "key \<times> key" where
  "TableStatsSpan = prefix_span (systemKey [''stats''])"

definition TableStatsID :: "key \<Rightarrow> 64 word \<times> bool" where
  "TableStatsID k =
     (let p = systemKey [''stats'']
      in if length k \<le> length p \<or> take (length p) k \<noteq> p then (0, False)
         else case DecodeUint64 (drop (length p) k) of Inl _ \<Rightarrow> (0, False) | Inr (_, i) \<Rightarrow> (i, True))"

definition NamespaceKey :: "bytes \<Rightarrow> key" where
  "NamespaceKey name = EncodeString (systemKey [''ns'']) name"
definition DatabaseDescKey :: "64 word \<Rightarrow> key" where
  "DatabaseDescKey dbID = EncodeUint64 (systemKey [''db'']) dbID"
definition DatabaseDescSpan :: "key \<times> key" where
  "DatabaseDescSpan = prefix_span (systemKey [''db''])"
definition DatabaseNamespaceKey :: "bytes \<Rightarrow> key" where
  "DatabaseNamespaceKey name = EncodeString (systemKey [''dbns'']) name"
definition DatabaseNamespaceSpan :: "key \<times> key" where
  "DatabaseNamespaceSpan = prefix_span (systemKey [''dbns''])"
definition TableNamespaceKey :: "64 word \<Rightarrow> bytes \<Rightarrow> key" where
  "TableNamespaceKey dbID name = EncodeString (EncodeUint64 (systemKey [''nsdb'']) dbID) name"
definition TableNamespaceSpan :: "64 word \<Rightarrow> key \<times> key" where
  "TableNamespaceSpan dbID = prefix_span (EncodeUint64 (systemKey [''nsdb'']) dbID)"
definition AllTableNamespaceSpan :: "key \<times> key" where
  "AllTableNamespaceSpan = prefix_span (systemKey [''nsdb''])"
definition SequenceDescKey :: "64 word \<Rightarrow> key" where
  "SequenceDescKey seqID = EncodeUint64 (systemKey [''seqdesc'']) seqID"
definition SequenceDescSpan :: "key \<times> key" where
  "SequenceDescSpan = prefix_span (systemKey [''seqdesc''])"
definition SequenceNamespaceKey :: "64 word \<Rightarrow> bytes \<Rightarrow> key" where
  "SequenceNamespaceKey dbID name = EncodeString (EncodeUint64 (systemKey [''seqns'']) dbID) name"
definition SequenceNamespaceSpan :: "64 word \<Rightarrow> key \<times> key" where
  "SequenceNamespaceSpan dbID = prefix_span (EncodeUint64 (systemKey [''seqns'']) dbID)"
definition AllSequenceNamespaceSpan :: "key \<times> key" where
  "AllSequenceNamespaceSpan = prefix_span (systemKey [''seqns''])"
definition TypeDescKey :: "64 word \<Rightarrow> key" where
  "TypeDescKey typeID = EncodeUint64 (systemKey [''typedesc'']) typeID"
definition TypeDescSpan :: "key \<times> key" where
  "TypeDescSpan = prefix_span (systemKey [''typedesc''])"
definition TypeNamespaceKey :: "64 word \<Rightarrow> bytes \<Rightarrow> key" where
  "TypeNamespaceKey dbID name = EncodeString (EncodeUint64 (systemKey [''typens'']) dbID) name"
definition TypeNamespaceSpan :: "64 word \<Rightarrow> key \<times> key" where
  "TypeNamespaceSpan dbID = prefix_span (EncodeUint64 (systemKey [''typens'']) dbID)"
definition AllTypeNamespaceSpan :: "key \<times> key" where
  "AllTypeNamespaceSpan = prefix_span (systemKey [''typens''])"
definition SequenceValueKey :: "64 word \<Rightarrow> key" where
  "SequenceValueKey seqID = EncodeUint64 (systemKey [''seq'']) seqID"
definition SequenceValueSpan :: "key \<times> key" where
  "SequenceValueSpan = prefix_span (systemKey [''seq''])"
definition DescLeaseKey :: "64 word \<Rightarrow> uuid \<Rightarrow> key" where
  "DescLeaseKey descID gateway = EncodeUint64 (systemKey [''lease'']) descID @ gateway"
definition DescLeaseSpan :: "64 word \<Rightarrow> key \<times> key" where
  "DescLeaseSpan descID = prefix_span (EncodeUint64 (systemKey [''lease'']) descID)"
definition NamespaceSpan :: "key \<times> key" where
  "NamespaceSpan = prefix_span (systemKey [''ns''])"
definition UserSpan :: "key \<times> key" where
  "UserSpan = prefix_span (systemKey [''users''])"
definition AdminUserSpan :: "key \<times> key" where
  "AdminUserSpan = prefix_span (systemKey [''admins''])"
definition RoleKey :: "bytes \<Rightarrow> key" where
  "RoleKey name = EncodeString (systemKey [''roles'']) name"
definition RoleSpan :: "key \<times> key" where
  "RoleSpan = prefix_span (systemKey [''roles''])"

section \<open>Table data keys\<close>

definition TableDataPrefix :: "64 word \<Rightarrow> key" where
  "TableDataPrefix tableID = EncodeUint64 TablePrefix tableID"
definition TableDataSpan :: "64 word \<Rightarrow> key \<times> key" where
  "TableDataSpan tableID = prefix_span (TableDataPrefix tableID)"
definition TableIndexPrefix :: "64 word \<Rightarrow> 64 word \<Rightarrow> key" where
  "TableIndexPrefix tableID indexID = EncodeUint64 (TableDataPrefix tableID) indexID"
definition TableIndexSpan :: "64 word \<Rightarrow> 64 word \<Rightarrow> key \<times> key" where
  "TableIndexSpan tableID indexID = prefix_span (TableIndexPrefix tableID indexID)"

text \<open>A key is in a half-open span.\<close>

definition in_span :: "key \<Rightarrow> key \<times> key \<Rightarrow> bool" where
  "in_span k s \<longleftrightarrow> fst s \<le> k \<and> k < snd s"

section \<open>Prefix spans\<close>

lemma byte_succ: "c \<noteq> (0xFF :: byte) \<Longrightarrow> c < c + 1" "c \<noteq> (0xFF :: byte) \<Longrightarrow> d < c + 1 \<longleftrightarrow> d \<le> c"
proof -
  assume "c \<noteq> (0xFF :: byte)"
  then have "unat c \<noteq> 255" by (auto simp: word_unat_eq_iff)
  moreover have "unat c < 256" using unsigned_less [of c, where 'a = nat] by simp
  ultimately have "unat (c + 1) = unat c + 1" by (simp add: unat_word_ariths)
  then show "c < c + 1" "d < c + 1 \<longleftrightarrow> d \<le> c" by (auto simp: word_less_nat_alt word_le_nat_alt)
qed

lemma byte_max: "(0xFF :: byte) \<le> c \<longleftrightarrow> c = 0xFF"
proof -
  have "unat c < 256" using unsigned_less [of c, where 'a = nat] by simp
  then show ?thesis by (auto simp: word_le_nat_alt word_unat_eq_iff)
qed

lemma byte_max_less: "\<not> (0xFF :: byte) < c"
  using byte_max [of c] by auto

lemma prefix_end_loop_ff:
  "c \<noteq> 0xFF \<Longrightarrow> m \<le> n \<Longrightarrow>
   prefix_end_loop (p @ c # replicate n 0xFF) (Suc (length p) + m) = p @ [c + 1]"
proof (induction m)
  case (Suc m)
  then have "(p @ c # replicate n 0xFF) ! (Suc (length p) + m) = 0xFF" by (simp add: nth_append)
  with Suc show ?case by simp
qed (simp add: nth_append)

lemma PrefixEnd_ff: "c \<noteq> 0xFF \<Longrightarrow> PrefixEnd (p @ c # replicate n 0xFF) = p @ [c + 1]"
  using prefix_end_loop_ff [of c n n p] by (simp add: PrefixEnd_def)

lemma split_last_non_ff:
  "\<exists>c \<in> set k. c \<noteq> 0xFF \<Longrightarrow> \<exists>p c n. k = p @ c # replicate n (0xFF :: byte) \<and> c \<noteq> 0xFF"
proof -
  assume "\<exists>c \<in> set k. c \<noteq> 0xFF"
  from split_list_last_prop [OF this] obtain p c s where
    k: "k = p @ c # s" and c: "c \<noteq> 0xFF" and s: "\<forall>d \<in> set s. \<not> d \<noteq> 0xFF" by blast
  from s have "s = replicate (length s) 0xFF" by (simp add: replicate_length_same)
  with k c show ?thesis by blast
qed

lemma sandwich_prefix:
  "p @ u \<le> x \<Longrightarrow> x < p @ v \<Longrightarrow> \<exists>y. x = p @ y \<and> (u :: 'a::linorder list) \<le> y \<and> y < v"
proof (induction p arbitrary: x)
  case (Cons a p)
  then show ?case by (cases x) auto
qed simp

lemma ff_le_prefix: "replicate n (0xFF :: byte) \<le> y \<Longrightarrow> prefix (replicate n 0xFF) y"
proof (induction n arbitrary: y)
  case (Suc n)
  then show ?case by (cases y) (auto simp: byte_max_less)
qed simp

lemma PrefixEnd_span:
  assumes "\<exists>c \<in> set k. c \<noteq> 0xFF"
  shows "in_span x (prefix_span k) \<longleftrightarrow> prefix k x"
proof -
  from split_last_non_ff [OF assms] obtain p c n where
    k: "k = p @ c # replicate n 0xFF" and c: "c \<noteq> 0xFF" by blast
  have pe: "PrefixEnd k = p @ [c + 1]" using PrefixEnd_ff [OF c] k by simp
  show ?thesis
  proof
    assume "in_span x (prefix_span k)"
    then have "p @ c # replicate n 0xFF \<le> x" "x < p @ [c + 1]" unfolding in_span_def pe by (simp_all add: k)
    from sandwich_prefix [OF this] obtain y where
      x: "x = p @ y" and y: "c # replicate n 0xFF \<le> y" "y < [c + 1]" by blast
    then obtain d z where yd: "y = d # z" by (cases y) (auto dest: leD)
    with y have "d = c" "replicate n 0xFF \<le> z" using byte_succ(2) [OF c, of d] by (auto dest: leD)
    with ff_le_prefix x yd k show "prefix k x" by auto
  next
    assume "prefix k x"
    then show "in_span x (prefix_span k)"
      using byte_succ(1) [OF c] prefix_imp_le [of k x] unfolding in_span_def pe
      by (auto simp: k prefix_def)
  qed
qed

lemma PrefixEnd_all_ff: "\<forall>c \<in> set k. c = 0xFF \<Longrightarrow> PrefixEnd k = MaxKey"
proof -
  assume ff: "\<forall>c \<in> set k. c = 0xFF"
  have "i \<le> length k \<Longrightarrow> prefix_end_loop k i = MaxKey" for i
    using ff by (induction i) auto
  then show ?thesis by (simp add: PrefixEnd_def)
qed

section \<open>Key families\<close>

lemma unat_of_char: "unat (of_char c :: byte) = of_char c"
proof -
  have "(of_char c :: byte) = of_nat (of_char c)" by (rule of_nat_of_char [symmetric])
  then have "unat (of_char c :: byte) = (of_char c :: nat) mod 256" by (simp only: unat_of_nat) simp
  then show ?thesis by simp
qed

lemma str_inj [simp]: "str s = str t \<longleftrightarrow> s = t"
proof -
  have "inj (of_char :: char \<Rightarrow> byte)"
    by (rule injI) (metis unat_of_char of_char_eq_iff)
  then show ?thesis by (simp add: str_def inj_map_eq_map)
qed

lemma span_prefix_iff: "c \<in> set k \<Longrightarrow> c \<noteq> 0xFF \<Longrightarrow> in_span x (prefix_span k) \<longleftrightarrow> (\<exists>r. x = k @ r)"
  using PrefixEnd_span [of k x] by (auto simp: prefix_def)

lemma systemKey_one: "systemKey [p] = SystemPrefix @ EncodeBytes [] (str p)"
  by (simp add: systemKey_def EncodeString_def EncodeBytes_esc)

lemma systemKey_family:
  "in_span (systemKey [p] @ r) (prefix_span (systemKey [q])) \<longleftrightarrow> p = q"
proof -
  have "in_span x (prefix_span (systemKey [q])) \<longleftrightarrow> (\<exists>r. x = systemKey [q] @ r)" for x
    by (rule span_prefix_iff [of systemPrefixByte]) (simp_all add: systemKey_one SystemPrefix_def)
  then show ?thesis by (auto simp: systemKey_one byt.prefix_free)
qed

lemma TableIndexPrefix_app:
  "TableIndexPrefix t i @ r = TablePrefix @ EncodeUint64 [] t @ EncodeUint64 [] i @ r"
  by (simp add: TableIndexPrefix_def TableDataPrefix_def EncodeUint64_def)

lemma TableIndexPrefix_less:
  "TableIndexPrefix t i @ r < TableIndexPrefix t' i' @ r' \<longleftrightarrow>
   t < t' \<or> t = t' \<and> (i < i' \<or> i = i' \<and> r < r')"
  by (simp only: TableIndexPrefix_app append_less_append_same u64.less_iff)

lemma TableIndexSpan_iff: "in_span x (TableIndexSpan t i) \<longleftrightarrow> (\<exists>r. x = TableIndexPrefix t i @ r)"
  unfolding TableIndexSpan_def
  by (rule span_prefix_iff [of tablePrefixByte])
    (simp_all add: TableIndexPrefix_app [of _ _ "[]", simplified] TablePrefix_def)

lemma systemKey_id_family:
  "in_span (systemKey [p] @ EncodeUint64 [] i @ r) (prefix_span (systemKey [p] @ EncodeUint64 [] i')) \<longleftrightarrow>
   i = i'"
proof -
  have "in_span x (prefix_span (systemKey [p] @ EncodeUint64 [] i')) \<longleftrightarrow>
      (\<exists>r. x = (systemKey [p] @ EncodeUint64 [] i') @ r)" for x
    by (rule span_prefix_iff [of systemPrefixByte]) (simp_all add: systemKey_one SystemPrefix_def)
  then show ?thesis by (auto simp: u64.prefix_free)
qed

lemma TableNamespace_span:
  "in_span (TableNamespaceKey db n) (TableNamespaceSpan db') \<longleftrightarrow> db = db'"
  using systemKey_id_family [of "''nsdb''" db "EncodeBytes [] n" db']
  unfolding TableNamespaceKey_def TableNamespaceSpan_def EncodeString_def
    byt.enc_append [of "_ @ _"] u64.enc_append [of "systemKey _"]
  by simp

section \<open>Transaction records\<close>

lemma localAddressed_simps [simp]: "length localAddressedPrefix = 2" "localAddressedPrefix \<noteq> []"
  "IsLocal (localAddressedPrefix @ r)"
  by (simp_all add: localAddressedPrefix_def str_def IsLocal_def)

lemma TransactionKey_app:
  "TransactionKey a i = localAddressedPrefix @ EncodeBytes [] a @ str ''txn'' @ i"
  by (simp add: TransactionKey_def byt.enc_append [of localAddressedPrefix])

lemma Addr_TransactionKey: "Addr (TransactionKey a i) = Inr a"
  by (simp add: Addr_def TransactionKey_app byt.roundtrip)

lemma IsTransactionKey_iff:
  "IsTransactionKey k \<longleftrightarrow> (\<exists>a i. length i = 16 \<and> k = TransactionKey a i)"
proof
  assume "IsTransactionKey k"
  then obtain t a where k: "prefix localAddressedPrefix k"
    "DecodeBytes (drop 2 k) = Inr (t, a)" "length t = 19" "take 3 t = str ''txn''"
    by (auto simp: IsTransactionKey_def split: if_splits sum.splits)
  from k(1) obtain s where s: "k = localAddressedPrefix @ s" by (auto simp: prefix_def)
  with k(2) have "s = EncodeBytes [] a @ t" using DecodeBytes_sound by simp
  moreover have "t = str ''txn'' @ drop 3 t" using append_take_drop_id [of 3 t] k(4) by simp
  ultimately have "k = TransactionKey a (drop 3 t)" using s by (simp add: TransactionKey_app)
  moreover have "length (drop 3 t) = 16" using k(3) by simp
  ultimately show "\<exists>a i. length i = 16 \<and> k = TransactionKey a i" by blast
next
  assume "\<exists>a i. length i = 16 \<and> k = TransactionKey a i"
  then show "IsTransactionKey k"
    by (auto simp: IsTransactionKey_def TransactionKey_app byt.roundtrip str_def)
qed

text \<open>An encoding compared with an encoding without its terminator.\<close>

lemma esc_le_trim: "esc s \<le> esc a @ escape # terminator # r \<longleftrightarrow> s \<le> a"
proof (induction s arbitrary: a)
  case Nil
  then show ?case by simp
next
  case (Cons c cs)
  show ?case
  proof (cases a)
    case Nil
    then show ?thesis by (auto simp: word_less_nat_alt unat_gt_0 dest: leD)
  next
    case (Cons d ds)
    then show ?thesis
      using Cons.IH by (auto simp: word_less_nat_alt unat_gt_0)
  qed
qed

lemma RangeLocalAddressedSpan_esc:
  "RangeLocalAddressedSpan s e = (localAddressedPrefix @ esc s, localAddressedPrefix @ esc e)"
  by (simp add: RangeLocalAddressedSpan_def EncodeBytes_esc Let_def)

lemma TransactionKey_span:
  "in_span (TransactionKey a i) (RangeLocalAddressedSpan s e) \<longleftrightarrow> s \<le> a \<and> a < e"
  using esc_le_trim [of s a] esc_le_trim [of e a]
  by (auto simp: in_span_def RangeLocalAddressedSpan_esc TransactionKey_app EncodeBytes_esc not_le
      simp flip: not_le)

section \<open>Range lookup and raft state\<close>

lemma Key_Next_le: "Key_Next k \<le> e \<longleftrightarrow> k < e"
proof (induction k arbitrary: e)
  case Nil
  show ?case by (cases e) (auto simp: Key_Next_def word_less_nat_alt unat_gt_0)
next
  case (Cons a k)
  then show ?case by (cases e) (auto simp: Key_Next_def)
qed

lemma RangeMetaKey_lookup: "RangeMetaKey (Key_Next k) \<le> RangeMetaKey e \<longleftrightarrow> k < e"
  by (simp add: RangeMetaKey_def Key_Next_le)

lemma makeRangeLocalKey_app:
  "makeRangeLocalKey r s = localUnreplicatedPrefix @ str ''r'' @ EncodeUint64 [] r @ str s"
  by (simp add: makeRangeLocalKey_def EncodeUint64_def)

lemma be_bytes_8_word: "length b = 8 \<Longrightarrow> EncodeUint64 [] (of_nat (be_val b)) = b"
  using be_val_less [of b] be_bytes_be_val [of b]
  by (simp add: EncodeUint64_def unat_of_nat)

lemma IsRaftEngineKey_iff:
  assumes "prefix localUnreplicatedPrefix k"
  shows "IsRaftEngineKey k \<longleftrightarrow>
    (\<exists>r. k = RaftHardStateKey r \<or> k = RaftTruncatedStateKey r \<or> (\<exists>i. k = RaftLogKey r i))"
proof
  assume raft: "IsRaftEngineKey k"
  from assms obtain s where s: "k = localUnreplicatedPrefix @ s" by (auto simp: prefix_def)
  with raft have len: "9 \<le> length s" "s ! 0 = of_char CHR ''r''"
    by (auto simp: IsRaftEngineKey_def nth_append Let_def localUnreplicatedPrefix_def str_def
        split: if_splits)
  define sfx where "sfx = drop 9 s"
  define r :: "64 word" where "r = of_nat (be_val (take 8 (tl s)))"
  have "EncodeUint64 [] r = take 8 (tl s)" unfolding r_def by (rule be_bytes_8_word) (use len in simp)
  moreover have "s = str ''r'' @ take 8 (tl s) @ sfx"
    using len by (cases s) (auto simp: sfx_def str_def)
  ultimately have "s = str ''r'' @ EncodeUint64 [] r @ sfx" by simp
  then have k: "k = localUnreplicatedPrefix @ str ''r'' @ EncodeUint64 [] r @ sfx" using s by simp
  consider "sfx = str ''hs''" | "sfx = str ''ts''" | "length sfx = 11" "take 3 sfx = str ''log''"
    using raft s by (auto simp: IsRaftEngineKey_def sfx_def Let_def localUnreplicatedPrefix_def str_def
        split: if_splits)
  then show "\<exists>r. k = RaftHardStateKey r \<or> k = RaftTruncatedStateKey r \<or> (\<exists>i. k = RaftLogKey r i)"
  proof cases
    case 3
    have "EncodeUint64 [] (of_nat (be_val (drop 3 sfx))) = drop 3 sfx"
      by (rule be_bytes_8_word) (use 3 in simp)
    then have "sfx = str ''log'' @ EncodeUint64 [] (of_nat (be_val (drop 3 sfx)))"
      using append_take_drop_id [of 3 sfx] 3 by simp
    then have "k = RaftLogKey r (of_nat (be_val (drop 3 sfx)))"
      using k by (simp add: RaftLogKey_def makeRangeLocalKey_app u64.enc_append [of "_ @ _"])
    then show ?thesis by blast
  qed (auto simp: k RaftHardStateKey_def RaftTruncatedStateKey_def makeRangeLocalKey_app)
next
  assume "\<exists>r. k = RaftHardStateKey r \<or> k = RaftTruncatedStateKey r \<or> (\<exists>i. k = RaftLogKey r i)"
  then show "IsRaftEngineKey k"
    by (auto simp: IsRaftEngineKey_def RaftHardStateKey_def RaftTruncatedStateKey_def RaftLogKey_def
        makeRangeLocalKey_app localUnreplicatedPrefix_def str_def EncodeUint64_def nth_append Let_def)
qed

lemma RaftLogKey_less: "RaftLogKey r i < RaftLogKey r j \<longleftrightarrow> i < j"
  by (simp add: RaftLogKey_def u64.less_iff_nil)

lemma TableStatsID_roundtrip: "TableStatsID (TableStatsKey t) = (t, True)"
  using u64.dec_enc [of t]
  by (simp add: TableStatsID_def TableStatsKey_def u64.enc_append [of "systemKey _"] Let_def)
    (simp add: EncodeUint64_def)

section \<open>The contracts\<close>

text \<open>
  C16: the span from a key to its \<^verbatim>\<open>PrefixEnd\<close> holds exactly the keys with that prefix, for
  every key with a byte below 0xff; for a key of 0xff bytes only, the span ends at \<^verbatim>\<open>MaxKey\<close>
  and is empty unless the key is.
\<close>

theorem prefix_span_exact:
  "in_span x (k, PrefixEnd k) \<longleftrightarrow>
     (if list_all (\<lambda>c. c = 0xFF) k then k = [] \<and> x < MaxKey else prefix k x)"
proof (cases "list_all (\<lambda>c. c = 0xFF) k")
  case True
  then have "PrefixEnd k = MaxKey" using PrefixEnd_all_ff [of k] by (simp add: list_all_iff)
  moreover have "k = [] \<or> MaxKey \<le> k" using True by (cases k) (auto simp: MaxKey_def)
  ultimately show ?thesis using True by (auto simp: in_span_def)
next
  case False
  then show ?thesis using PrefixEnd_span [of k x] by (auto simp: list_all_iff)
qed

text \<open>
  C17: table data sorts by table, then index, then row key; an index's span holds exactly the
  keys under its prefix; the system-key families are pairwise disjoint and each span covers
  its own family only; a database's namespace span covers that database's names only.
\<close>

theorem key_families_disjoint:
  "(TableIndexPrefix t i @ r < TableIndexPrefix t' i' @ r' \<longleftrightarrow>
      t < t' \<or> t = t' \<and> (i < i' \<or> i = i' \<and> r < r')) \<and>
   (in_span x (TableIndexSpan t i) \<longleftrightarrow> (\<exists>row. x = TableIndexPrefix t i @ row)) \<and>
   (in_span (systemKey [p] @ r) (systemKey [q], PrefixEnd (systemKey [q])) \<longleftrightarrow> p = q) \<and>
   (in_span (TableNamespaceKey db n) (TableNamespaceSpan db') \<longleftrightarrow> db = db') \<and>
   TableStatsID (TableStatsKey t) = (t, True)"
  by (simp add: TableIndexPrefix_less TableIndexSpan_iff systemKey_family TableNamespace_span
      TableStatsID_roundtrip)

text \<open>
  C18: a transaction record is addressed by its anchor key, is recognised by its shape and by
  nothing else, and lies in the range-local span of a range exactly when the range's bounds
  cover the anchor, so that snapshots and splits carry every record with its anchor.
\<close>

theorem transaction_key_addressing:
  "Addr (TransactionKey a i) = Inr a \<and>
   (IsTransactionKey k \<longleftrightarrow> (\<exists>a i. length i = 16 \<and> k = TransactionKey a i)) \<and>
   (in_span (TransactionKey a i) (RangeLocalAddressedSpan s e) \<longleftrightarrow> s \<le> a \<and> a < e)"
  by (simp add: Addr_TransactionKey IsTransactionKey_iff TransactionKey_span)

text \<open>
  C19: among the store-local keys the raft engine's are exactly the hard states, truncated
  states and log entries, and a range's log entries sort by index.
\<close>

theorem raft_engine_keys:
  assumes "prefix localUnreplicatedPrefix k"
  shows "(IsRaftEngineKey k \<longleftrightarrow>
      (\<exists>r. k = RaftHardStateKey r \<or> k = RaftTruncatedStateKey r \<or> (\<exists>i. k = RaftLogKey r i))) \<and>
    (RaftLogKey rid i < RaftLogKey rid j \<longleftrightarrow> i < j)"
  by (simp add: IsRaftEngineKey_iff [OF assms] RaftLogKey_less)

theorem raft_engine_keys_witness:
  "prefix localUnreplicatedPrefix (RaftAppliedStateKey 7) \<and>
   (IsRaftEngineKey (RaftAppliedStateKey 7) \<longleftrightarrow>
      (\<exists>r. RaftAppliedStateKey 7 = RaftHardStateKey r \<or> RaftAppliedStateKey 7 = RaftTruncatedStateKey r \<or>
           (\<exists>i. RaftAppliedStateKey 7 = RaftLogKey r i))) \<and>
   (RaftLogKey 7 2 < RaftLogKey 7 10 \<longleftrightarrow> (2 :: 64 word) < 10)"
proof -
  have p: "prefix localUnreplicatedPrefix (RaftAppliedStateKey 7)"
    by (simp add: RaftAppliedStateKey_def makeRangeLocalKey_app)
  then show ?thesis using raft_engine_keys [OF p, of 7 2 10] by blast
qed

end
