(* ===== verification/MVCC_Key.thy ===== *)
theory MVCC_Key
  imports Hlc Keys
begin

text \<open>
  The engine-key and value encodings of the MVCC layer
  (\<^verbatim>\<open>src/pkg/storage/mvcc_key.go\<close>) and the prefix split and successor functions of the
  engine's comparer (\<^verbatim>\<open>src/pkg/storage/comparer.go\<close>). A user key's metadata key is its
  escaped encoding; a version key appends the bit-inverted timestamp, so that the metadata
  key comes first and the versions follow newest first. The byte-wise separator and
  successor of Pebble's default comparer are parameters.
\<close>

section \<open>Engine keys\<close>

abbreviation versionSuffixLen :: nat where "versionSuffixLen \<equiv> 12"

definition version_suffix :: "timestamp \<Rightarrow> bytes" where
  "version_suffix ts = be_bytes 8 (unat (NOT (WallTime ts))) @ be_bytes 4 (unat (NOT (Logical ts)))"

definition appendVersionSuffix :: "bytes \<Rightarrow> timestamp \<Rightarrow> bytes" where
  "appendVersionSuffix b ts = b @ version_suffix ts"

definition EncodeMVCCKey :: "key \<Rightarrow> timestamp \<Rightarrow> bytes" where
  "EncodeMVCCKey k ts =
     (let b = EncodeBytes [] k in if IsEmpty ts then b else appendVersionSuffix b ts)"

definition mvccKeyBounds :: "key \<Rightarrow> bytes \<times> bytes" where
  "mvccKeyBounds k =
     (let n = EncodedBytesLen k; lower = EncodeBytes [] k; upper = take n lower
      in (lower, upper[n - 1 := upper ! (n - 1) + 1]))"

text \<open>The timestamp of a 12-byte version suffix.\<close>

definition suffix_ts :: "bytes \<Rightarrow> timestamp" where
  "suffix_ts rest = Timestamp (NOT (of_nat (be_val (take 8 rest))))
                              (NOT (of_nat (be_val (take 4 (drop 8 rest)))))"

datatype mvcc_key_error = BadKey enc_error | BadSuffix nat

definition DecodeMVCCKey :: "bytes \<Rightarrow> mvcc_key_error + key \<times> timestamp" where
  "DecodeMVCCKey enc =
     (case DecodeBytes enc of Inl e \<Rightarrow> Inl (BadKey e)
      | Inr (rest, user) \<Rightarrow>
          if length rest = 0 then Inr (user, zero_ts)
          else if length rest = versionSuffixLen then Inr (user, suffix_ts rest)
          else Inl (BadSuffix (length rest)))"

section \<open>Values\<close>

abbreviation (input) valueHeaderTombstone :: byte where "valueHeaderTombstone \<equiv> 0x00"
abbreviation (input) valueHeaderData :: byte where "valueHeaderData \<equiv> 0x01"

definition encodeMVCCValue :: "nbytes \<Rightarrow> bool \<Rightarrow> bytes" where
  "encodeMVCCValue data tombstone =
     (if tombstone then [valueHeaderTombstone]
      else valueHeaderData # (case data of None \<Rightarrow> [] | Some d \<Rightarrow> d))"

datatype mvcc_value_error = EmptyValue | BadHeader byte

text \<open>The data and the tombstone flag; the data of a tombstone is nil.\<close>

definition decodeMVCCValue :: "bytes \<Rightarrow> mvcc_value_error + nbytes \<times> bool" where
  "decodeMVCCValue raw =
     (case raw of [] \<Rightarrow> Inl EmptyValue
      | h # d \<Rightarrow> if h = valueHeaderTombstone then Inr (None, True)
                 else if h = valueHeaderData then Inr (Some d, False)
                 else Inl (BadHeader h))"

definition IsTombstoneValue :: "bytes \<Rightarrow> mvcc_value_error + bool" where
  "IsTombstoneValue raw = (case decodeMVCCValue raw of Inl e \<Rightarrow> Inl e | Inr (_, tomb) \<Rightarrow> Inr tomb)"

section \<open>The comparer\<close>

text \<open>\<^verbatim>\<open>bytes.Index(k, {0, 1})\<close>: the first index of the terminator, counted from \<open>i\<close>.\<close>

fun index_term :: "nat \<Rightarrow> bytes \<Rightarrow> nat option" where
  "index_term i (a # b # r) = (if a = 0 \<and> b = 1 then Some i else index_term (i + 1) (b # r))"
| "index_term i _ = None"

definition mvccSplit :: "bytes \<Rightarrow> nat" where
  "mvccSplit k =
     (if length k = 0 \<or> k ! 0 = localPrefixByte then length k
      else case index_term 0 k of Some i \<Rightarrow> i + 2 | None \<Rightarrow> length k)"

definition split_prefix :: "bytes \<Rightarrow> bytes" where
  "split_prefix k = take (mvccSplit k) k"

text \<open>\<open>sep\<close> and \<open>succ\<close> stand for \<^verbatim>\<open>pebble.DefaultComparer\<close>'s functions with an empty buffer.\<close>

definition mvccSeparator :: "(bytes \<Rightarrow> bytes \<Rightarrow> bytes) \<Rightarrow> bytes \<Rightarrow> bytes \<Rightarrow> bytes \<Rightarrow> bytes" where
  "mvccSeparator sep dst a b =
     (let pa = split_prefix a; pb = split_prefix b
      in if pa = pb then dst @ a
         else let s = sep pa pb in if s = pa then dst @ a else dst @ s)"

definition mvccSuccessor :: "(bytes \<Rightarrow> bytes) \<Rightarrow> bytes \<Rightarrow> bytes \<Rightarrow> bytes" where
  "mvccSuccessor succ dst a =
     (let pa = split_prefix a; s = succ pa in if s = pa then dst @ a else dst @ s)"

definition mvccImmediateSuccessor :: "bytes \<Rightarrow> bytes \<Rightarrow> bytes" where
  "mvccImmediateSuccessor dst a =
     (let n = length a
      in if n \<ge> 2 \<and> a ! (n - 2) = 0 \<and> a ! (n - 1) = 1
         then (let d = dst @ a in d[length d - 1 := 1 + 1])
         else dst @ a @ [0])"

text \<open>Timestamps as the clocks produce them: both parts non-negative.\<close>

definition ts_ok :: "timestamp \<Rightarrow> bool" where
  "ts_ok t \<longleftrightarrow> 0 \<le> sint (WallTime t) \<and> 0 \<le> sint (Logical t)"

text \<open>Engine keys outside the local keyspace, where the split looks for a terminator.\<close>

definition nonlocal :: "bytes \<Rightarrow> bool" where
  "nonlocal k \<longleftrightarrow> k \<noteq> [] \<and> k ! 0 \<noteq> localPrefixByte"

section \<open>Version suffixes sort newest first\<close>

lemma unat_not_32: "unat (NOT v :: 32 word) = 2 ^ 32 - 1 - unat v"
proof -
  have "NOT v = -1 - v" by (simp add: not_eq_complement)
  moreover have "unat (-1 - v) = unat (-1 :: 32 word) - unat v" by (rule unat_sub) simp
  ultimately show ?thesis by (simp add: unsigned_minus_1_eq_mask mask_eq_exp_minus_1)
qed

lemma unat_32: "unat (v :: 32 word) < 256 ^ 4"
  using unsigned_less [of v, where 'a = nat] by simp

lemma not_word_less [simp]: "NOT (v :: 'a::len word) < NOT w \<longleftrightarrow> w < v"
proof -
  have "NOT v = -1 - v" "NOT w = -1 - w" by (simp_all add: not_eq_complement)
  moreover have "unat (-1 - v) = unat (-1 :: 'a word) - unat v" "unat (-1 - w) = unat (-1 :: 'a word) - unat w"
    by (auto intro!: unat_sub)
  moreover have "unat v \<le> unat (-1 :: 'a word)" "unat w \<le> unat (-1 :: 'a word)"
    by (simp_all flip: word_le_nat_alt)
  ultimately show ?thesis by (auto simp: word_less_nat_alt)
qed

lemma sint_nonneg_uint:
  assumes "0 \<le> sint (v :: 'a::len word)"
  shows "sint v = uint v"
proof -
  have "(2 :: int) ^ (LENGTH('a) - 1) \<le> 2 ^ LENGTH('a)" by (rule power_increasing) simp_all
  from less_le_trans [OF sint_lt this] have "sint v < 2 ^ LENGTH('a)" .
  then have "take_bit LENGTH('a) (sint v) = sint v" using assms by (simp add: take_bit_int_eq_self)
  then show ?thesis by (simp only: uint_sint)
qed

lemma length_version_suffix [simp]: "length (version_suffix t) = 12"
  by (simp add: version_suffix_def)

lemma version_suffix_Nil [simp]: "version_suffix t \<noteq> []" "[] \<noteq> version_suffix t"
  using length_version_suffix [of t] by force+

lemma version_suffix_less:
  assumes "ts_ok t" "ts_ok u"
  shows "version_suffix t < version_suffix u \<longleftrightarrow> u < t"
proof -
  have 4: "be_bytes 4 (unat v) < be_bytes 4 (unat w) \<longleftrightarrow> v < w" for v w :: "32 word"
    by (simp add: be_bytes_less_iff [OF unat_32 unat_32] word_less_nat_alt)
  have eq: "WallTime t = WallTime u \<longleftrightarrow> uint (WallTime t) = uint (WallTime u)"
    by (simp add: word_uint_eq_iff)
  show ?thesis
    unfolding version_suffix_def be_bytes_word_less 4 not_word_less ts_less_sint
    using assms eq by (auto simp: ts_ok_def sint_nonneg_uint word_less_def)
qed

lemma suffix_ts_version_suffix [simp]: "suffix_ts (version_suffix t) = t"
  using unat_64 [of "NOT (WallTime t)"] unat_32 [of "NOT (Logical t)"]
  by (cases t) (simp add: suffix_ts_def version_suffix_def)

lemma version_suffix_inj [simp]: "version_suffix t = version_suffix u \<longleftrightarrow> t = u"
  by (metis suffix_ts_version_suffix)

lemma version_suffix_le: "ts_ok t \<Longrightarrow> ts_ok u \<Longrightarrow> version_suffix t \<le> version_suffix u \<longleftrightarrow> u \<le> t"
  using version_suffix_less [of u t] by (auto simp: not_less [symmetric])

lemma version_suffix_suffix_ts: "length r = 12 \<Longrightarrow> version_suffix (suffix_ts r) = r"
proof -
  assume len: "length r = 12"
  have "be_val (take 8 r) < 256 ^ 8" "be_val (take 4 (drop 8 r)) < 256 ^ 4"
    using be_val_less [of "take 8 r"] be_val_less [of "take 4 (drop 8 r)"] len by simp_all
  moreover have "be_bytes 8 (be_val (take 8 r)) = take 8 r"
    "be_bytes 4 (be_val (take 4 (drop 8 r))) = take 4 (drop 8 r)"
    using be_bytes_be_val [of "take 8 r"] be_bytes_be_val [of "take 4 (drop 8 r)"] len by simp_all
  moreover have "take 8 r @ take 4 (drop 8 r) = r" using len by (simp flip: take_add)
  ultimately show ?thesis by (simp add: version_suffix_def suffix_ts_def unat_of_nat)
qed

section \<open>Engine keys of a user key\<close>

abbreviation meta_key :: "key \<Rightarrow> bytes" where "meta_key k \<equiv> EncodeBytes [] k"
abbreviation ver_key :: "key \<Rightarrow> timestamp \<Rightarrow> bytes" where
  "ver_key k t \<equiv> EncodeBytes [] k @ version_suffix t"

lemma EncodeMVCCKey_simps:
  "EncodeMVCCKey k zero_ts = meta_key k"
  "t \<noteq> zero_ts \<Longrightarrow> EncodeMVCCKey k t = ver_key k t"
  by (simp_all add: EncodeMVCCKey_def appendVersionSuffix_def Let_def)

lemma DecodeMVCCKey_simps [simp]:
  "DecodeMVCCKey (meta_key k) = Inr (k, zero_ts)"
  "DecodeMVCCKey (ver_key k t) = Inr (k, t)"
  using byt.dec_enc [of k] by (simp_all add: DecodeMVCCKey_def byt.roundtrip)

lemma DecodeMVCCKey_inv:
  "DecodeMVCCKey e = Inr (k, t) \<Longrightarrow> (e = meta_key k \<and> t = zero_ts) \<or> e = ver_key k t"
  by (auto simp: DecodeMVCCKey_def version_suffix_suffix_ts dest!: DecodeBytes_sound
      split: sum.splits if_splits)

lemma mvccKeyBounds_eq: "mvccKeyBounds k = (meta_key k, esc k @ [0, 2])"
  by (simp add: mvccKeyBounds_def EncodedBytesLen_def EncodeBytes_esc length_esc [symmetric] Let_def
      nth_append list_update_append)

lemma mvccKeyBounds_span: "in_span x (mvccKeyBounds k) \<longleftrightarrow> (\<exists>r. x = meta_key k @ r)"
proof
  assume "in_span x (mvccKeyBounds k)"
  then have "(esc k @ [0]) @ [1] \<le> x" "x < (esc k @ [0]) @ [2]"
    by (auto simp: in_span_def mvccKeyBounds_eq EncodeBytes_esc)
  from sandwich_prefix [OF this] obtain y where
    x: "x = (esc k @ [0]) @ y" and y: "[1] \<le> y" "y < [2]" by blast
  then obtain d z where d: "y = d # z" by (cases y) auto
  with y have "d = 1" using byte_succ(2) [of 1 d] by auto
  with x d show "\<exists>r. x = meta_key k @ r" by (auto simp: EncodeBytes_esc)
next
  assume "\<exists>r. x = meta_key k @ r"
  then show "in_span x (mvccKeyBounds k)"
    by (auto simp: in_span_def mvccKeyBounds_eq EncodeBytes_esc)
qed

section \<open>The split function\<close>

lemma index_term_esc: "index_term i (esc k @ 0 # 1 # r) = Some (i + length (esc k))"
proof (induction k arbitrary: i)
  case (Cons c k)
  show ?case
  proof (cases "c = 0")
    case True
    have "index_term (i + 1) (0xFF # esc k @ 0 # 1 # r) = index_term (i + 2) (esc k @ 0 # 1 # r)"
      by (cases "esc k") simp_all
    then show ?thesis using True Cons.IH [of "i + 2"] by simp
  next
    case False
    then show ?thesis using Cons.IH [of "i + 1"] by (cases "esc k") simp_all
  qed
qed simp

lemma esc_hd: "esc k \<noteq> [] \<longleftrightarrow> k \<noteq> []" "k \<noteq> [] \<Longrightarrow> hd (esc k) = hd k"
  by (cases k; simp)+

lemma split_prefix_meta:
  assumes "\<not> Keys.IsLocal k"
  shows "split_prefix (meta_key k @ r) = meta_key k"
proof -
  have "(esc k @ 0 # 1 # r) ! 0 \<noteq> 1"
    using assms esc_hd [of k] by (cases k) (auto simp: IsLocal_def nth_append hd_conv_nth)
  then have "mvccSplit (esc k @ 0 # 1 # r) = length (esc k) + 2"
    using index_term_esc [of 0 k r] by (simp add: mvccSplit_def)
  then show ?thesis by (simp add: split_prefix_def EncodeBytes_esc)
qed

lemma index_term_append: "index_term i p = Some j \<Longrightarrow> index_term i (p @ r) = Some j"
  by (induction i p rule: index_term.induct) (auto split: if_splits)

lemma index_term_take: "index_term i k = Some j \<Longrightarrow>
  i \<le> j \<and> index_term i (take (j - i + 2) k) = Some j \<and> (\<exists>p r. k = p @ 0 # 1 # r \<and> j = i + length p)"
proof (induction i k rule: index_term.induct)
  case (1 i a b r)
  show ?case
  proof (cases "a = 0 \<and> b = 1")
    case True
    then show ?thesis using 1(2) by (auto intro: exI [of _ "[]"])
  next
    case False
    with 1 have IH: "i + 1 \<le> j" "index_term (i + 1) (take (j - (i + 1) + 2) (b # r)) = Some j"
      and "\<exists>p s. b # r = p @ 0 # 1 # s \<and> j = i + 1 + length p" by auto
    then obtain p s where p: "b # r = p @ 0 # 1 # s" "j = i + 1 + length p" by blast
    have t: "take (j - i + 2) (a # b # r) = a # take (j - (i + 1) + 2) (b # r)"
    proof -
      have "j - i + 2 = Suc (j - (i + 1) + 2)" using IH(1) by simp
      then show ?thesis by (simp only: take_Suc_Cons)
    qed
    have "index_term i (a # take (j - (i + 1) + 2) (b # r)) = Some j"
      using IH(2) False by (cases "take (j - (i + 1) + 2) (b # r)") auto
    moreover have "\<exists>p s. a # b # r = p @ 0 # 1 # s \<and> j = i + length p"
      using p by (intro exI [of _ "a # p"] exI [of _ s]) auto
    ultimately show ?thesis using IH(1) t by auto
  qed
qed auto

lemma split_prefix_cases:
  obtains "split_prefix k = k" "\<not> (nonlocal k \<and> index_term 0 k \<noteq> None)"
  | p r where "nonlocal k" "k = p @ 0 # 1 # r" "split_prefix k = p @ [0, 1]" "index_term 0 (p @ [0, 1]) = Some (length p)"
proof (cases "nonlocal k \<and> index_term 0 k \<noteq> None")
  case True
  then obtain j where j: "index_term 0 k = Some j" by blast
  from index_term_take [OF j] obtain p r where
    "k = p @ 0 # 1 # r" "j = length p" "index_term 0 (take (j + 2) k) = Some j" by auto
  with True j that(2) show thesis by (auto simp: split_prefix_def mvccSplit_def nonlocal_def)
next
  case False
  then have "split_prefix k = k"
    by (auto simp: split_prefix_def mvccSplit_def nonlocal_def split: option.splits)
  with False that(1) show thesis by blast
qed

lemma prefix_split_prefix: "prefix (split_prefix k) k"
  by (auto simp: split_prefix_def intro: take_is_prefix)

lemma less_prefixes:
  "(a :: 'a::linorder list) < b \<Longrightarrow> prefix pa a \<Longrightarrow> prefix pb b \<Longrightarrow> pa \<le> pb \<or> strict_prefix pb pa"
proof (induction pa arbitrary: a b pb)
  case (Cons x pa)
  then obtain a' where a: "a = x # a'" "prefix pa a'" by (cases a) auto
  show ?case
  proof (cases pb)
    case (Cons y pb')
    with Cons.prems obtain b' where b: "b = y # b'" "prefix pb' b'" by (cases b) auto
    with Cons a Cons.prems Cons.IH [of a' b' pb'] show ?thesis by auto
  qed (simp add: strict_prefix_def)
qed simp

lemma split_prefix_mono:
  assumes "a < b" shows "split_prefix a \<le> split_prefix b"
proof (rule ccontr)
  assume "\<not> split_prefix a \<le> split_prefix b"
  then have strict: "strict_prefix (split_prefix b) (split_prefix a)"
    using less_prefixes [OF assms prefix_split_prefix prefix_split_prefix] by blast
  then have pre: "prefix (split_prefix b) a" using prefix_split_prefix [of a]
    by (meson prefix_order.trans strict_prefix_def)
  show False
  proof (cases rule: split_prefix_cases [of b])
    case 1
    with pre have "b \<le> a" by (simp add: prefix_imp_le)
    with assms show False by simp
  next
    case (2 p r)
    from pre obtain s where a: "a = (p @ [0, 1]) @ s" by (auto simp: 2(3) prefix_def)
    have "index_term 0 a = Some (length p)" using index_term_append [OF 2(4)] a by blast
    moreover have "nonlocal a" using 2(1,2) a by (cases p) (auto simp: nonlocal_def)
    ultimately have "split_prefix a = p @ [0, 1]"
      using a by (simp add: split_prefix_def mvccSplit_def nonlocal_def)
    with strict 2 show False by simp
  qed
qed

lemma index_term_contains: "index_term i (p @ 0 # 1 # r) \<noteq> None"
proof (induction p arbitrary: i)
  case (Cons a p)
  then show ?case by (cases p) auto
qed simp

lemma split_prefix_self:
  assumes "split_prefix a = a" "nonlocal a" "index_term 0 a = Some j"
  shows "length a = j + 2"
proof (cases rule: split_prefix_cases [of a])
  case 1
  with assms show ?thesis by simp
next
  case (2 p r)
  with assms show ?thesis using index_term_append [OF 2(4), of r] by simp
qed

lemma split_prefix_eqI: "(\<And>p r. nonlocal k \<Longrightarrow> k = p @ 0 # 1 # r \<Longrightarrow> index_term 0 (p @ [0, 1]) = Some (length p) \<Longrightarrow> r = []) \<Longrightarrow> split_prefix k = k"
  by (cases rule: split_prefix_cases [of k]) auto

lemma immediate_successor_terminated:
  assumes self: "split_prefix (q @ [0, 1]) = q @ [0, 1]" and nl: "nonlocal (q @ [0, 1])"
  shows "split_prefix (q @ [0, 2]) = q @ [0, 2]"
    and "q @ [0, 1] < x \<Longrightarrow> x < q @ [0, 2] \<Longrightarrow> split_prefix x \<noteq> x"
proof -
  obtain j where j: "index_term 0 (q @ [0, 1]) = Some j" using index_term_contains [of 0 q "[]"] by auto
  have len: "j = length q" using split_prefix_self [OF self nl j] by simp
  show "split_prefix (q @ [0, 2]) = q @ [0, 2]"
  proof (rule split_prefix_eqI)
    fix p r
    assume eq: "q @ [0, 2] = p @ 0 # 1 # r" and t: "index_term 0 (p @ [0, 1]) = Some (length p)"
    then have "r \<noteq> []" by auto
    with eq have "q @ [0] = p @ 0 # 1 # butlast r"
      by (metis append_Cons append_butlast_last_id butlast.simps(2) butlast_append butlast_snoc
          list.distinct(1) append.assoc append_Nil)
    then have "q @ [0, 1] = (p @ [0, 1]) @ butlast r @ [1]" by (metis append_Cons append_Nil append_assoc)
    with t have "index_term 0 (q @ [0, 1]) = Some (length p)" by (metis index_term_append)
    with j len have "length q = length p" by simp
    with eq show "r = []" by auto
  qed
  assume "q @ [0, 1] < x" "x < q @ [0, 2]"
  then have "(q @ [0]) @ [1] \<le> x" "x < (q @ [0]) @ [2]" and ne: "x \<noteq> q @ [0, 1]" by auto
  from sandwich_prefix [OF this(1,2)] obtain y where
    x: "x = (q @ [0]) @ y" and y: "[1] \<le> y" "y < [2]" by blast
  then obtain d z where d: "y = d # z" by (cases y) auto
  with y have "d = 1" using byte_succ(2) [of 1 d] by auto
  with x d have x': "x = (q @ [0, 1]) @ z" by simp
  then have "index_term 0 x = Some (length q)" using index_term_append [OF j] len by simp
  moreover have "nonlocal x" using nl x' by (cases q) (auto simp: nonlocal_def)
  ultimately have "split_prefix x = q @ [0, 1]" using x' by (simp add: split_prefix_def mvccSplit_def nonlocal_def)
  with ne show "split_prefix x \<noteq> x" by simp
qed

lemma immediate_successor_plain:
  assumes self: "split_prefix a = a" and nl: "a = [] \<or> nonlocal a" and nt: "\<nexists>q. a = q @ [0, 1]"
  shows "split_prefix (a @ [0]) = a @ [0]" and "a < x \<Longrightarrow> \<not> x < a @ [0]"
proof -
  show "split_prefix (a @ [0]) = a @ [0]"
  proof (rule split_prefix_eqI)
    fix p r
    assume eq: "a @ [0] = p @ 0 # 1 # r" and t: "index_term 0 (p @ [0, 1]) = Some (length p)"
    then have "r \<noteq> []" by auto
    with eq have a: "a = (p @ [0, 1]) @ butlast r"
      by (metis append.assoc append_Cons append_Nil append_butlast_last_id butlast_append butlast_snoc
          list.distinct(1) butlast.simps(2))
    then have "index_term 0 a = Some (length p)" using index_term_append [OF t] by simp
    moreover have "nonlocal a" using nl a by auto
    ultimately have "length a = length p + 2" using split_prefix_self [OF self] by blast
    then have "butlast r = []" using arg_cong [OF a, of length] by (cases r) auto
    then show "r = []" using a nt by simp
  qed
  assume "a < x"
  show "\<not> x < a @ [0]"
  proof
    assume "x < a @ [0]"
    with \<open>a < x\<close> sandwich_prefix [of a "[]" x "[0]"] less_imp_le [of a x] obtain y where "x = a @ y" "y < [0]" by auto
    then have "x = a" by (cases y) (auto simp: word_less_nat_alt)
    with \<open>a < x\<close> show False by simp
  qed
qed

lemma mvccImmediateSuccessor_cases:
  "mvccImmediateSuccessor [] (q @ [0, 1]) = q @ [0, 2]"
  "\<nexists>q. a = q @ [0, 1] \<Longrightarrow> mvccImmediateSuccessor [] a = a @ [0]"
proof -
  show "mvccImmediateSuccessor [] (q @ [0, 1]) = q @ [0, 2]"
    by (simp add: mvccImmediateSuccessor_def Let_def nth_append list_update_append)
  have "a = take (length a - 2) a @ [0, 1]"
    if two: "length a \<ge> 2" and "a ! (length a - 2) = 0" "a ! (length a - 1) = 1"
  proof -
    obtain b y where b: "a = b @ [y]" using two by (cases a rule: rev_cases) auto
    obtain q x where "b = q @ [x]" using two b by (cases b rule: rev_cases) auto
    with b that show ?thesis by (simp add: nth_append)
  qed
  then show "\<nexists>q. a = q @ [0, 1] \<Longrightarrow> mvccImmediateSuccessor [] a = a @ [0]"
    by (auto simp: mvccImmediateSuccessor_def Let_def)
qed

section \<open>The contracts\<close>

lemma ver_key_order:
  assumes "ts_ok t" "ts_ok u"
  shows "EncodeMVCCKey k t @ r < EncodeMVCCKey k' u @ s \<longleftrightarrow>
    k < k' \<or> k = k' \<and> (if t = zero_ts then r else version_suffix t @ r)
                      < (if u = zero_ts then s else version_suffix u @ s)"
  by (cases "t = zero_ts"; cases "u = zero_ts") (simp_all add: EncodeMVCCKey_simps byt.less_iff)

text \<open>
  C9: in the engine's byte order the keys of different user keys never interleave; within a
  user key the metadata key comes first and then the versions, newest first. Decoding an
  engine key gives back the user key and the version, and the bounds of a user key hold
  exactly its engine keys.
\<close>

theorem mvcc_key_order:
  assumes "ts_ok t" "ts_ok u"
  shows "(EncodeMVCCKey k t < EncodeMVCCKey k' u \<longleftrightarrow>
      k < k' \<or> k = k' \<and> u \<noteq> zero_ts \<and> (t = zero_ts \<or> u < t)) \<and>
    DecodeMVCCKey (EncodeMVCCKey k t) = Inr (k, t) \<and>
    (in_span x (mvccKeyBounds k) \<longleftrightarrow> (\<exists>r. x = EncodeMVCCKey k zero_ts @ r))"
proof -
  have "EncodeMVCCKey k t < EncodeMVCCKey k' u \<longleftrightarrow>
      k < k' \<or> k = k' \<and> u \<noteq> zero_ts \<and> (t = zero_ts \<or> u < t)"
    using ver_key_order [OF assms, of k "[]" k' "[]"] version_suffix_less [OF assms] by auto
  moreover have "DecodeMVCCKey (EncodeMVCCKey k t) = Inr (k, t)"
    by (cases "t = zero_ts") (simp_all add: EncodeMVCCKey_simps)
  ultimately show ?thesis by (simp add: mvccKeyBounds_span EncodeMVCCKey_simps)
qed

theorem mvcc_key_order_witness:
  "ts_ok (Timestamp 5 0) \<and> ts_ok (Timestamp 4 9) \<and>
   (EncodeMVCCKey [0, 7] (Timestamp 5 0) < EncodeMVCCKey [0, 7] (Timestamp 4 9) \<longleftrightarrow>
      [0, 7] < ([0, 7] :: key) \<or> [0, 7] = ([0, 7] :: key) \<and> Timestamp 4 9 \<noteq> zero_ts \<and>
        (Timestamp 5 0 = zero_ts \<or> Timestamp 4 9 < Timestamp 5 0)) \<and>
   DecodeMVCCKey (EncodeMVCCKey [0, 7] (Timestamp 5 0)) = Inr ([0, 7], Timestamp 5 0) \<and>
   (in_span [] (mvccKeyBounds [0, 7]) \<longleftrightarrow> (\<exists>r. [] = EncodeMVCCKey [0, 7] zero_ts @ r))"
proof -
  have "ts_ok (Timestamp 5 0)" "ts_ok (Timestamp 4 9)" by (simp_all add: ts_ok_def)
  then show ?thesis using mvcc_key_order [of "Timestamp 5 0" "Timestamp 4 9" "[0, 7]" "[0, 7]" "[]"]
    by blast
qed

text \<open>
  C10: the comparer's split agrees with the byte order, as Pebble requires: a smaller key
  never has a larger prefix. The metadata key and every version of a global user key share
  one prefix, the metadata key itself.
\<close>

theorem mvcc_split_consistent:
  assumes "a < b" "\<not> Keys.IsLocal k"
  shows "split_prefix a \<le> split_prefix b \<and> split_prefix (EncodeMVCCKey k t) = EncodeMVCCKey k zero_ts"
  using split_prefix_mono [of a b] split_prefix_meta [of k "[]"] split_prefix_meta [of k "version_suffix t"] assms
  by (cases "t = zero_ts") (auto simp: EncodeMVCCKey_simps)

theorem mvcc_split_consistent_witness:
  "split_prefix [2, 0, 1, 9] \<le> split_prefix [2, 5] \<and>
   split_prefix (EncodeMVCCKey [7] (Timestamp 5 0)) = EncodeMVCCKey [7] zero_ts"
  by (rule mvcc_split_consistent) (simp_all add: Keys.IsLocal_def)



text \<open>
  Among local keys, which are their own prefixes, the function misses keys when a key ends
  in the bytes 0, 1: between the first entry of a range's raft log and its immediate
  successor lies another prefix key.
\<close>

lemma immediate_successor_local_gap:
  "split_prefix (RaftLogKey r 1) = RaftLogKey r 1 \<and>
   RaftLogKey r 1 < RaftLogKey r 1 @ [0] \<and> RaftLogKey r 1 @ [0] < mvccImmediateSuccessor [] (RaftLogKey r 1) \<and>
   split_prefix (RaftLogKey r 1 @ [0]) = RaftLogKey r 1 @ [0]"
proof -
  have "(8 :: nat) = Suc (Suc 6)" by simp
  then have "be_bytes 8 1 = be_bytes 6 0 @ [0, 1]" by (simp only: be_bytes.simps) simp
  then have "RaftLogKey r 1 = 1 # (str ''u'' @ str ''r'' @ EncodeUint64 [] r @ str ''log'' @ be_bytes 6 0) @ [0, 1]"
    by (simp add: RaftLogKey_def makeRangeLocalKey_app localUnreplicatedPrefix_def
        u64.enc_append [of "_ # _"]) (simp add: EncodeUint64_def)
  then obtain q where q: "RaftLogKey r 1 = 1 # q @ [0, 1]" by blast
  then have "mvccImmediateSuccessor [] (RaftLogKey r 1) = (1 # q) @ [0, 2]"
    using mvccImmediateSuccessor_cases(1) [of "1 # q"] by simp
  with q show ?thesis by (simp add: split_prefix_def mvccSplit_def)
qed

end
