(* ===== verification/Enginepb.thy ===== *)
theory Enginepb
  imports Hlc Keys
begin

text \<open>
  The types shared by the storage engine and the transaction layer
  (\<^verbatim>\<open>src/pkg/storage/enginepb/txn_meta.go\<close>) and their conversions to and from the protobuf
  messages (\<^verbatim>\<open>src/pkg/storage/enginepb/proto.go\<close>). A message pointer is an option. Byte
  fields of these types are never told apart when nil and when empty, so they are plain byte
  strings; a \<^verbatim>\<open>uuid.UUID\<close> is 16 bytes (\<open>uuid_ok\<close>).
\<close>

section \<open>Transaction metadata and intents\<close>

datatype TxnStatus = PENDING | COMMITTED | ABORTED | STAGING

record TxnMeta =
  ID :: uuid
  AnchorKey :: key
  Epoch :: "32 word"
  WriteTimestamp :: timestamp
  MinTimestamp :: timestamp
  Priority :: "32 word"
  Sequence :: "32 word"
  HistoryFloor :: "32 word"
  BinaryMeta :: bool

record IntentValue =
  ivSequence :: "32 word"
  ivValue :: bytes
  ivTombstone :: bool

record MVCCMetadata =
  mTxn :: TxnMeta
  mTimestamp :: timestamp
  mHistory :: "IntentValue list"

definition uuid_ok :: "uuid \<Rightarrow> bool" where
  "uuid_ok i \<longleftrightarrow> length i = 16"

definition uuid_nil :: uuid where
  "uuid_nil = replicate 16 0"

section \<open>Protobuf messages\<close>

record pb_Hlc =
  pbWallTime :: "64 word"
  pbLogical :: "32 word"

record pb_TxnMeta =
  pbId :: bytes
  pbKey :: bytes
  pbEpoch :: "32 word"
  pbWriteTimestamp :: "pb_Hlc option"
  pbMinTimestamp :: "pb_Hlc option"
  pbPriority :: "32 word"
  pbSequence :: "32 word"
  pbHistoryFloor :: "32 word"
  pbBinaryMeta :: bool

record pb_IntentValue =
  pbSeq :: "32 word"
  pbValue :: bytes
  pbTombstone :: bool

record pb_MVCCMetadata =
  pbTxn :: "pb_TxnMeta option"
  pbTimestamp :: "pb_Hlc option"
  pbHistory :: "pb_IntentValue list"

datatype proto_error = BadUUID nat

definition TimestampToProto :: "timestamp \<Rightarrow> pb_Hlc option" where
  "TimestampToProto t =
     (if IsEmpty t then None else Some \<lparr>pbWallTime = WallTime t, pbLogical = Logical t\<rparr>)"

definition TimestampFromProto :: "pb_Hlc option \<Rightarrow> timestamp" where
  "TimestampFromProto p =
     (case p of None \<Rightarrow> zero_ts | Some h \<Rightarrow> Timestamp (pbWallTime h) (pbLogical h))"

definition UUIDToProto :: "uuid \<Rightarrow> bytes" where
  "UUIDToProto i = (if i = uuid_nil then [] else i)"

text \<open>\<^verbatim>\<open>uuid.FromBytes\<close> copies 16 bytes and refuses any other length.\<close>

definition UUIDFromProto :: "bytes \<Rightarrow> proto_error + uuid" where
  "UUIDFromProto b =
     (if length b = 0 then Inr uuid_nil
      else if length b = 16 then Inr b else Inl (BadUUID (length b)))"

definition TxnMetaToProto :: "TxnMeta \<Rightarrow> pb_TxnMeta" where
  "TxnMetaToProto m =
     \<lparr>pbId = UUIDToProto (ID m), pbKey = AnchorKey m, pbEpoch = Epoch m,
      pbWriteTimestamp = TimestampToProto (WriteTimestamp m),
      pbMinTimestamp = TimestampToProto (MinTimestamp m),
      pbPriority = Priority m, pbSequence = Sequence m,
      pbHistoryFloor = HistoryFloor m, pbBinaryMeta = BinaryMeta m\<rparr>"

definition zero_TxnMeta :: TxnMeta where
  "zero_TxnMeta =
     \<lparr>ID = uuid_nil, AnchorKey = [], Epoch = 0, WriteTimestamp = zero_ts, MinTimestamp = zero_ts,
      Priority = 0, Sequence = 0, HistoryFloor = 0, BinaryMeta = False\<rparr>"

definition TxnMetaFromProto :: "pb_TxnMeta option \<Rightarrow> proto_error + TxnMeta" where
  "TxnMetaFromProto p =
     (case p of None \<Rightarrow> Inr zero_TxnMeta
      | Some p \<Rightarrow>
          (case UUIDFromProto (pbId p) of Inl e \<Rightarrow> Inl e
           | Inr i \<Rightarrow>
               Inr \<lparr>ID = i, AnchorKey = pbKey p, Epoch = pbEpoch p,
                    WriteTimestamp = TimestampFromProto (pbWriteTimestamp p),
                    MinTimestamp = TimestampFromProto (pbMinTimestamp p),
                    Priority = pbPriority p, Sequence = pbSequence p,
                    HistoryFloor = pbHistoryFloor p, BinaryMeta = pbBinaryMeta p\<rparr>))"

definition MetadataToProto :: "MVCCMetadata \<Rightarrow> pb_MVCCMetadata" where
  "MetadataToProto m =
     \<lparr>pbTxn = Some (TxnMetaToProto (mTxn m)), pbTimestamp = TimestampToProto (mTimestamp m),
      pbHistory = map (\<lambda>h. \<lparr>pbSeq = ivSequence h, pbValue = ivValue h, pbTombstone = ivTombstone h\<rparr>)
        (mHistory m)\<rparr>"

definition MetadataFromProto :: "pb_MVCCMetadata \<Rightarrow> proto_error + MVCCMetadata" where
  "MetadataFromProto p =
     (case TxnMetaFromProto (pbTxn p) of Inl e \<Rightarrow> Inl e
      | Inr txn \<Rightarrow>
          Inr \<lparr>mTxn = txn, mTimestamp = TimestampFromProto (pbTimestamp p),
               mHistory = map (\<lambda>h. \<lparr>ivSequence = pbSeq h, ivValue = pbValue h,
                 ivTombstone = pbTombstone h\<rparr>) (pbHistory p)\<rparr>)"

section \<open>Round trips\<close>

lemma Timestamp_roundtrip [simp]: "TimestampFromProto (TimestampToProto t) = t"
  by (cases t) (simp add: TimestampFromProto_def TimestampToProto_def zero_ts_def)

lemma UUID_roundtrip: "uuid_ok i \<Longrightarrow> UUIDFromProto (UUIDToProto i) = Inr i"
  by (auto simp: UUIDFromProto_def UUIDToProto_def uuid_ok_def)

lemma TxnMeta_roundtrip: "uuid_ok (ID m) \<Longrightarrow> TxnMetaFromProto (Some (TxnMetaToProto m)) = Inr m"
  by (simp add: TxnMetaFromProto_def TxnMetaToProto_def UUID_roundtrip)

lemma Metadata_roundtrip: "uuid_ok (ID (mTxn m)) \<Longrightarrow> MetadataFromProto (MetadataToProto m) = Inr m"
  by (simp add: MetadataFromProto_def MetadataToProto_def TxnMeta_roundtrip comp_def map_idI)

end
