(* ===== verification/Engine.thy ===== *)
theory Engine
  imports MVCC_Key Enginepb
begin

text \<open>
  The storage engine of \<^verbatim>\<open>src/pkg/storage/engine.go\<close> and the packages the storage layer
  calls. Those packages are parameters, gathered in the record \<open>deps\<close>: Pebble's operations
  over an abstract state, with \<open>Inl\<close> for a failed call, and the JSON and protobuf
  marshallers of intent metadata. \<open>pIter\<close> gives the entries an iterator with the given
  bounds visits, in order, or the error of creating or reading it.

  What the code relies on is stated by two predicates. \<open>pebble_ok\<close>: the state has contents, a
  finite map from keys to values; a get reads them, an iterator visits exactly the entries
  within its bounds in key order, a set or delete changes one key, a range delete removes the
  keys from its lower bound to below its upper. \<open>codec_ok\<close>: both
  marshallers round-trip, JSON objects start with an opening brace and messages whose first
  field is set do not. The instance \<open>mem_deps\<close>, an in-memory store with a concrete codec,
  satisfies both.

  An iterator is the list of entries it visits and a position in it, from -1 (before the
  first) to the length (after the last), moved as the \<^verbatim>\<open>Iterator\<close> interface documents. A
  prefix seek confines the iterator to the entries that share the key's split prefix when
  the engine runs in prefix mode.
\<close>

section \<open>Pebble and the marshallers\<close>

datatype io_error = IOError nat

record 's deps =
  pGet :: "'s \<Rightarrow> bytes \<Rightarrow> io_error + bytes option"
  pIter :: "'s \<Rightarrow> bytes \<Rightarrow> bytes \<Rightarrow> io_error + (bytes \<times> bytes) list"
  pSet :: "bytes \<Rightarrow> bytes \<Rightarrow> 's \<Rightarrow> io_error + 's"
  pDelete :: "bytes \<Rightarrow> 's \<Rightarrow> io_error + 's"
  pDeleteRange :: "bytes \<Rightarrow> bytes \<Rightarrow> 's \<Rightarrow> io_error + 's"
  prefixBloom :: bool
  jsonMarshal :: "MVCCMetadata \<Rightarrow> bytes"
  jsonUnmarshal :: "bytes \<Rightarrow> unit + MVCCMetadata"
  protoMarshal :: "pb_MVCCMetadata \<Rightarrow> bytes"
  protoUnmarshal :: "bytes \<Rightarrow> unit + pb_MVCCMetadata"

type_synonym contents = "bytes \<rightharpoonup> bytes"

definition pebble_ok :: "'s deps \<Rightarrow> ('s \<Rightarrow> contents) \<Rightarrow> bool" where
  "pebble_ok E c \<longleftrightarrow>
     (\<forall>s k. pGet E s k = Inr (c s k)) \<and>
     (\<forall>s lo hi. \<exists>es. pIter E s lo hi = Inr es \<and> sorted_wrt (<) (map fst es) \<and>
        (\<forall>k v. (k, v) \<in> set es \<longleftrightarrow> lo \<le> k \<and> k < hi \<and> c s k = Some v)) \<and>
     (\<forall>s k v. \<exists>s'. pSet E k v s = Inr s' \<and> c s' = (c s)(k \<mapsto> v)) \<and>
     (\<forall>s k. \<exists>s'. pDelete E k s = Inr s' \<and> c s' = (c s)(k := None)) \<and>
     (\<forall>s lo hi. \<exists>s'. pDeleteRange E lo hi s = Inr s' \<and> c s' = (\<lambda>k. if lo \<le> k \<and> k < hi then None else c s k))"

lemma pebble_okD:
  assumes "pebble_ok E c"
  shows "pGet E s k = Inr (c s k)"
    and "\<exists>es. pIter E s lo hi = Inr es \<and> sorted_wrt (<) (map fst es) \<and>
      (\<forall>k v. (k, v) \<in> set es \<longleftrightarrow> lo \<le> k \<and> k < hi \<and> c s k = Some v)"
    and "\<exists>s'. pSet E k v s = Inr s' \<and> c s' = (c s)(k \<mapsto> v)"
    and "\<exists>s'. pDelete E k s = Inr s' \<and> c s' = (c s)(k := None)"
    and "\<exists>s'. pDeleteRange E lo hi s = Inr s' \<and> c s' = (\<lambda>k. if lo \<le> k \<and> k < hi then None else c s k)"
  using assms by (simp_all add: pebble_ok_def)

abbreviation (input) open_brace :: byte where "open_brace \<equiv> 0x7B"

definition codec_ok :: "'s deps \<Rightarrow> bool" where
  "codec_ok E \<longleftrightarrow>
     (\<forall>m. uuid_ok (ID (mTxn m)) \<longrightarrow>
        jsonUnmarshal E (jsonMarshal E m) = Inr m \<and>
        (\<exists>r. jsonMarshal E m = open_brace # r)) \<and>
     (\<forall>p. pbTxn p \<noteq> None \<longrightarrow>
        protoUnmarshal E (protoMarshal E p) = Inr p \<and>
        (\<exists>b r. protoMarshal E p = b # r \<and> b \<noteq> open_brace))"

section \<open>Iterators\<close>

record iter =
  entries :: "(bytes \<times> bytes) list"
  pos :: int
  pmode :: bool
  plimit :: "bytes option"

definition iter_over :: "bool \<Rightarrow> (bytes \<times> bytes) list \<Rightarrow> iter" where
  "iter_over prefix_mode es = \<lparr>entries = es, pos = -1, pmode = prefix_mode, plimit = None\<rparr>"

definition iValid :: "iter \<Rightarrow> bool" where
  "iValid it \<longleftrightarrow> 0 \<le> pos it \<and> pos it < int (length (entries it)) \<and>
     (case plimit it of None \<Rightarrow> True | Some p \<Rightarrow> split_prefix (fst (entries it ! nat (pos it))) = p)"

definition iKey :: "iter \<Rightarrow> bytes" where
  "iKey it = (if iValid it then fst (entries it ! nat (pos it)) else [])"

definition iValue :: "iter \<Rightarrow> bytes" where
  "iValue it = (if iValid it then snd (entries it ! nat (pos it)) else [])"

text \<open>The number of entries below a key.\<close>

definition rank :: "bytes \<Rightarrow> iter \<Rightarrow> int" where
  "rank k it = int (length (takeWhile (\<lambda>e. fst e < k) (entries it)))"

definition SeekGE :: "bytes \<Rightarrow> iter \<Rightarrow> bool \<times> iter" where
  "SeekGE k it = (let it' = it\<lparr>pos := rank k it, plimit := None\<rparr> in (iValid it', it'))"

definition SeekPrefixGE :: "bytes \<Rightarrow> iter \<Rightarrow> bool \<times> iter" where
  "SeekPrefixGE k it =
     (if pmode it then let it' = it\<lparr>pos := rank k it, plimit := Some (split_prefix k)\<rparr> in (iValid it', it')
      else SeekGE k it)"

definition SeekLT :: "bytes \<Rightarrow> iter \<Rightarrow> bool \<times> iter" where
  "SeekLT k it = (let it' = it\<lparr>pos := rank k it - 1, plimit := None\<rparr> in (iValid it', it'))"

definition iNext :: "iter \<Rightarrow> bool \<times> iter" where
  "iNext it = (let it' = it\<lparr>pos := min (pos it + 1) (int (length (entries it)))\<rparr> in (iValid it', it'))"

definition iPrev :: "iter \<Rightarrow> bool \<times> iter" where
  "iPrev it = (let it' = it\<lparr>pos := max (pos it - 1) (-1)\<rparr> in (iValid it', it'))"

text \<open>\<^verbatim>\<open>NewIter\<close>: on an error, the iterator that is never valid.\<close>

definition NewIter :: "'s deps \<Rightarrow> 's \<Rightarrow> bytes \<Rightarrow> bytes \<Rightarrow> iter" where
  "NewIter E s lower upper =
     (case pIter E s lower upper of Inl _ \<Rightarrow> iter_over False []
      | Inr es \<Rightarrow> iter_over (prefixBloom E) es)"

section \<open>Batches\<close>

text \<open>An indexed batch reads its own writes: it is the state with its writes applied.\<close>

definition Batch_Get :: "'s deps \<Rightarrow> 's \<Rightarrow> bytes \<Rightarrow> io_error + nbytes" where
  "Batch_Get E s k =
     (case pGet E s k of Inl e \<Rightarrow> Inl e | Inr None \<Rightarrow> Inr None | Inr (Some v) \<Rightarrow> Inr (clone_nil v))"

definition Batch_Put :: "'s deps \<Rightarrow> bytes \<Rightarrow> bytes \<Rightarrow> 's \<Rightarrow> io_error + 's" where
  "Batch_Put E k v s = pSet E k v s"

definition Batch_Delete :: "'s deps \<Rightarrow> bytes \<Rightarrow> 's \<Rightarrow> io_error + 's" where
  "Batch_Delete E k s = pDelete E k s"

definition Batch_DeleteRange :: "'s deps \<Rightarrow> bytes \<Rightarrow> bytes \<Rightarrow> 's \<Rightarrow> io_error + 's" where
  "Batch_DeleteRange E lo hi s = pDeleteRange E lo hi s"

datatype write_state_error = WIter io_error | WKey mvcc_key_error

text \<open>The metadata (nil if none), the newest version and whether there is one.\<close>

definition writeState ::
  "'s deps \<Rightarrow> 's \<Rightarrow> bytes \<Rightarrow> bytes \<Rightarrow> write_state_error + nbytes \<times> timestamp \<times> bool" where
  "writeState E s metaKey upper =
     (case pIter E s metaKey upper of Inl e \<Rightarrow> Inl (WIter e)
      | Inr es \<Rightarrow>
          let (found, it) = SeekPrefixGE metaKey (iter_over (prefixBloom E) es)
          in if \<not> found then Inr (None, zero_ts, False)
             else if iKey it = metaKey then Inr (clone_nil (iValue it), zero_ts, False)
             else case DecodeMVCCKey (iKey it) of Inl e \<Rightarrow> Inl (WKey e)
                  | Inr (_, vts) \<Rightarrow> Inr (None, vts, True))"

section \<open>An in-memory instance\<close>

definition mem_iter :: "(bytes \<times> bytes) list \<Rightarrow> bytes \<Rightarrow> bytes \<Rightarrow> (bytes \<times> bytes) list" where
  "mem_iter s lo hi =
     map (\<lambda>k. (k, the (map_of s k))) (filter (\<lambda>k. lo \<le> k \<and> k < hi) (sort (remdups (map fst s))))"

text \<open>A concrete codec for the messages: the fields in order, options and lists tagged.\<close>

definition un_enc :: "enc_error + 'a \<Rightarrow> unit + 'a" where
  "un_enc r = (case r of Inl _ \<Rightarrow> Inl () | Inr x \<Rightarrow> Inr x)"

definition put_u32 :: "32 word \<Rightarrow> bytes" where
  "put_u32 v = EncodeUint64 [] (ucast v)"

definition get_u32 :: "bytes \<Rightarrow> unit + bytes \<times> 32 word" where
  "get_u32 b = res_bind (un_enc (DecodeUint64 b)) (\<lambda>(r, v). Inr (r, ucast v))"

fun put_hlc :: "pb_Hlc option \<Rightarrow> bytes" where
  "put_hlc None = [0]"
| "put_hlc (Some h) = 1 # EncodeUint64 [] (pbWallTime h) @ put_u32 (pbLogical h)"

fun get_hlc :: "bytes \<Rightarrow> unit + bytes \<times> pb_Hlc option" where
  "get_hlc [] = Inl ()"
| "get_hlc (t # b) =
     (if t = 0 then Inr (b, None)
      else res_bind (un_enc (DecodeUint64 b)) (\<lambda>(b, w). res_bind (get_u32 b) (\<lambda>(b, l).
        Inr (b, Some \<lparr>pbWallTime = w, pbLogical = l\<rparr>))))"

definition put_txn :: "pb_TxnMeta \<Rightarrow> bytes" where
  "put_txn t = EncodeBytes [] (pbId t) @ EncodeBytes [] (pbKey t) @ put_u32 (pbEpoch t) @
     put_hlc (pbWriteTimestamp t) @ put_hlc (pbMinTimestamp t) @ put_u32 (pbPriority t) @
     put_u32 (pbSequence t) @ put_u32 (pbHistoryFloor t) @ EncodeBool [] (pbBinaryMeta t)"

definition get_txn :: "bytes \<Rightarrow> unit + bytes \<times> pb_TxnMeta" where
  "get_txn b =
     res_bind (un_enc (DecodeBytes b)) (\<lambda>(b, i).
     res_bind (un_enc (DecodeBytes b)) (\<lambda>(b, k).
     res_bind (get_u32 b) (\<lambda>(b, ep).
     res_bind (get_hlc b) (\<lambda>(b, wt).
     res_bind (get_hlc b) (\<lambda>(b, mt).
     res_bind (get_u32 b) (\<lambda>(b, pr).
     res_bind (get_u32 b) (\<lambda>(b, sq).
     res_bind (get_u32 b) (\<lambda>(b, hf).
     res_bind (un_enc (DecodeBool b)) (\<lambda>(b, bm).
       Inr (b, \<lparr>pbId = i, pbKey = k, pbEpoch = ep, pbWriteTimestamp = wt, pbMinTimestamp = mt,
         pbPriority = pr, pbSequence = sq, pbHistoryFloor = hf, pbBinaryMeta = bm\<rparr>))))))))))"

fun put_hist :: "pb_IntentValue list \<Rightarrow> bytes" where
  "put_hist [] = []"
| "put_hist (h # hs) =
     1 # put_u32 (pbSeq h) @ EncodeBytes [] (pbValue h) @ EncodeBool [] (pbTombstone h) @ put_hist hs"

fun get_hist :: "nat \<Rightarrow> bytes \<Rightarrow> unit + pb_IntentValue list" where
  "get_hist _ [] = Inr []"
| "get_hist 0 (_ # _) = Inl ()"
| "get_hist (Suc n) (_ # b) =
     res_bind (get_u32 b) (\<lambda>(b, sq). res_bind (un_enc (DecodeBytes b)) (\<lambda>(b, v).
     res_bind (un_enc (DecodeBool b)) (\<lambda>(b, tb). res_bind (get_hist n b) (\<lambda>hs.
       Inr (\<lparr>pbSeq = sq, pbValue = v, pbTombstone = tb\<rparr> # hs)))))"

definition put_meta :: "pb_MVCCMetadata \<Rightarrow> bytes" where
  "put_meta m = (case pbTxn m of None \<Rightarrow> [0] | Some t \<Rightarrow> 1 # put_txn t) @
     put_hlc (pbTimestamp m) @ put_hist (pbHistory m)"

definition get_meta :: "bytes \<Rightarrow> unit + pb_MVCCMetadata" where
  "get_meta b =
     (case b of [] \<Rightarrow> Inl () | t # b \<Rightarrow>
        res_bind (if t = 0 then Inr (b, None)
          else res_bind (get_txn b) (\<lambda>(b, x). Inr (b, Some x))) (\<lambda>(b, x).
        res_bind (get_hlc b) (\<lambda>(b, ts).
        res_bind (get_hist (length b) b) (\<lambda>hs.
          Inr \<lparr>pbTxn = x, pbTimestamp = ts, pbHistory = hs\<rparr>))))"

definition mem_deps :: "bool \<Rightarrow> ((bytes \<times> bytes) list) deps" where
  "mem_deps prefix_mode =
     \<lparr>pGet = \<lambda>s k. Inr (map_of s k), pIter = \<lambda>s lo hi. Inr (mem_iter s lo hi),
      pSet = \<lambda>k v s. Inr ((k, v) # s), pDelete = \<lambda>k s. Inr (filter (\<lambda>e. fst e \<noteq> k) s),
      pDeleteRange = \<lambda>lo hi s. Inr (filter (\<lambda>e. \<not> (lo \<le> fst e \<and> fst e < hi)) s),
      prefixBloom = prefix_mode,
      jsonMarshal = \<lambda>m. open_brace # put_meta (MetadataToProto m),
      jsonUnmarshal = \<lambda>b. (case get_meta (tl b) of Inl e \<Rightarrow> Inl e
        | Inr p \<Rightarrow> (case MetadataFromProto p of Inl _ \<Rightarrow> Inl () | Inr m \<Rightarrow> Inr m)),
      protoMarshal = \<lambda>p. 0x0A # put_meta p,
      protoUnmarshal = \<lambda>b. get_meta (tl b)\<rparr>"

lemma map_of_filter_ne: "map_of (filter (\<lambda>e. fst e \<noteq> k) s) = (map_of s)(k := None)"
  by (rule ext, induction s) auto

lemma map_of_filter_range:
  "map_of (filter (\<lambda>e. \<not> (lo \<le> fst e \<and> fst e < hi)) s) = (\<lambda>k. if lo \<le> k \<and> k < hi then None else map_of s k)"
  by (rule ext, induction s) auto

lemma mem_iter_sorted: "sorted_wrt (<) (map fst (mem_iter s lo hi))"
proof -
  have "map fst (mem_iter s lo hi) = filter (\<lambda>k. lo \<le> k \<and> k < hi) (sort (remdups (map fst s)))"
    by (simp add: mem_iter_def comp_def)
  then show ?thesis by (simp add: strict_sorted_iff sorted_wrt_filter)
qed

lemma mem_iter_set:
  "(k, v) \<in> set (mem_iter s lo hi) \<longleftrightarrow> lo \<le> k \<and> k < hi \<and> map_of s k = Some v"
proof -
  have "k \<in> set (map fst s) \<longleftrightarrow> map_of s k \<noteq> None"
    by (simp add: map_of_eq_None_iff)
  then show ?thesis by (auto simp: mem_iter_def image_iff dest: map_of_SomeD)
qed

lemma mem_pebble_ok: "pebble_ok (mem_deps m) map_of"
  by (simp add: pebble_ok_def mem_deps_def mem_iter_sorted mem_iter_set map_of_filter_ne map_of_filter_range del: de_Morgan_conj)

lemma un_enc_Inr [simp]: "un_enc (Inr x) = Inr x"
  by (simp add: un_enc_def)

lemma ucast_32_64: "ucast (ucast (v :: 32 word) :: 64 word) = v"
  by (rule bit_word_eqI) (simp add: bit_simps)

lemma get_u32 [simp]: "get_u32 (put_u32 v @ r) = Inr (r, v)"
  by (simp add: get_u32_def put_u32_def u64.roundtrip ucast_32_64)

lemma get_hlc [simp]: "get_hlc (put_hlc h @ r) = Inr (r, h)"
  by (cases h) (simp_all add: u64.roundtrip)

lemma get_txn [simp]: "get_txn (put_txn t @ r) = Inr (r, t)"
  by (simp add: get_txn_def put_txn_def byt.roundtrip bool_codec.roundtrip)

lemma put_hist_length: "length hs \<le> length (put_hist hs)"
  by (induction hs) auto

lemma get_hist: "length hs \<le> n \<Longrightarrow> get_hist n (put_hist hs) = Inr hs"
proof (induction hs arbitrary: n)
  case Nil
  then show ?case by simp
next
  case (Cons h hs)
  then show ?case by (cases n) (simp_all add: byt.roundtrip bool_codec.roundtrip)
qed

lemma get_meta [simp]: "get_meta (put_meta m) = Inr m"
  by (cases "pbTxn m") (simp_all add: get_meta_def put_meta_def get_hist put_hist_length)

lemma mem_codec_ok: "codec_ok (mem_deps m)"
  by (simp add: codec_ok_def mem_deps_def Metadata_roundtrip)

end
