(* ===== verification/MVCC_View.thy ===== *)
theory MVCC_View
  imports Engine
begin

text \<open>
  What an iterator over MVCC data sees: the engine keys of a span, decomposed by user key
  into segments, each with its intent metadata and its versions newest first. The lemmas
  relate iterator positions and seeks to positions in this decomposition; the proofs about
  \<^verbatim>\<open>mvcc.go\<close> work over segments.
\<close>

section \<open>Segments\<close>

text \<open>A user key, the raw metadata at its metadata key, its raw versions newest first.\<close>

record seg =
  skey :: key
  smeta :: "bytes option"
  svers :: "(timestamp \<times> bytes) list"

definition meta_entries :: "key \<Rightarrow> bytes option \<Rightarrow> (bytes \<times> bytes) list" where
  "meta_entries k m = (case m of None \<Rightarrow> [] | Some r \<Rightarrow> [(meta_key k, r)])"

definition ver_entries :: "key \<Rightarrow> (timestamp \<times> bytes) list \<Rightarrow> (bytes \<times> bytes) list" where
  "ver_entries k vs = map (\<lambda>(t, v). (ver_key k t, v)) vs"

definition seg_entries :: "seg \<Rightarrow> (bytes \<times> bytes) list" where
  "seg_entries g = meta_entries (skey g) (smeta g) @ ver_entries (skey g) (svers g)"

definition vers_ok :: "(timestamp \<times> bytes) list \<Rightarrow> bool" where
  "vers_ok vs \<longleftrightarrow> sorted_wrt (>) (map fst vs) \<and> (\<forall>(t, v) \<in> set vs. ts_ok t \<and> t \<noteq> zero_ts)"

definition seg_ok :: "seg \<Rightarrow> bool" where
  "seg_ok g \<longleftrightarrow> vers_ok (svers g) \<and> seg_entries g \<noteq> []"

definition view_entries :: "seg list \<Rightarrow> (bytes \<times> bytes) list" where
  "view_entries gs = concat (map seg_entries gs)"

definition view_ok :: "seg list \<Rightarrow> bool" where
  "view_ok gs \<longleftrightarrow> sorted_wrt (<) (map skey gs) \<and> list_all seg_ok gs"

text \<open>Engine keys the MVCC layer writes: metadata keys and keys of proper versions.\<close>

definition engine_key :: "bytes \<Rightarrow> bool" where
  "engine_key x \<longleftrightarrow> (\<exists>k. x = meta_key k \<or> (\<exists>t. ts_ok t \<and> t \<noteq> zero_ts \<and> x = ver_key k t))"

section \<open>Order of engine keys\<close>

lemma meta_key_less_ver [simp]: "meta_key k < ver_key k' t \<longleftrightarrow> k \<le> k'"
  using byt.less_iff [of k "[]" k' "version_suffix t"] by auto

lemma meta_key_less [simp]: "meta_key k < meta_key k' \<longleftrightarrow> k < k'"
  using byt.less_iff [of k "[]" k' "[]"] by simp

lemma ver_key_less_meta [simp]: "ver_key k t < meta_key k' \<longleftrightarrow> k < k'"
  using byt.less_iff [of k "version_suffix t" k' "[]"] by auto

lemma ver_key_less:
  "ts_ok t \<Longrightarrow> ts_ok u \<Longrightarrow> ver_key k t < ver_key k' u \<longleftrightarrow> k < k' \<or> k = k' \<and> u < t"
  using byt.less_iff [of k "version_suffix t" k' "version_suffix u"] by (simp add: version_suffix_less)

lemma engine_key_inj [simp]:
  "meta_key k = meta_key k' \<longleftrightarrow> k = k'" "meta_key k \<noteq> ver_key k' t" "ver_key k' t \<noteq> meta_key k"
  "ver_key k t = ver_key k' u \<longleftrightarrow> k = k' \<and> t = u"
  using byt.prefix_free [of k "[]" k' "[]"] byt.prefix_free [of k "[]" k' "version_suffix t"]
    byt.prefix_free [of k "version_suffix t" k' "version_suffix u"]
  by auto

lemma seg_entries_engine: "seg_ok g \<Longrightarrow> e \<in> set (seg_entries g) \<Longrightarrow> engine_key (fst e)"
  by (auto simp: seg_entries_def meta_entries_def ver_entries_def seg_ok_def vers_ok_def engine_key_def
      split: option.splits)

lemma seg_entries_cases:
  assumes "e \<in> set (seg_entries g)" "seg_ok g"
  obtains "fst e = meta_key (skey g)" | t where "ts_ok t" "t \<noteq> zero_ts" "fst e = ver_key (skey g) t"
  using assms
  by (auto simp: seg_entries_def meta_entries_def ver_entries_def seg_ok_def vers_ok_def split: option.splits)

section \<open>Every sorted view decomposes\<close>

lemma view_entries_simps [simp]:
  "view_entries [] = []" "view_entries (g # gs) = seg_entries g @ view_entries gs"
  by (simp_all add: view_entries_def)

lemma view_ok_Cons:
  "view_ok (g # gs) \<longleftrightarrow> seg_ok g \<and> (\<forall>h \<in> set gs. skey g < skey h) \<and> view_ok gs"
  by (auto simp: view_ok_def)

lemma view_ok_Nil [simp]: "view_ok []"
  by (simp add: view_ok_def)

lemma view_add_meta:
  assumes "view_ok gs" "\<forall>e \<in> set (view_entries gs). meta_key k < fst e"
  shows "\<exists>gs'. view_ok gs' \<and> (meta_key k, v) # view_entries gs = view_entries gs'"
proof (cases gs)
  case Nil
  then show ?thesis
    by (intro exI [of _ "[\<lparr>skey = k, smeta = Some v, svers = []\<rparr>]"])
      (simp add: view_ok_Cons seg_ok_def vers_ok_def seg_entries_def meta_entries_def ver_entries_def)
next
  case (Cons g gs')
  then have g: "seg_ok g" "\<forall>h \<in> set gs'. skey g < skey h" "view_ok gs'"
    and lt: "\<forall>e \<in> set (seg_entries g). meta_key k < fst e"
    using assms by (auto simp: view_ok_Cons)
  show ?thesis
  proof (cases "k = skey g")
    case True
    with lt have "smeta g = None" by (cases "smeta g") (auto simp: seg_entries_def meta_entries_def)
    with True g Cons show ?thesis
      by (intro exI [of _ "g\<lparr>smeta := Some v\<rparr> # gs'"])
        (auto simp: view_ok_Cons seg_ok_def seg_entries_def meta_entries_def)
  next
    case False
    obtain e where "e \<in> set (seg_entries g)" using g(1) by (cases "seg_entries g") (auto simp: seg_ok_def)
    from this g(1) have "k < skey g"
      by (cases rule: seg_entries_cases)
        (use lt False \<open>e \<in> set (seg_entries g)\<close> in auto)
    with g Cons show ?thesis
      by (intro exI [of _ "\<lparr>skey = k, smeta = Some v, svers = []\<rparr> # gs"])
        (auto simp: view_ok_Cons seg_ok_def vers_ok_def seg_entries_def meta_entries_def ver_entries_def)
  qed
qed

lemma view_add_ver:
  assumes "view_ok gs" "\<forall>e \<in> set (view_entries gs). ver_key k t < fst e" "ts_ok t" "t \<noteq> zero_ts"
  shows "\<exists>gs'. view_ok gs' \<and> (ver_key k t, v) # view_entries gs = view_entries gs'"
proof (cases gs)
  case Nil
  then show ?thesis using assms(3,4)
    by (intro exI [of _ "[\<lparr>skey = k, smeta = None, svers = [(t, v)]\<rparr>]"])
      (simp add: view_ok_Cons seg_ok_def vers_ok_def seg_entries_def meta_entries_def ver_entries_def)
next
  case (Cons g gs')
  then have g: "seg_ok g" "\<forall>h \<in> set gs'. skey g < skey h" "view_ok gs'"
    and lt: "\<forall>e \<in> set (seg_entries g). ver_key k t < fst e"
    using assms by (auto simp: view_ok_Cons)
  show ?thesis
  proof (cases "k = skey g")
    case True
    with lt have m: "smeta g = None" by (cases "smeta g") (auto simp: seg_entries_def meta_entries_def)
    have "u < t" if uw: "(u, w) \<in> set (svers g)" for u w
    proof -
      have "(ver_key (skey g) u, w) \<in> set (seg_entries g)"
        using uw by (force simp: seg_entries_def ver_entries_def)
      with lt True have "ver_key (skey g) t < ver_key (skey g) u" by auto
      moreover have "ts_ok u" using g(1) uw by (auto simp: seg_ok_def vers_ok_def)
      ultimately show ?thesis using assms(3) by (simp only: ver_key_less) simp
    qed
    with True m g Cons assms(3,4) show ?thesis
      by (intro exI [of _ "g\<lparr>svers := (t, v) # svers g\<rparr> # gs'"])
        (auto simp: view_ok_Cons seg_ok_def vers_ok_def seg_entries_def meta_entries_def ver_entries_def)
  next
    case False
    obtain e where "e \<in> set (seg_entries g)" using g(1) by (cases "seg_entries g") (auto simp: seg_ok_def)
    from this g(1) have "k < skey g"
      by (cases rule: seg_entries_cases)
        (use lt False \<open>e \<in> set (seg_entries g)\<close> in \<open>auto simp: ver_key_less assms(3)\<close>)
    with g Cons assms(3,4) show ?thesis
      by (intro exI [of _ "\<lparr>skey = k, smeta = None, svers = [(t, v)]\<rparr> # gs"])
        (auto simp: view_ok_Cons seg_ok_def vers_ok_def seg_entries_def meta_entries_def ver_entries_def)
  qed
qed

lemma view_exists:
  "sorted_wrt (<) (map fst es) \<Longrightarrow> (\<forall>e \<in> set es. engine_key (fst e)) \<Longrightarrow>
   \<exists>gs. view_ok gs \<and> es = view_entries gs"
proof (induction es)
  case Nil
  then show ?case by (intro exI [of _ "[]"]) simp
next
  case (Cons e es)
  obtain x v where e: "e = (x, v)" by (cases e)
  have "\<exists>gs. view_ok gs \<and> es = view_entries gs" by (rule Cons.IH) (use Cons.prems in simp_all)
  then obtain gs where gs: "view_ok gs" "es = view_entries gs" by (elim exE conjE)
  have "\<forall>e \<in> set es. x < fst e" using Cons.prems(1) e by simp
  then have lt: "\<forall>e \<in> set (view_entries gs). x < fst e" unfolding gs(2) .
  have "engine_key x" using Cons.prems e by simp
  then obtain k where "x = meta_key k \<or> (\<exists>t. ts_ok t \<and> t \<noteq> zero_ts \<and> x = ver_key k t)"
    unfolding engine_key_def by (rule exE)
  then show ?case
  proof (elim disjE exE conjE)
    assume "x = meta_key k"
    with lt have "\<forall>e \<in> set (view_entries gs). meta_key k < fst e" by (simp only:)
    from view_add_meta [OF gs(1) this, of v] show ?thesis unfolding e gs(2) \<open>x = meta_key k\<close> .
  next
    fix t assume "ts_ok t" "t \<noteq> zero_ts" "x = ver_key k t"
    with lt have "\<forall>e \<in> set (view_entries gs). ver_key k t < fst e" by (simp only:)
    from view_add_ver [OF gs(1) this \<open>ts_ok t\<close> \<open>t \<noteq> zero_ts\<close>, of v]
    show ?thesis unfolding e gs(2) \<open>x = ver_key k t\<close> .
  qed
qed

section \<open>Iterator positions\<close>

text \<open>
  The iterator stands between the entries \<open>A\<close> it has passed and the entries \<open>B\<close> ahead,
  and a prefix confinement, if any, excludes nothing.
\<close>

definition iat :: "iter \<Rightarrow> (bytes \<times> bytes) list \<Rightarrow> (bytes \<times> bytes) list \<Rightarrow> bool" where
  "iat it A B \<longleftrightarrow> entries it = A @ B \<and> pos it = int (length A) \<and>
     (case plimit it of None \<Rightarrow> True | Some p \<Rightarrow> \<forall>e \<in> set (A @ B). split_prefix (fst e) = p)"

lemma iat_entries: "iat it A B \<Longrightarrow> entries it = A @ B"
  by (simp add: iat_def)

lemma iat_valid: "iat it A B \<Longrightarrow> iValid it \<longleftrightarrow> B \<noteq> []"
  by (cases B) (auto simp: iat_def iValid_def split: option.splits)

lemma iat_key:
  assumes "iat it A (e # B)" shows "iKey it = fst e" "iValue it = snd e"
  using assms iat_valid [OF assms] by (simp_all add: iKey_def iValue_def iat_def)

lemma iat_next:
  assumes "iat it A (e # B)"
  shows "fst (iNext it) \<longleftrightarrow> B \<noteq> []" "iat (snd (iNext it)) (A @ [e]) B"
    "pmode (snd (iNext it)) = pmode it"
proof -
  show at: "iat (snd (iNext it)) (A @ [e]) B"
    using assms by (auto simp: iat_def iNext_def Let_def split: option.splits)
  show "fst (iNext it) \<longleftrightarrow> B \<noteq> []" using iat_valid [OF at] by (simp add: iNext_def Let_def)
  show "pmode (snd (iNext it)) = pmode it" by (simp add: iNext_def Let_def)
qed

lemma takeWhile_split:
  "\<forall>a \<in> set A. P a \<Longrightarrow> B = [] \<or> \<not> P (hd B) \<Longrightarrow> takeWhile P (A @ B) = A"
  by (induction A) (cases B; auto)+

lemma iat_seek:
  assumes "entries it = A @ B" "\<forall>a \<in> set A. fst a < k" "B = [] \<or> \<not> fst (hd B) < k"
  shows "fst (SeekGE k it) \<longleftrightarrow> B \<noteq> []" "iat (snd (SeekGE k it)) A B"
    "pmode (snd (SeekGE k it)) = pmode it"
proof -
  have "rank k it = int (length A)"
    using takeWhile_split [of A "\<lambda>e. fst e < k" B] assms by (simp add: rank_def)
  then show at: "iat (snd (SeekGE k it)) A B"
    using assms(1) by (simp add: iat_def SeekGE_def Let_def)
  show "fst (SeekGE k it) \<longleftrightarrow> B \<noteq> []" using iat_valid [OF at] by (simp add: SeekGE_def Let_def)
  show "pmode (snd (SeekGE k it)) = pmode it" by (simp add: SeekGE_def Let_def)
qed

lemma iat_seek_prefix:
  assumes "entries it = A @ B" "\<forall>a \<in> set A. fst a < k" "B = [] \<or> \<not> fst (hd B) < k"
    and pm: "pmode it \<Longrightarrow> \<forall>e \<in> set (A @ B). split_prefix (fst e) = split_prefix k"
  shows "fst (SeekPrefixGE k it) \<longleftrightarrow> B \<noteq> []" "iat (snd (SeekPrefixGE k it)) A B"
    "pmode (snd (SeekPrefixGE k it)) = pmode it"
proof -
  have "rank k it = int (length A)"
    using takeWhile_split [of A "\<lambda>e. fst e < k" B] assms by (simp add: rank_def)
  then show at: "iat (snd (SeekPrefixGE k it)) A B"
    using assms(1) pm by (simp add: iat_def SeekPrefixGE_def SeekGE_def Let_def)
  show "fst (SeekPrefixGE k it) \<longleftrightarrow> B \<noteq> []"
    using iat_valid [OF at] by (simp add: SeekPrefixGE_def SeekGE_def Let_def split: if_splits)
  show "pmode (snd (SeekPrefixGE k it)) = pmode it" by (simp add: SeekPrefixGE_def SeekGE_def Let_def)
qed

section \<open>Versions, newest first\<close>

lemma vers_ok_Cons:
  "vers_ok ((t, v) # vs) \<longleftrightarrow> ts_ok t \<and> t \<noteq> zero_ts \<and> (\<forall>(u, w) \<in> set vs. u < t) \<and> vers_ok vs"
  by (auto simp: vers_ok_def)

lemma vers_ok_append: "vers_ok (xs @ ys) \<Longrightarrow> vers_ok xs \<and> vers_ok ys"
  by (auto simp: vers_ok_def sorted_wrt_append)

lemma vers_ok_dropWhile: "vers_ok vs \<Longrightarrow> vers_ok (dropWhile P vs)"
  using vers_ok_append [of "takeWhile P vs" "dropWhile P vs"] by simp

lemma vers_ok_tail: "vers_ok vs \<Longrightarrow> (u, w) \<in> set (dropWhile (\<lambda>(u, _). t < u) vs) \<Longrightarrow> u \<le> t"
proof (induction vs)
  case (Cons x vs)
  then show ?case by (cases x) (force simp: vers_ok_Cons split: if_splits)
qed simp

lemma find_dropWhile:
  "vers_ok vs \<Longrightarrow> find (\<lambda>(u, _). u \<le> t \<and> P u) vs = find (\<lambda>(u, _). P u) (dropWhile (\<lambda>(u, _). t < u) vs)"
proof (induction vs)
  case (Cons x vs)
  obtain u w where x: "x = (u, w)" by (cases x)
  show ?case
  proof (cases "t < u")
    case True
    with Cons x show ?thesis by (auto simp: vers_ok_Cons)
  next
    case False
    have "find (\<lambda>(u, _). u \<le> t \<and> P u) ws = find (\<lambda>(u, _). P u) ws" if "\<forall>(u, _) \<in> set ws. u \<le> t" for ws :: "(timestamp \<times> bytes) list"
      using that by (induction ws) auto
    moreover have "\<forall>(u', _) \<in> set (x # vs). u' \<le> t" using Cons.prems x False by (auto simp: vers_ok_Cons)
    ultimately show ?thesis using False x by simp
  qed
qed simp

lemma map_of_dropWhile:
  "vers_ok vs \<Longrightarrow> map_of vs t = (case dropWhile (\<lambda>(u, _). t < u) vs of (u, v) # _ \<Rightarrow> if u = t then Some v else None | [] \<Rightarrow> None)"
proof (induction vs)
  case (Cons x vs)
  obtain u v where x: "x = (u, v)" by (cases x)
  have "map_of vs t = None" if "u \<le> t"
    using Cons.prems x that by (force simp: vers_ok_Cons map_of_eq_None_iff)
  with Cons x show ?case by (auto simp: vers_ok_Cons)
qed simp

lemma ver_entries_simps [simp]:
  "ver_entries k [] = []" "ver_entries k ((t, v) # vs) = (ver_key k t, v) # ver_entries k vs"
  "ver_entries k (xs @ ys) = ver_entries k xs @ ver_entries k ys"
  "ver_entries k vs = [] \<longleftrightarrow> vs = []"
  by (simp_all add: ver_entries_def)

lemma set_ver_entries: "(x, v) \<in> set (ver_entries k vs) \<longleftrightarrow> (\<exists>t. x = ver_key k t \<and> (t, v) \<in> set vs)"
  by (force simp: ver_entries_def)

lemma meta_entries_simps [simp]:
  "meta_entries k None = []" "meta_entries k (Some r) = [(meta_key k, r)]"
  by (simp_all add: meta_entries_def)

lemma seg_entries_prefix:
  "e \<in> set (meta_entries k m @ ver_entries k vs) \<Longrightarrow> \<exists>r. fst e = meta_key k @ r"
  by (cases m) (auto simp: ver_entries_def)

text \<open>Where a seek to a version of the key lands.\<close>

lemma seek_split:
  fixes k :: key and m :: "bytes option"
  assumes "vers_ok vs" "ts_ok t"
  defines "A \<equiv> meta_entries k m @ ver_entries k (takeWhile (\<lambda>(u, _). t < u) vs)"
    and "B \<equiv> ver_entries k (dropWhile (\<lambda>(u, _). t < u) vs)"
  shows "meta_entries k m @ ver_entries k vs = A @ B" "\<forall>a \<in> set A. fst a < ver_key k t"
    "B = [] \<or> \<not> fst (hd B) < ver_key k t"
proof -
  show "meta_entries k m @ ver_entries k vs = A @ B"
    unfolding A_def B_def append_assoc ver_entries_simps(3) [symmetric] by simp
  have ok: "ts_ok u" if "(u, w) \<in> set vs" for u w using assms(1) that by (auto simp: vers_ok_def)
  show "\<forall>a \<in> set A. fst a < ver_key k t"
  proof
    fix a assume "a \<in> set A"
    then consider "a \<in> set (meta_entries k m)" | u w where "a = (ver_key k u, w)" "(u, w) \<in> set (takeWhile (\<lambda>(u, _). t < u) vs)"
      by (auto simp: A_def ver_entries_def)
    then show "fst a < ver_key k t"
    proof cases
      case 1
      then show ?thesis by (cases m) auto
    next
      case 2
      then have "t < u" "(u, w) \<in> set vs" by (auto dest: set_takeWhileD)
      with 2 ok [of u w] assms(2) show ?thesis by (simp add: version_suffix_less)
    qed
  qed
  show "B = [] \<or> \<not> fst (hd B) < ver_key k t"
  proof (cases "dropWhile (\<lambda>(u, _). t < u) vs")
    case (Cons x ws)
    then obtain u w where x: "x = (u, w)" by (cases x)
    with Cons have "(u, w) \<in> set (dropWhile (\<lambda>(u, _). t < u) vs)" by simp
    then have "(u, w) \<in> set vs" "u \<le> t" by (blast dest: set_dropWhileD vers_ok_tail [OF assms(1)])+
    with Cons x ok [of u w] assms(2) show ?thesis by (simp add: B_def version_suffix_le not_less)
  qed (simp add: B_def)
qed

end
