(* ===== verification/MVCC.thy ===== *)
theory MVCC
  imports MVCC_View
begin

text \<open>
  The MVCC operations of \<^verbatim>\<open>src/pkg/storage/mvcc.go\<close> and \<^verbatim>\<open>mvcc_export.go\<close>, with the errors of
  \<^verbatim>\<open>errors.go\<close>, over the engine of theory \<open>Engine\<close>. Reads go through an iterator, writes take
  the batch (its state) and return the batch with the writes staged, or an error; the
  conflict errors are all raised before the first write. Loops over the iterator that cannot
  be shown to end on every input (a scan's walk down a version chain, the outer loops) carry
  fuel drawn from the number of entries and report \<open>Diverges\<close> when it runs out.
\<close>

section \<open>Errors and options\<close>

record Intent =
  intKey :: key
  intTxn :: TxnMeta

datatype mvcc_error =
    WriteIntentError "Intent list"
  | WriteTooOldError timestamp timestamp
  | UncertaintyError timestamp timestamp
  | MalformedMeta
  | EngineError io_error
  | KeyError mvcc_key_error
  | ValueError mvcc_value_error
  | NoProvisionalValue key timestamp
  | LockWithoutTxn
  | ResolvePending
  | RefreshFailed key timestamp
  | Diverges

record MVCCGetOptions =
  optTxn :: "TxnMeta option"
  UncertaintyLimit :: timestamp
  TargetBytes :: int
  Inconsistent :: bool

definition intentAboveRead :: "timestamp \<Rightarrow> timestamp \<Rightarrow> timestamp \<Rightarrow> bool" where
  "intentAboveRead intentTS ts uncertaintyLimit =
     (let limit = (if Less ts uncertaintyLimit then uncertaintyLimit else ts) in Less limit intentTS)"

section \<open>Intent metadata\<close>

definition decodeMeta :: "'s deps \<Rightarrow> bytes \<Rightarrow> mvcc_error + MVCCMetadata" where
  "decodeMeta E raw =
     (if length raw > 0 \<and> raw ! 0 = open_brace then
        (case jsonUnmarshal E raw of Inl _ \<Rightarrow> Inl MalformedMeta | Inr m \<Rightarrow> Inr m)
      else
        (case protoUnmarshal E raw of Inl _ \<Rightarrow> Inl MalformedMeta
         | Inr pb \<Rightarrow>
             (case MetadataFromProto pb of Inl _ \<Rightarrow> Inl MalformedMeta | Inr m \<Rightarrow> Inr m)))"

definition encodeMeta :: "'s deps \<Rightarrow> MVCCMetadata \<Rightarrow> bytes" where
  "encodeMeta E meta =
     (if BinaryMeta (mTxn meta) then protoMarshal E (MetadataToProto meta) else jsonMarshal E meta)"

text \<open>
  How a read treats an intent: the version to read (its own) and the version to skip, or a
  conflict. The same switch appears in \<^verbatim>\<open>mvccGet\<close> and \<^verbatim>\<open>mvccScanKey\<close>.
\<close>

definition intent_switch ::
  "MVCCGetOptions \<Rightarrow> timestamp \<Rightarrow> MVCCMetadata \<Rightarrow> (timestamp \<times> timestamp) option" where
  "intent_switch opts ts meta =
     (if (case optTxn opts of Some t \<Rightarrow> ID (mTxn meta) = ID t | None \<Rightarrow> False) then
        (if Epoch (mTxn meta) = Epoch (the (optTxn opts)) then Some (mTimestamp meta, zero_ts)
         else Some (zero_ts, mTimestamp meta))
      else if Inconsistent opts then Some (zero_ts, mTimestamp meta)
      else if intentAboveRead (mTimestamp meta) ts (UncertaintyLimit opts) then Some (zero_ts, mTimestamp meta)
      else None)"

section \<open>Point reads\<close>

text \<open>The decoded value as \<^verbatim>\<open>append([]byte(nil), data...)\<close> returns it: nil for a tombstone.\<close>

definition read_value :: "bytes \<Rightarrow> mvcc_error + nbytes" where
  "read_value raw =
     (case decodeMVCCValue raw of Inl e \<Rightarrow> Inl (ValueError e)
      | Inr (data, tombstone) \<Rightarrow>
          if tombstone then Inr None else Inr (clone_nil (case data of None \<Rightarrow> [] | Some d \<Rightarrow> d)))"

definition remaining :: "iter \<Rightarrow> nat" where
  "remaining it = nat (int (length (entries it)) - pos it)"

lemma iNext_remaining [simp]: "iValid it \<Longrightarrow> remaining (snd (iNext it)) < remaining it"
  by (auto simp: iNext_def iValid_def Let_def remaining_def)

function uncertain_loop :: "timestamp \<Rightarrow> timestamp \<Rightarrow> iter \<Rightarrow> mvcc_error + unit" where
  "uncertain_loop skipAt ts it =
     (if iValid it then
        (case DecodeMVCCKey (iKey it) of Inl e \<Rightarrow> Inl (KeyError e)
         | Inr (_, vts) \<Rightarrow>
             if \<not> IsEmpty skipAt \<and> Equal vts skipAt then uncertain_loop skipAt ts (snd (iNext it))
             else if Less ts vts then Inl (UncertaintyError ts vts)
             else Inr ())
      else Inr ())"
  by pat_completeness auto
termination
  by (relation "measure (\<lambda>(_, _, it). remaining it)") auto

function read_loop :: "timestamp \<Rightarrow> iter \<Rightarrow> mvcc_error + nbytes" where
  "read_loop skipAt it =
     (if iValid it then
        (case DecodeMVCCKey (iKey it) of Inl e \<Rightarrow> Inl (KeyError e)
         | Inr (_, vts) \<Rightarrow>
             if \<not> IsEmpty skipAt \<and> Equal vts skipAt then read_loop skipAt (snd (iNext it))
             else read_value (iValue it))
      else Inr None)"
  by pat_completeness auto
termination
  by (relation "measure (\<lambda>(_, it). remaining it)") auto

text \<open>Reading the transaction's own provisional value.\<close>

definition read_own :: "bytes \<Rightarrow> key \<Rightarrow> timestamp \<Rightarrow> iter \<Rightarrow> mvcc_error + nbytes" where
  "read_own metaKey key readAt it =
     (let (ok, it) = SeekPrefixGE (appendVersionSuffix metaKey readAt) it
      in if \<not> ok then Inl (NoProvisionalValue key readAt)
         else case DecodeMVCCKey (iKey it) of Inl e \<Rightarrow> Inl (KeyError e)
              | Inr (_, vts) \<Rightarrow>
                  if \<not> Equal vts readAt then Inl (NoProvisionalValue key readAt)
                  else read_value (iValue it))"

text \<open>The uncertainty check and the newest version at or below the read timestamp.\<close>

definition read_visible ::
  "bytes \<Rightarrow> timestamp \<Rightarrow> timestamp \<Rightarrow> MVCCGetOptions \<Rightarrow> iter \<Rightarrow> mvcc_error + nbytes" where
  "read_visible metaKey skipAt ts opts it =
     res_bind
       (if \<not> IsEmpty (UncertaintyLimit opts) \<and> Less ts (UncertaintyLimit opts) then
          (let (ok, it) = SeekPrefixGE (appendVersionSuffix metaKey (UncertaintyLimit opts)) it
           in if ok then uncertain_loop skipAt ts it else Inr ())
        else Inr ())
       (\<lambda>_. let (ok, it) = SeekPrefixGE (appendVersionSuffix metaKey ts) it
            in if \<not> ok then Inr None else read_loop skipAt it)"

definition mvccGet ::
  "'s deps \<Rightarrow> iter \<Rightarrow> bytes \<Rightarrow> key \<Rightarrow> timestamp \<Rightarrow> MVCCGetOptions \<Rightarrow> mvcc_error + nbytes" where
  "mvccGet E it metaKey key ts opts =
     (let (ok, it) = SeekPrefixGE metaKey it; metaFound = (ok \<and> iKey it = metaKey)
      in res_bind
           (if metaFound then
              (case decodeMeta E (iValue it) of Inl e \<Rightarrow> Inl e
               | Inr meta \<Rightarrow>
                   (case intent_switch opts ts meta of
                      None \<Rightarrow> Inl (WriteIntentError [\<lparr>intKey = key, intTxn = mTxn meta\<rparr>])
                    | Some rs \<Rightarrow> Inr rs))
            else Inr (zero_ts, zero_ts))
           (\<lambda>(readAt, skipAt).
              res_bind
                (if \<not> metaFound \<and> iValid it then
                   (case DecodeMVCCKey (iKey it) of Inl e \<Rightarrow> Inl (KeyError e)
                    | Inr (_, vts) \<Rightarrow> Inr (LessEq vts ts))
                 else Inr False)
                (\<lambda>newest.
                   if newest then read_value (iValue it)
                   else if \<not> IsEmpty readAt then read_own metaKey key readAt it
                   else read_visible metaKey skipAt ts opts it)))"

definition MVCCGet :: "'s deps \<Rightarrow> 's \<Rightarrow> key \<Rightarrow> timestamp \<Rightarrow> MVCCGetOptions \<Rightarrow> mvcc_error + nbytes" where
  "MVCCGet E s key ts opts =
     (let (metaKey, upper) = mvccKeyBounds key
      in mvccGet E (NewIter E s metaKey upper) metaKey key ts opts)"

section \<open>Writes\<close>

definition lift_io :: "io_error + 'a \<Rightarrow> mvcc_error + 'a" where
  "lift_io r = (case r of Inl e \<Rightarrow> Inl (EngineError e) | Inr x \<Rightarrow> Inr x)"

definition lift_ws :: "write_state_error + 'a \<Rightarrow> mvcc_error + 'a" where
  "lift_ws r = (case r of Inl (WIter e) \<Rightarrow> Inl (EngineError e) | Inl (WKey e) \<Rightarrow> Inl (KeyError e)
                | Inr x \<Rightarrow> Inr x)"

definition mvccWriteCommitted ::
  "'s deps \<Rightarrow> key \<Rightarrow> timestamp \<Rightarrow> nbytes \<Rightarrow> bool \<Rightarrow> 's \<Rightarrow> mvcc_error + 's" where
  "mvccWriteCommitted E key ts value tombstone s =
     (let (metaKey, upper) = mvccKeyBounds key
      in res_bind (lift_ws (writeState E s metaKey upper)) (\<lambda>(rawMeta, vts, hasVersion).
           case rawMeta of
             Some raw \<Rightarrow>
               (case decodeMeta E raw of Inl e \<Rightarrow> Inl e
                | Inr meta \<Rightarrow> Inl (WriteIntentError [\<lparr>intKey = key, intTxn = mTxn meta\<rparr>]))
           | None \<Rightarrow>
               if hasVersion \<and> LessEq ts vts then Inl (WriteTooOldError ts (Next vts))
               else lift_io (Batch_Put E (appendVersionSuffix metaKey ts) (encodeMVCCValue value tombstone) s)))"

text \<open>\<open>last_at_or_below\<close> is the loop that looks for the last entry at or below a sequence.\<close>

definition last_at_or_below :: "int \<Rightarrow> IntentValue list \<Rightarrow> nat" where
  "last_at_or_below f history =
     foldl (\<lambda>first (i, e). if sint (ivSequence e) \<le> f then i else first) 0 (enumerate 0 history)"

definition boundedHistory :: "IntentValue list \<Rightarrow> IntentValue \<Rightarrow> 32 word \<Rightarrow> IntentValue list" where
  "boundedHistory prev add floor =
     (if sint floor < 0 then []
      else
        (let n = length prev;
             history = (if n > 0 \<and> ivSequence (prev ! (n - 1)) = ivSequence add then prev[n - 1 := add]
                        else prev @ [add])
         in if floor = 0 then history
            else drop (last_at_or_below (sint (floor - 1)) history) history))"

text \<open>The history a rewrite of the transaction's own intent records.\<close>

definition rewrite_history ::
  "'s deps \<Rightarrow> bytes \<Rightarrow> MVCCMetadata \<Rightarrow> TxnMeta \<Rightarrow> 's \<Rightarrow> mvcc_error + IntentValue list" where
  "rewrite_history E metaKey meta txn s =
     (if Epoch (mTxn meta) = Epoch txn then
        res_bind (lift_io (Batch_Get E s (appendVersionSuffix metaKey (mTimestamp meta)))) (\<lambda>raw.
          case raw of None \<Rightarrow> Inr []
          | Some raw \<Rightarrow>
              (case decodeMVCCValue raw of Inl e \<Rightarrow> Inl (ValueError e)
               | Inr (val, tomb) \<Rightarrow>
                   Inr (boundedHistory (mHistory meta)
                     \<lparr>ivSequence = Sequence (mTxn meta), ivValue = (case val of None \<Rightarrow> [] | Some d \<Rightarrow> d),
                      ivTombstone = tomb\<rparr> (HistoryFloor txn))))
      else Inr [])"

definition mvccWrite ::
  "'s deps \<Rightarrow> key \<Rightarrow> timestamp \<Rightarrow> nbytes \<Rightarrow> bool \<Rightarrow> TxnMeta option \<Rightarrow> 's \<Rightarrow> mvcc_error + 's" where
  "mvccWrite E key ts value tombstone txn s =
     (let (metaKey, upper) = mvccKeyBounds key
      in res_bind (lift_ws (writeState E s metaKey upper)) (\<lambda>(rawMeta, vts, hasVersion).
         res_bind
           (case rawMeta of
              Some raw \<Rightarrow>
                (case decodeMeta E raw of Inl e \<Rightarrow> Inl e
                 | Inr meta \<Rightarrow>
                     (case txn of
                        None \<Rightarrow> Inl (WriteIntentError [\<lparr>intKey = key, intTxn = mTxn meta\<rparr>])
                      | Some t \<Rightarrow>
                          if ID (mTxn meta) \<noteq> ID t then Inl (WriteIntentError [\<lparr>intKey = key, intTxn = mTxn meta\<rparr>])
                          else
                            res_bind (rewrite_history E metaKey meta t s) (\<lambda>history.
                            res_bind (lift_io (Batch_Delete E (appendVersionSuffix metaKey (mTimestamp meta)) s)) (\<lambda>s.
                              Inr (ts, history, s)))))
            | None \<Rightarrow>
                if hasVersion \<and> LessEq ts vts then
                  (if txn \<noteq> None then Inl (WriteTooOldError ts (Next vts)) else Inr (Next vts, [], s))
                else Inr (ts, [], s))
           (\<lambda>(ts, history, s).
              case txn of
                None \<Rightarrow> lift_io (Batch_Put E (appendVersionSuffix metaKey ts) (encodeMVCCValue value tombstone) s)
              | Some t \<Rightarrow>
                  let ts = WriteTimestamp t;
                      meta = \<lparr>mTxn = t, mTimestamp = ts, mHistory = history\<rparr>
                  in res_bind (lift_io (Batch_Put E metaKey (encodeMeta E meta) s)) (\<lambda>s.
                     lift_io (Batch_Put E (appendVersionSuffix metaKey ts) (encodeMVCCValue value tombstone) s)))))"

definition MVCCPut :: "'s deps \<Rightarrow> key \<Rightarrow> timestamp \<Rightarrow> nbytes \<Rightarrow> TxnMeta option \<Rightarrow> 's \<Rightarrow> mvcc_error + 's" where
  "MVCCPut E key ts value txn s = mvccWrite E key ts value False txn s"

definition MVCCDelete :: "'s deps \<Rightarrow> key \<Rightarrow> timestamp \<Rightarrow> TxnMeta option \<Rightarrow> 's \<Rightarrow> mvcc_error + 's" where
  "MVCCDelete E key ts txn s = mvccWrite E key ts None True txn s"

definition MVCCPutCommitted :: "'s deps \<Rightarrow> key \<Rightarrow> timestamp \<Rightarrow> nbytes \<Rightarrow> 's \<Rightarrow> mvcc_error + 's" where
  "MVCCPutCommitted E key ts value s = mvccWriteCommitted E key ts value False s"

definition MVCCDeleteCommitted :: "'s deps \<Rightarrow> key \<Rightarrow> timestamp \<Rightarrow> 's \<Rightarrow> mvcc_error + 's" where
  "MVCCDeleteCommitted E key ts s = mvccWriteCommitted E key ts None True s"

definition MVCCLock :: "'s deps \<Rightarrow> key \<Rightarrow> timestamp \<Rightarrow> nbytes \<Rightarrow> TxnMeta option \<Rightarrow> 's \<Rightarrow> mvcc_error + 's" where
  "MVCCLock E key readTS value txn s =
     (if txn = None then Inl LockWithoutTxn
      else mvccWrite E key (Next readTS) value (value = None) txn s)"

fun rollback_idx :: "IntentValue list \<Rightarrow> 32 word \<Rightarrow> nat \<Rightarrow> nat option" where
  "rollback_idx history seq 0 = None"
| "rollback_idx history seq (Suc i) =
     (if sint (ivSequence (history ! i)) \<le> sint seq then Some i else rollback_idx history seq i)"

definition MVCCRollbackIntent :: "'s deps \<Rightarrow> key \<Rightarrow> uuid \<Rightarrow> 32 word \<Rightarrow> 's \<Rightarrow> mvcc_error + 's" where
  "MVCCRollbackIntent E key txnID seq s =
     (let (metaKey, _) = mvccKeyBounds key
      in res_bind (lift_io (Batch_Get E s metaKey)) (\<lambda>rawMeta.
         case rawMeta of None \<Rightarrow> Inr s
         | Some raw \<Rightarrow>
             res_bind (decodeMeta E raw) (\<lambda>meta.
             if ID (mTxn meta) \<noteq> txnID \<or> sint (Sequence (mTxn meta)) \<le> sint seq then Inr s
             else
               res_bind (lift_io (Batch_Delete E (EncodeMVCCKey key (mTimestamp meta)) s)) (\<lambda>s.
               case rollback_idx (mHistory meta) seq (length (mHistory meta)) of
                 None \<Rightarrow> lift_io (Batch_Delete E metaKey s)
               | Some idx \<Rightarrow>
                   let ent = mHistory meta ! idx;
                       meta = meta\<lparr>mHistory := take idx (mHistory meta),
                                   mTxn := (mTxn meta)\<lparr>Sequence := ivSequence ent\<rparr>\<rparr>
                   in res_bind (lift_io (Batch_Put E metaKey (encodeMeta E meta) s)) (\<lambda>s.
                      lift_io (Batch_Put E (EncodeMVCCKey key (mTimestamp meta))
                        (encodeMVCCValue (Some (ivValue ent)) (ivTombstone ent)) s))))))"

definition MVCCResolveIntent ::
  "'s deps \<Rightarrow> key \<Rightarrow> uuid \<Rightarrow> TxnStatus \<Rightarrow> timestamp \<Rightarrow> 's \<Rightarrow> mvcc_error + 's" where
  "MVCCResolveIntent E key txnID status commitTS s =
     (if status = PENDING then Inl ResolvePending
      else let (metaKey, _) = mvccKeyBounds key
      in res_bind (lift_io (Batch_Get E s metaKey)) (\<lambda>rawMeta.
         case rawMeta of None \<Rightarrow> Inr s
         | Some raw \<Rightarrow>
             res_bind (decodeMeta E raw) (\<lambda>meta.
             if ID (mTxn meta) \<noteq> txnID then Inr s
             else
               res_bind (lift_io (Batch_Delete E metaKey s)) (\<lambda>s.
               let provKey = EncodeMVCCKey key (mTimestamp meta)
               in if status = ABORTED then lift_io (Batch_Delete E provKey s)
                  else if IsEmpty commitTS \<or> Equal commitTS (mTimestamp meta) then Inr s
                  else
                    res_bind (lift_io (Batch_Get E s provKey)) (\<lambda>raw.
                    case raw of None \<Rightarrow> Inl (NoProvisionalValue key (mTimestamp meta))
                    | Some raw \<Rightarrow>
                        res_bind (lift_io (Batch_Delete E provKey s)) (\<lambda>s.
                        lift_io (Batch_Put E (EncodeMVCCKey key commitTS) raw s)))))))"

declare uncertain_loop.simps [simp del] read_loop.simps [simp del]

section \<open>Metadata round trip\<close>

lemma decodeMeta_encodeMeta:
  assumes "codec_ok E" "uuid_ok (ID (mTxn meta))"
  shows "decodeMeta E (encodeMeta E meta) = Inr meta" "encodeMeta E meta \<noteq> []"
proof -
  have json: "jsonUnmarshal E (jsonMarshal E meta) = Inr meta" "\<exists>r. jsonMarshal E meta = open_brace # r"
    using assms by (auto simp: codec_ok_def)
  have "pbTxn (MetadataToProto meta) \<noteq> None" by (simp add: MetadataToProto_def)
  then have proto: "protoUnmarshal E (protoMarshal E (MetadataToProto meta)) = Inr (MetadataToProto meta)"
    "\<exists>b r. protoMarshal E (MetadataToProto meta) = b # r \<and> b \<noteq> open_brace"
    using assms(1) by (auto simp: codec_ok_def)
  show "decodeMeta E (encodeMeta E meta) = Inr meta" "encodeMeta E meta \<noteq> []"
    using json proto Metadata_roundtrip [OF assms(2)] by (auto simp: decodeMeta_def encodeMeta_def)
qed

end
