(* ===== verification/MVCC_Scan.thy ===== *)
theory MVCC_Scan
  imports MVCC
begin

text \<open>
  The range reads of \<^verbatim>\<open>src/pkg/storage/mvcc.go\<close> (forward and reverse scans, the refresh check)
  and of \<^verbatim>\<open>mvcc_export.go\<close>. A scan walks the engine keys of the span, reads each user key
  through \<^verbatim>\<open>mvccScanKey\<close>, and steps on with bounded walks that fall back to seeks.
\<close>

section \<open>Scan results\<close>

record KeyValue =
  kvKey :: key
  kvValue :: nbytes

record ScanResult =
  KVs :: "KeyValue list"
  Resume :: "key option"

abbreviation (input) maxIntentsPerError :: nat where "maxIntentsPerError \<equiv> 16"
abbreviation (input) maxStepsBeforeSeek :: nat where "maxStepsBeforeSeek \<equiv> 8"

section \<open>Moving between user keys\<close>

definition appendMetaKeyOf :: "bytes \<Rightarrow> timestamp \<Rightarrow> bytes" where
  "appendMetaKeyOf engineKey vts =
     (if \<not> IsEmpty vts then take (length engineKey - versionSuffixLen) engineKey else engineKey)"

definition keyPrefixOf :: "bytes \<Rightarrow> bytes \<Rightarrow> bool" where
  "keyPrefixOf engineKey p \<longleftrightarrow> prefix p engineKey"

definition versionOf :: "bytes \<Rightarrow> bytes \<Rightarrow> timestamp" where
  "versionOf engineKey p =
     (let rest = drop (length p) engineKey
      in if length rest \<noteq> versionSuffixLen then zero_ts else suffix_ts rest)"

function stepPastKey_loop :: "key \<Rightarrow> bytes \<Rightarrow> nat \<Rightarrow> iter \<Rightarrow> bool \<times> iter" where
  "stepPastKey_loop cur p steps it =
     (if iValid it then
        if \<not> keyPrefixOf (iKey it) p then (True, it)
        else if steps \<ge> maxStepsBeforeSeek then SeekGE (EncodeMVCCKey (Key_Next cur) zero_ts) it
        else (let (ok, it') = iNext it in if \<not> ok then (False, it') else stepPastKey_loop cur p (steps + 1) it')
      else (False, it))"
  by pat_completeness auto
termination
  by (relation "measure (\<lambda>(_, _, steps, _). 9 - steps)") auto

definition stepPastKey :: "key \<Rightarrow> bytes \<Rightarrow> iter \<Rightarrow> bool \<times> iter" where
  "stepPastKey cur p it = stepPastKey_loop cur p 0 it"

function stepToKeyStart_loop :: "bytes \<Rightarrow> nat \<Rightarrow> iter \<Rightarrow> bool \<times> iter" where
  "stepToKeyStart_loop p steps it =
     (if steps \<ge> maxStepsBeforeSeek then SeekGE p it
      else let (ok, it') = iPrev it
           in if \<not> ok then SeekGE p it'
              else if \<not> keyPrefixOf (iKey it') p then iNext it'
              else stepToKeyStart_loop p (steps + 1) it')"
  by pat_completeness auto
termination
  by (relation "measure (\<lambda>(_, steps, _). 9 - steps)") auto

definition stepToKeyStart :: "bytes \<Rightarrow> iter \<Rightarrow> bool \<times> iter" where
  "stepToKeyStart p it = stepToKeyStart_loop p 0 it"

function stepBeforeKey_loop :: "bytes \<Rightarrow> nat \<Rightarrow> iter \<Rightarrow> bool \<times> iter" where
  "stepBeforeKey_loop p steps it =
     (if steps \<ge> maxStepsBeforeSeek then SeekLT p it
      else let (ok, it') = iPrev it
           in if \<not> ok then (False, it')
              else if \<not> keyPrefixOf (iKey it') p then (True, it')
              else stepBeforeKey_loop p (steps + 1) it')"
  by pat_completeness auto
termination
  by (relation "measure (\<lambda>(_, steps, _). 9 - steps)") auto

definition stepBeforeKey :: "bytes \<Rightarrow> iter \<Rightarrow> bool \<times> iter" where
  "stepBeforeKey p it = stepBeforeKey_loop p 0 it"

section \<open>Reading one key of a scan\<close>

text \<open>The uncertainty walk leaves the iterator where it stopped.\<close>

function scan_uncertain ::
  "bytes \<Rightarrow> timestamp \<Rightarrow> timestamp \<Rightarrow> timestamp \<Rightarrow> iter \<Rightarrow> mvcc_error + iter" where
  "scan_uncertain p skipAt ts limit it =
     (if iValid it then
        if \<not> keyPrefixOf (iKey it) p then Inr it
        else let uvts = versionOf (iKey it) p
             in if LessEq uvts limit \<and> \<not> (\<not> IsEmpty skipAt \<and> Equal uvts skipAt) then
                  (if Less ts uvts then Inl (UncertaintyError ts uvts) else Inr it)
                else scan_uncertain p skipAt ts limit (snd (iNext it))
      else Inr it)"
  by pat_completeness auto
termination
  by (relation "measure (\<lambda>(_, _, _, _, it). remaining it)") auto

text \<open>
  The walk down the version chain. After eight steps it seeks to the read timestamp, which is
  a seek to the metadata key when the read timestamp is empty.
\<close>

primrec scan_versions ::
  "nat \<Rightarrow> key \<Rightarrow> bytes \<Rightarrow> timestamp \<Rightarrow> timestamp \<Rightarrow> nat \<Rightarrow> iter \<Rightarrow> mvcc_error + (nbytes \<times> bool) \<times> iter" where
  "scan_versions 0 cur p skipAt ts steps it = Inl Diverges"
| "scan_versions (Suc fuel) cur p skipAt ts steps it =
     (if iValid it then
        if \<not> keyPrefixOf (iKey it) p then Inr ((None, False), it)
        else let cvts = versionOf (iKey it) p
             in if Less ts cvts \<or> \<not> IsEmpty skipAt \<and> Equal cvts skipAt then
                  (if steps \<ge> maxStepsBeforeSeek
                   then scan_versions fuel cur p skipAt ts 0 (snd (SeekGE (EncodeMVCCKey cur ts) it))
                   else scan_versions fuel cur p skipAt ts (steps + 1) (snd (iNext it)))
                else
                  (case decodeMVCCValue (iValue it) of Inl e \<Rightarrow> Inl (ValueError e)
                   | Inr (data, tombstone) \<Rightarrow>
                       if tombstone then Inr ((None, False), it)
                       else Inr ((clone_nil (case data of None \<Rightarrow> [] | Some d \<Rightarrow> d), True), it))
      else Inr ((None, False), it))"

text \<open>The transaction's own provisional value, if it is there.\<close>

definition scan_own ::
  "key \<Rightarrow> bytes \<Rightarrow> timestamp \<Rightarrow> iter \<Rightarrow> mvcc_error + (nbytes \<times> bool) \<times> iter" where
  "scan_own cur p readAt it =
     (let (ok, it) = SeekGE (EncodeMVCCKey cur readAt) it
      in if ok \<and> keyPrefixOf (iKey it) p \<and> Equal (versionOf (iKey it) p) readAt then
           (case decodeMVCCValue (iValue it) of Inl e \<Rightarrow> Inl (ValueError e)
            | Inr (data, tombstone) \<Rightarrow>
                if tombstone then Inr ((None, False), it)
                else Inr ((clone_nil (case data of None \<Rightarrow> [] | Some d \<Rightarrow> d), True), it))
         else Inr ((None, False), it))"

text \<open>The value, whether it was found, the intents collected and the iterator.\<close>

definition mvccScanKey ::
  "'s deps \<Rightarrow> iter \<Rightarrow> key \<Rightarrow> bytes \<Rightarrow> timestamp \<Rightarrow> MVCCGetOptions \<Rightarrow> Intent list \<Rightarrow>
   mvcc_error + (nbytes \<times> bool) \<times> Intent list \<times> iter" where
  "mvccScanKey E it cur p ts opts intents =
     (let fin = (\<lambda>readAt skipAt it.
            if \<not> IsEmpty readAt then
              res_bind (scan_own cur p readAt it) (\<lambda>(vf, it). Inr (vf, intents, it))
            else
              res_bind
                (if intents = [] \<and> \<not> IsEmpty (UncertaintyLimit opts) \<and> Less ts (UncertaintyLimit opts)
                 then scan_uncertain p skipAt ts (UncertaintyLimit opts) it else Inr it)
                (\<lambda>it. res_bind (scan_versions (length (entries it) + 5) cur p skipAt ts 0 it)
                   (\<lambda>(vf, it). Inr (vf, intents, it))))
      in if IsEmpty (versionOf (iKey it) p) then
           (case decodeMeta E (iValue it) of Inl e \<Rightarrow> Inl e
            | Inr meta \<Rightarrow>
                (case intent_switch opts ts meta of
                   None \<Rightarrow>
                     let intents = intents @ [\<lparr>intKey = cur, intTxn = mTxn meta\<rparr>]
                     in if length intents \<ge> maxIntentsPerError then Inl (WriteIntentError intents)
                        else Inr ((None, False), intents, it)
                 | Some (readAt, skipAt) \<Rightarrow>
                     let (ok, it) = iNext it
                     in if \<not> ok then Inr ((None, False), intents, it) else fin readAt skipAt it))
         else fin zero_ts zero_ts it)"

section \<open>Scans\<close>

text \<open>Whether the row just added ends the page.\<close>

definition page_full :: "int \<Rightarrow> MVCCGetOptions \<Rightarrow> KeyValue list \<Rightarrow> int \<Rightarrow> bool" where
  "page_full maxRows opts kvs nbytes \<longleftrightarrow>
     maxRows > 0 \<and> int (length kvs) = maxRows \<or> TargetBytes opts > 0 \<and> nbytes \<ge> TargetBytes opts"

definition nlen :: "nbytes \<Rightarrow> nat" where
  "nlen v = (case v of None \<Rightarrow> 0 | Some d \<Rightarrow> length d)"

primrec scan_loop ::
  "nat \<Rightarrow> 's deps \<Rightarrow> timestamp \<Rightarrow> int \<Rightarrow> MVCCGetOptions \<Rightarrow> KeyValue list \<Rightarrow> int \<Rightarrow> Intent list \<Rightarrow>
   bool \<times> iter \<Rightarrow> mvcc_error + ScanResult" where
  "scan_loop 0 E ts maxRows opts kvs nb intents oi = Inl Diverges"
| "scan_loop (Suc fuel) E ts maxRows opts kvs nb intents oi =
     (let (ok, it) = oi in
      (if \<not> ok then
         (if intents \<noteq> [] then Inl (WriteIntentError intents) else Inr \<lparr>KVs = kvs, Resume = None\<rparr>)
       else
         (case DecodeMVCCKey (iKey it) of Inl e \<Rightarrow> Inl (KeyError e)
          | Inr (cur, vts) \<Rightarrow>
              let p = appendMetaKeyOf (iKey it) vts
              in res_bind (mvccScanKey E it cur p ts opts intents) (\<lambda>((value, found), intents, it).
                   if found \<and> intents = [] then
                     let kvs = kvs @ [\<lparr>kvKey = cur, kvValue = value\<rparr>];
                         nb = nb + int (length cur + nlen value)
                     in if page_full maxRows opts kvs nb then Inr \<lparr>KVs = kvs, Resume = Some (Key_Next cur)\<rparr>
                        else scan_loop fuel E ts maxRows opts kvs nb intents (stepPastKey cur p it)
                   else scan_loop fuel E ts maxRows opts kvs nb intents (stepPastKey cur p it)))))"

definition MVCCScan ::
  "'s deps \<Rightarrow> 's \<Rightarrow> key \<Rightarrow> key \<Rightarrow> timestamp \<Rightarrow> int \<Rightarrow> MVCCGetOptions \<Rightarrow> mvcc_error + ScanResult" where
  "MVCCScan E s start end' ts maxRows opts =
     (let lower = EncodeMVCCKey start zero_ts; upper = EncodeMVCCKey end' zero_ts;
          it = NewIter E s lower upper
      in scan_loop (length (entries it) + 1) E ts maxRows opts [] 0 [] (SeekGE lower it))"

primrec reverse_loop ::
  "nat \<Rightarrow> 's deps \<Rightarrow> timestamp \<Rightarrow> int \<Rightarrow> MVCCGetOptions \<Rightarrow> KeyValue list \<Rightarrow> int \<Rightarrow> Intent list \<Rightarrow>
   bool \<times> iter \<Rightarrow> mvcc_error + ScanResult" where
  "reverse_loop 0 E ts maxRows opts kvs nb intents oi = Inl Diverges"
| "reverse_loop (Suc fuel) E ts maxRows opts kvs nb intents oi =
     (let (ok, it) = oi in
      (let done = (if intents \<noteq> [] then Inl (WriteIntentError intents) else Inr \<lparr>KVs = kvs, Resume = None\<rparr>)
       in if \<not> ok then done
       else
         (case DecodeMVCCKey (iKey it) of Inl e \<Rightarrow> Inl (KeyError e)
          | Inr (cur, vts) \<Rightarrow>
              let p = appendMetaKeyOf (iKey it) vts; (ok, it) = stepToKeyStart p it
              in if \<not> ok then done
                 else res_bind (mvccScanKey E it cur p ts opts intents) (\<lambda>((value, found), intents, it).
                   if found \<and> intents = [] then
                     let kvs = kvs @ [\<lparr>kvKey = cur, kvValue = value\<rparr>];
                         nb = nb + int (length cur + nlen value)
                     in if page_full maxRows opts kvs nb then Inr \<lparr>KVs = kvs, Resume = Some cur\<rparr>
                        else reverse_loop fuel E ts maxRows opts kvs nb intents (stepBeforeKey p it)
                   else reverse_loop fuel E ts maxRows opts kvs nb intents (stepBeforeKey p it)))))"

definition MVCCReverseScan ::
  "'s deps \<Rightarrow> 's \<Rightarrow> key \<Rightarrow> key \<Rightarrow> timestamp \<Rightarrow> int \<Rightarrow> MVCCGetOptions \<Rightarrow> mvcc_error + ScanResult" where
  "MVCCReverseScan E s start end' ts maxRows opts =
     (let lower = EncodeMVCCKey start zero_ts; upper = EncodeMVCCKey end' zero_ts;
          it = NewIter E s lower upper
      in reverse_loop (length (entries it) + 1) E ts maxRows opts [] 0 [] (SeekLT upper it))"

section \<open>Refresh\<close>

function check_versions ::
  "key \<Rightarrow> timestamp \<Rightarrow> timestamp \<Rightarrow> bool \<times> iter \<Rightarrow> mvcc_error + unit" where
  "check_versions cur skipAt fromTS (ok, it) =
     (if ok \<and> iValid it then
        (case DecodeMVCCKey (iKey it) of Inl e \<Rightarrow> Inl (KeyError e)
         | Inr (k, cvts) \<Rightarrow>
             if k \<noteq> cur then Inr ()
             else if \<not> IsEmpty skipAt \<and> Equal cvts skipAt then check_versions cur skipAt fromTS (iNext it)
             else if Less fromTS cvts then Inl (RefreshFailed cur cvts)
             else Inr ())
      else Inr ())"
  by pat_completeness auto
termination
  by (relation "measure (\<lambda>(_, _, _, oi). remaining (snd oi))") auto

primrec check_loop ::
  "nat \<Rightarrow> 's deps \<Rightarrow> timestamp \<Rightarrow> timestamp \<Rightarrow> uuid \<Rightarrow> bool \<times> iter \<Rightarrow> mvcc_error + unit" where
  "check_loop 0 E fromTS toTS ownTxn oi = Inl Diverges"
| "check_loop (Suc fuel) E fromTS toTS ownTxn oi =
     (let (ok, it) = oi in
      (if \<not> ok then Inr ()
       else
         (case DecodeMVCCKey (iKey it) of Inl e \<Rightarrow> Inl (KeyError e)
          | Inr (cur, vts) \<Rightarrow>
              let rest = (\<lambda>skipAt it.
                    res_bind (check_versions cur skipAt fromTS (SeekGE (EncodeMVCCKey cur toTS) it))
                      (\<lambda>_. check_loop fuel E fromTS toTS ownTxn (SeekGE (EncodeMVCCKey (Key_Next cur) zero_ts) it)))
              in if IsEmpty vts then
                   (case decodeMeta E (iValue it) of Inl e \<Rightarrow> Inl e
                    | Inr meta \<Rightarrow>
                        if ID (mTxn meta) \<noteq> ownTxn then
                          Inl (WriteIntentError [\<lparr>intKey = cur, intTxn = mTxn meta\<rparr>])
                        else let (ok, it) = iNext it
                             in if \<not> ok then Inr () else rest (mTimestamp meta) it)
                 else rest zero_ts it)))"

definition MVCCCheckForWrites ::
  "'s deps \<Rightarrow> 's \<Rightarrow> key \<Rightarrow> key \<Rightarrow> timestamp \<Rightarrow> timestamp \<Rightarrow> uuid \<Rightarrow> mvcc_error + unit" where
  "MVCCCheckForWrites E s start end' fromTS toTS ownTxn =
     (let lower = EncodeMVCCKey start zero_ts; upper = EncodeMVCCKey end' zero_ts;
          it = NewIter E s lower upper
      in check_loop (length (entries it) + 1) E fromTS toTS ownTxn (SeekGE lower it))"

section \<open>Export\<close>

record ExportedRecord =
  erKey :: key
  erValue :: nbytes
  erDeleted :: bool

record ExportResult =
  Records :: "ExportedRecord list"
  erResume :: "key option"

text \<open>
  The newest version of a key at or below the end timestamp, if it lies above the start
  timestamp: the body of the inner loop, which every branch leaves.
\<close>

definition export_version ::
  "key \<Rightarrow> timestamp \<Rightarrow> bool \<times> iter \<Rightarrow> mvcc_error + (nbytes \<times> bool) option" where
  "export_version cur startTS oi =
     (let (ok, it) = oi
      in if \<not> ok then Inr None
         else case DecodeMVCCKey (iKey it) of Inl e \<Rightarrow> Inl (KeyError e)
              | Inr (k, cvts) \<Rightarrow>
                  if k \<noteq> cur then Inr None
                  else if LessEq cvts startTS then Inr None
                  else (case decodeMVCCValue (iValue it) of Inl e \<Rightarrow> Inl (ValueError e)
                        | Inr (data, tombstone) \<Rightarrow> Inr (Some (data, tombstone))))"

primrec export_loop ::
  "nat \<Rightarrow> 's deps \<Rightarrow> timestamp \<Rightarrow> timestamp \<Rightarrow> int \<Rightarrow> ExportedRecord list \<Rightarrow> Intent list \<Rightarrow>
   bool \<times> iter \<Rightarrow> mvcc_error + ExportResult" where
  "export_loop 0 E startTS endTS maxRows recs intents oi = Inl Diverges"
| "export_loop (Suc fuel) E startTS endTS maxRows recs intents oi =
     (let (ok, it) = oi in
      (if \<not> ok then
         (if intents \<noteq> [] then Inl (WriteIntentError intents) else Inr \<lparr>Records = recs, erResume = None\<rparr>)
       else
         (case DecodeMVCCKey (iKey it) of Inl e \<Rightarrow> Inl (KeyError e)
          | Inr (cur, vts) \<Rightarrow>
              let next = (\<lambda>recs intents.
                    export_loop fuel E startTS endTS maxRows recs intents (SeekGE (EncodeMVCCKey (Key_Next cur) zero_ts) it));
                  read = res_bind (export_version cur startTS (SeekGE (EncodeMVCCKey cur endTS) it)) (\<lambda>found.
                    case found of
                      Some (data, tombstone) \<Rightarrow>
                        if intents = [] then
                          let recs = recs @ [\<lparr>erKey = cur,
                                erValue = (if tombstone then None
                                  else clone_nil (case data of None \<Rightarrow> [] | Some d \<Rightarrow> d)),
                                erDeleted = tombstone\<rparr>]
                          in if maxRows > 0 \<and> int (length recs) = maxRows
                             then Inr \<lparr>Records = recs, erResume = Some (Key_Next cur)\<rparr>
                             else next recs intents
                        else next recs intents
                    | None \<Rightarrow> next recs intents)
              in if IsEmpty vts then
                   (case decodeMeta E (iValue it) of Inl e \<Rightarrow> Inl e
                    | Inr meta \<Rightarrow>
                        if \<not> Less endTS (mTimestamp meta) then
                          let intents = intents @ [\<lparr>intKey = cur, intTxn = mTxn meta\<rparr>]
                          in if length intents \<ge> maxIntentsPerError then Inl (WriteIntentError intents)
                             else next recs intents
                        else read)
                 else read)))"

definition MVCCExport ::
  "'s deps \<Rightarrow> 's \<Rightarrow> key \<Rightarrow> key \<Rightarrow> timestamp \<Rightarrow> timestamp \<Rightarrow> int \<Rightarrow> mvcc_error + ExportResult" where
  "MVCCExport E s start end' startTS endTS maxRows =
     (let lower = EncodeMVCCKey start zero_ts; upper = EncodeMVCCKey end' zero_ts;
          it = NewIter E s lower upper
      in export_loop (length (entries it) + 1) E startTS endTS maxRows [] [] (SeekGE lower it))"

declare stepPastKey_loop.simps [simp del] stepToKeyStart_loop.simps [simp del]
  stepBeforeKey_loop.simps [simp del] scan_uncertain.simps [simp del] check_versions.simps [simp del]

end
