(* ===== verification/MVCC_Get.thy ===== *)
theory MVCC_Get
  imports MVCC
begin

text \<open>
  What a point read returns, in terms of a key's intent and its versions, and the proof that
  \<^verbatim>\<open>MVCCGet\<close> (iterator seeks, the fast path for the newest version, prefix mode) computes it.
\<close>

section \<open>The specification of a read\<close>

definition skipped :: "timestamp \<Rightarrow> timestamp \<Rightarrow> bool" where
  "skipped skipAt t \<longleftrightarrow> skipAt \<noteq> zero_ts \<and> t = skipAt"

text \<open>The newest version at or below a timestamp that is not skipped.\<close>

definition newest_at :: "timestamp \<Rightarrow> timestamp \<Rightarrow> (timestamp \<times> bytes) list \<Rightarrow> (timestamp \<times> bytes) option" where
  "newest_at skipAt t vs = find (\<lambda>(u, _). u \<le> t \<and> \<not> skipped skipAt u) vs"

text \<open>The version that makes a read uncertain, if any.\<close>

definition uncertain_at ::
  "timestamp \<Rightarrow> timestamp \<Rightarrow> timestamp \<Rightarrow> (timestamp \<times> bytes) list \<Rightarrow> timestamp option" where
  "uncertain_at skipAt ts limit vs =
     (if limit \<noteq> zero_ts \<and> ts < limit then
        (case newest_at skipAt limit vs of
           Some (u, _) \<Rightarrow> if ts < u then Some u else None
         | None \<Rightarrow> None)
      else None)"

definition visible_spec ::
  "timestamp \<Rightarrow> timestamp \<Rightarrow> timestamp \<Rightarrow> (timestamp \<times> bytes) list \<Rightarrow> mvcc_error + nbytes" where
  "visible_spec skipAt ts limit vs =
     (case uncertain_at skipAt ts limit vs of
        Some u \<Rightarrow> Inl (UncertaintyError ts u)
      | None \<Rightarrow> (case newest_at skipAt ts vs of None \<Rightarrow> Inr None | Some (_, v) \<Rightarrow> read_value v))"

definition own_spec :: "key \<Rightarrow> timestamp \<Rightarrow> (timestamp \<times> bytes) list \<Rightarrow> mvcc_error + nbytes" where
  "own_spec key readAt vs =
     (case map_of vs readAt of None \<Rightarrow> Inl (NoProvisionalValue key readAt) | Some v \<Rightarrow> read_value v)"

definition get_spec ::
  "'s deps \<Rightarrow> key \<Rightarrow> bytes option \<Rightarrow> (timestamp \<times> bytes) list \<Rightarrow> timestamp \<Rightarrow> MVCCGetOptions \<Rightarrow>
   mvcc_error + nbytes" where
  "get_spec E key m vs ts opts =
     (case m of
        None \<Rightarrow> visible_spec zero_ts ts (UncertaintyLimit opts) vs
      | Some raw \<Rightarrow>
          res_bind (decodeMeta E raw) (\<lambda>meta.
            case intent_switch opts ts meta of
              None \<Rightarrow> Inl (WriteIntentError [\<lparr>intKey = key, intTxn = mTxn meta\<rparr>])
            | Some (readAt, skipAt) \<Rightarrow>
                if readAt \<noteq> zero_ts then own_spec key readAt vs
                else visible_spec skipAt ts (UncertaintyLimit opts) vs))"

text \<open>A version in the store's contents, and the newest one at or below a timestamp.\<close>

definition version_at :: "contents \<Rightarrow> key \<Rightarrow> timestamp \<Rightarrow> bytes option" where
  "version_at c k t = (if ts_ok t \<and> t \<noteq> zero_ts then c (ver_key k t) else None)"

definition versions_of :: "contents \<Rightarrow> key \<Rightarrow> (timestamp \<times> bytes) list \<Rightarrow> bool" where
  "versions_of c k vs \<longleftrightarrow> vers_ok vs \<and> (\<forall>t v. (t, v) \<in> set vs \<longleftrightarrow> version_at c k t = Some v)"

definition is_newest ::
  "contents \<Rightarrow> key \<Rightarrow> timestamp \<Rightarrow> timestamp \<Rightarrow> (timestamp \<times> bytes) option \<Rightarrow> bool" where
  "is_newest c k skipAt ts r \<longleftrightarrow>
     (case r of
        None \<Rightarrow> \<forall>u \<le> ts. \<not> skipped skipAt u \<longrightarrow> version_at c k u = None
      | Some (t, v) \<Rightarrow> t \<le> ts \<and> \<not> skipped skipAt t \<and> version_at c k t = Some v \<and>
          (\<forall>u. t < u \<and> u \<le> ts \<and> \<not> skipped skipAt u \<longrightarrow> version_at c k u = None))"

text \<open>The engine keys under a user key's metadata key are that key and proper versions.\<close>

definition key_ok :: "contents \<Rightarrow> key \<Rightarrow> bool" where
  "key_ok c k \<longleftrightarrow>
     (\<forall>r. c (meta_key k @ r) \<noteq> None \<longrightarrow> r = [] \<or> (\<exists>t. ts_ok t \<and> t \<noteq> zero_ts \<and> r = version_suffix t))"

section \<open>The loops\<close>

lemma read_loop_at:
  "iat it A (ver_entries k ws) \<Longrightarrow>
   read_loop skipAt it =
     (case find (\<lambda>(u, _). \<not> skipped skipAt u) ws of None \<Rightarrow> Inr None | Some (_, v) \<Rightarrow> read_value v)"
proof (induction ws arbitrary: it A)
  case Nil
  then show ?case using iat_valid [of it A "[]"] by (subst read_loop.simps) simp
next
  case (Cons x ws)
  obtain u v where x: "x = (u, v)" by (cases x)
  with Cons.prems have at: "iat it A ((ver_key k u, v) # ver_entries k ws)" by simp
  show ?case
    using iat_valid [OF at] iat_key [OF at] Cons.IH [OF iat_next(2) [OF at]] x
    by (subst read_loop.simps) (simp add: skipped_def)
qed

lemma uncertain_loop_at:
  "iat it A (ver_entries k ws) \<Longrightarrow>
   uncertain_loop skipAt ts it =
     (case find (\<lambda>(u, _). \<not> skipped skipAt u) ws of None \<Rightarrow> Inr ()
      | Some (u, _) \<Rightarrow> if ts < u then Inl (UncertaintyError ts u) else Inr ())"
proof (induction ws arbitrary: it A)
  case Nil
  then show ?case using iat_valid [of it A "[]"] by (subst uncertain_loop.simps) simp
next
  case (Cons x ws)
  obtain u v where x: "x = (u, v)" by (cases x)
  with Cons.prems have at: "iat it A ((ver_key k u, v) # ver_entries k ws)" by simp
  show ?case
    using iat_valid [OF at] iat_key [OF at] Cons.IH [OF iat_next(2) [OF at]] x
    by (subst uncertain_loop.simps) (simp add: skipped_def)
qed

section \<open>Seeks on a key's iterator\<close>

text \<open>The iterator of one user key: its entries, in or out of prefix mode.\<close>

definition key_iter :: "key \<Rightarrow> bytes option \<Rightarrow> (timestamp \<times> bytes) list \<Rightarrow> iter \<Rightarrow> bool" where
  "key_iter k m vs it \<longleftrightarrow> entries it = meta_entries k m @ ver_entries k vs \<and> vers_ok vs \<and>
     (pmode it \<longrightarrow> \<not> Keys.IsLocal k)"

lemma key_iter_prefix:
  assumes "key_iter k m vs it" "pmode it"
  shows "\<forall>e \<in> set (entries it). split_prefix (fst e) = split_prefix (meta_key k @ r)"
proof
  fix e assume "e \<in> set (entries it)"
  with assms obtain r' where "fst e = meta_key k @ r'" "\<not> Keys.IsLocal k"
    using seg_entries_prefix [of e k m vs] by (auto simp: key_iter_def)
  then show "split_prefix (fst e) = split_prefix (meta_key k @ r)" by (simp add: split_prefix_meta)
qed

lemma key_iter_seek_version:
  assumes "key_iter k m vs it" "ts_ok t"
  defines "A \<equiv> meta_entries k m @ ver_entries k (takeWhile (\<lambda>(u, _). t < u) vs)"
    and "ws \<equiv> dropWhile (\<lambda>(u, _). t < u) vs"
  shows "fst (SeekPrefixGE (appendVersionSuffix (meta_key k) t) it) \<longleftrightarrow> ws \<noteq> []"
    "iat (snd (SeekPrefixGE (appendVersionSuffix (meta_key k) t) it)) A (ver_entries k ws)"
    "key_iter k m vs (snd (SeekPrefixGE (appendVersionSuffix (meta_key k) t) it))"
proof -
  have vs: "vers_ok vs" and es: "entries it = A @ ver_entries k ws"
    using assms(1) seek_split(1) [OF _ assms(2), of vs k m] by (auto simp: key_iter_def A_def ws_def)
  have pm: "pmode it \<Longrightarrow> \<forall>e \<in> set (A @ ver_entries k ws). split_prefix (fst e) = split_prefix (ver_key k t)"
    using key_iter_prefix [OF assms(1), of "version_suffix t"] unfolding es by simp
  note seek = iat_seek_prefix [OF es, of "ver_key k t", OF _ _ pm]
  have "\<forall>a \<in> set A. fst a < ver_key k t" "ver_entries k ws = [] \<or> \<not> fst (hd (ver_entries k ws)) < ver_key k t"
    unfolding A_def ws_def using seek_split(2,3) [OF vs assms(2)] by blast+
  note s = seek [OF this]
  show "fst (SeekPrefixGE (appendVersionSuffix (meta_key k) t) it) \<longleftrightarrow> ws \<noteq> []"
    "iat (snd (SeekPrefixGE (appendVersionSuffix (meta_key k) t) it)) A (ver_entries k ws)"
    unfolding appendVersionSuffix_def using s by simp_all
  show "key_iter k m vs (snd (SeekPrefixGE (appendVersionSuffix (meta_key k) t) it))"
    unfolding appendVersionSuffix_def
    using iat_entries [OF s(2)] s(3) assms(1) es by (simp add: key_iter_def)
qed

lemma key_iter_seek_meta:
  assumes "key_iter k m vs it"
  shows "fst (SeekPrefixGE (meta_key k) it) \<longleftrightarrow> entries it \<noteq> []"
    "iat (snd (SeekPrefixGE (meta_key k) it)) [] (meta_entries k m @ ver_entries k vs)"
    "key_iter k m vs (snd (SeekPrefixGE (meta_key k) it))"
proof -
  have es: "entries it = [] @ (meta_entries k m @ ver_entries k vs)" using assms by (simp add: key_iter_def)
  have pm: "pmode it \<Longrightarrow> \<forall>e \<in> set ([] @ (meta_entries k m @ ver_entries k vs)). split_prefix (fst e) = split_prefix (meta_key k)"
    using key_iter_prefix [OF assms, of "[]"] es by simp
  have "meta_entries k m @ ver_entries k vs = [] \<or> \<not> fst (hd (meta_entries k m @ ver_entries k vs)) < meta_key k"
    by (cases m; cases vs) auto
  note s = iat_seek_prefix [OF es, of "meta_key k", OF _ this pm]
  show "fst (SeekPrefixGE (meta_key k) it) \<longleftrightarrow> entries it \<noteq> []"
    "iat (snd (SeekPrefixGE (meta_key k) it)) [] (meta_entries k m @ ver_entries k vs)"
    using s es by simp_all
  show "key_iter k m vs (snd (SeekPrefixGE (meta_key k) it))"
    using iat_entries [OF s(2)] s(3) assms by (simp add: key_iter_def)
qed

lemma read_own_spec:
  assumes "key_iter k m vs it" "ts_ok t"
  shows "read_own (meta_key k) k t it = own_spec k t vs"
proof -
  let ?ws = "dropWhile (\<lambda>(u, _). t < u) vs"
  note seek = key_iter_seek_version [OF assms]
  have vs: "vers_ok vs" using assms(1) by (simp add: key_iter_def)
  note find = map_of_dropWhile [OF vs, of t]
  obtain ok it' where s: "SeekPrefixGE (appendVersionSuffix (meta_key k) t) it = (ok, it')" by fastforce
  show ?thesis
  proof (cases ?ws)
    case Nil
    then show ?thesis using seek s find by (simp add: read_own_def own_spec_def del: dropWhile_eq_Nil_conv)
  next
    case (Cons x ws)
    obtain u v where x: "x = (u, v)" by (cases x)
    with Cons seek s have ok: "ok" and at: "iat it' (meta_entries k m @ ver_entries k (takeWhile (\<lambda>(u, _). t < u) vs))
        ((ver_key k u, v) # ver_entries k ws)" by auto
    show ?thesis using s ok iat_key [OF at] find Cons x by (simp add: read_own_def own_spec_def)
  qed
qed

lemma read_visible_spec:
  assumes "key_iter k m vs it" "ts_ok ts" "ts_ok (UncertaintyLimit opts)"
  shows "read_visible (meta_key k) skipAt ts opts it = visible_spec skipAt ts (UncertaintyLimit opts) vs"
proof -
  let ?lim = "UncertaintyLimit opts"
  have vs: "vers_ok vs" using assms(1) by (simp add: key_iter_def)
  have newest: "newest_at skipAt t vs = find (\<lambda>(u, _). \<not> skipped skipAt u) (dropWhile (\<lambda>(u, _). t < u) vs)" for t
    unfolding newest_at_def by (rule find_dropWhile [OF vs])
  obtain ok1 it1 where s1: "SeekPrefixGE (appendVersionSuffix (meta_key k) ?lim) it = (ok1, it1)" by fastforce
  obtain ok2 it2 where s2: "SeekPrefixGE (appendVersionSuffix (meta_key k) ts) it = (ok2, it2)" by fastforce
  note seek1 = key_iter_seek_version [OF assms(1,3), unfolded s1 fst_conv snd_conv]
  note seek2 = key_iter_seek_version [OF assms(1,2), unfolded s2 fst_conv snd_conv]
  have unc: "(if ok1 then uncertain_loop skipAt ts it1 else Inr ()) =
      (case newest_at skipAt ?lim vs of None \<Rightarrow> Inr () | Some (u, _) \<Rightarrow> if ts < u then Inl (UncertaintyError ts u) else Inr ())"
    using seek1(1) uncertain_loop_at [OF seek1(2), of skipAt ts] by (cases ok1) (simp_all add: newest del: dropWhile_eq_Nil_conv)
  have rd: "(if \<not> ok2 then Inr None else read_loop skipAt it2) =
      (case newest_at skipAt ts vs of None \<Rightarrow> Inr None | Some (_, v) \<Rightarrow> read_value v)"
    using seek2(1) read_loop_at [OF seek2(2), of skipAt] by (cases ok2) (simp_all add: newest del: dropWhile_eq_Nil_conv)
  show ?thesis
    unfolding read_visible_def s1 s2 Let_def prod.case unc rd visible_spec_def uncertain_at_def
    by (auto split: option.splits)
qed

lemma mvccGet_spec:
  assumes it: "key_iter k m vs it" and ts: "ts_ok ts" "ts_ok (UncertaintyLimit opts)"
    and meta: "\<And>raw meta. m = Some raw \<Longrightarrow> decodeMeta E raw = Inr meta \<Longrightarrow> ts_ok (mTimestamp meta)"
  shows "mvccGet E it (meta_key k) k ts opts = get_spec E k m vs ts opts"
proof -
  obtain ok it1 where s: "SeekPrefixGE (meta_key k) it = (ok, it1)" by fastforce
  note seek = key_iter_seek_meta [OF it, unfolded s fst_conv snd_conv]
  have vs: "vers_ok vs" and es: "entries it = meta_entries k m @ ver_entries k vs"
    using it by (simp_all add: key_iter_def)
  show ?thesis
  proof (cases m)
    case (Some raw)
    with seek es have at: "iat it1 [] ((meta_key k, raw) # ver_entries k vs)" and ok: ok by auto
    have "ts_ok readAt" if "decodeMeta E raw = Inr meta" "intent_switch opts ts meta = Some (readAt, skipAt)" for meta readAt skipAt
      using meta [OF Some that(1)] that(2) by (auto simp: intent_switch_def ts_ok_def zero_ts_def split: if_splits)
    then show ?thesis
      using s ok iat_key [OF at] Some read_own_spec [OF seek(3)] read_visible_spec [OF seek(3) ts]
      by (auto simp: mvccGet_def get_spec_def res_bind_def split: sum.splits option.splits)
  next
    case None
    note m = this
    show ?thesis
    proof (cases vs)
      case Nil
      with seek None es have "\<not> ok" "\<not> iValid it1" using iat_valid [of it1 "[]" "[]"] by auto
      then show ?thesis
        using s None read_visible_spec [OF seek(3) ts] by (simp add: mvccGet_def get_spec_def)
    next
      case (Cons x ws)
      obtain u v where x: "x = (u, v)" by (cases x)
      with Cons None seek es have at: "iat it1 [] ((ver_key k u, v) # ver_entries k ws)" and ok: ok by auto
      have fast: "u \<le> ts \<Longrightarrow> visible_spec zero_ts ts (UncertaintyLimit opts) vs = read_value v"
        using Cons x by (auto simp: visible_spec_def uncertain_at_def newest_at_def skipped_def)
      show ?thesis
        using s ok iat_key [OF at] iat_valid [OF at] None fast read_visible_spec [OF seek(3) ts]
        by (simp add: mvccGet_def get_spec_def)
    qed
  qed
qed

section \<open>From the store's contents\<close>

lemma find_newest:
  "vers_ok vs \<Longrightarrow> find (\<lambda>(u, _). P u) vs = Some (t, v) \<Longrightarrow>
   (t, v) \<in> set vs \<and> P t \<and> (\<forall>(u, w) \<in> set vs. t < u \<longrightarrow> \<not> P u)"
proof (induction vs)
  case (Cons x vs)
  obtain u w where x: "x = (u, w)" by (cases x)
  show ?case
  proof (cases "P u")
    case True
    with Cons x have "t = u" "v = w" by auto
    with True x Cons.prems(1) show ?thesis by (auto simp: vers_ok_Cons)
  next
    case False
    with Cons x show ?thesis by (auto simp: vers_ok_Cons)
  qed
qed simp

lemma versions_of_newest:
  assumes "versions_of c k vs"
  shows "is_newest c k skipAt ts (newest_at skipAt ts vs)"
proof -
  have ok: "vers_ok vs" and iff: "\<And>t v. (t, v) \<in> set vs \<longleftrightarrow> version_at c k t = Some v"
    using assms by (auto simp: versions_of_def)
  show ?thesis
  proof (cases "newest_at skipAt ts vs")
    case None
    then have no: "\<not> (u \<le> ts \<and> \<not> skipped skipAt u)" if "(u, v) \<in> set vs" for u v
      using that by (auto simp: newest_at_def find_None_iff)
    have "version_at c k u = None" if "u \<le> ts" "\<not> skipped skipAt u" for u
      using no [of u] iff [of u] that by (cases "version_at c k u") auto
    with None show ?thesis by (simp add: is_newest_def)
  next
    case (Some r)
    obtain t v where r: "r = (t, v)" by (cases r)
    from find_newest [OF ok, of "\<lambda>u. u \<le> ts \<and> \<not> skipped skipAt u" t v] Some r
    have f: "(t, v) \<in> set vs" "t \<le> ts" "\<not> skipped skipAt t"
      and above: "\<And>u w. (u, w) \<in> set vs \<Longrightarrow> t < u \<Longrightarrow> \<not> (u \<le> ts \<and> \<not> skipped skipAt u)"
      unfolding newest_at_def by auto
    have "version_at c k u = None" if "t < u" "u \<le> ts" "\<not> skipped skipAt u" for u
      using above [of u] iff [of u] that by (cases "version_at c k u") auto
    with f Some r iff show ?thesis by (simp add: is_newest_def)
  qed
qed

lemma is_newest_unique:
  assumes "is_newest c k skipAt ts r" "is_newest c k skipAt ts r'"
  shows "r = r'"
proof -
  have *: "t = t' \<and> v = v'"
    if "is_newest c k skipAt ts (Some (t, v))" "is_newest c k skipAt ts (Some (t', v'))" for t v t' v'
    using that by (cases t t' rule: linorder_cases) (auto simp: is_newest_def)
  show ?thesis
  proof (cases r; cases r')
    fix a b assume "r = Some a" "r' = Some b"
    with assms * show ?thesis by (cases a; cases b) auto
  qed (use assms in \<open>auto simp: is_newest_def\<close>)
qed

text \<open>The entries of a key's bounds, as a metadata entry and versions.\<close>

lemma key_view:
  assumes "sorted_wrt (<) (map fst es)"
    and iff: "\<And>x v. (x, v) \<in> set es \<longleftrightarrow> in_span x (mvccKeyBounds k) \<and> c x = Some v"
    and "key_ok c k"
  obtains vs where "es = meta_entries k (c (meta_key k)) @ ver_entries k vs" "versions_of c k vs"
proof -
  have pre: "\<exists>r. x = meta_key k @ r \<and> c x = Some v" if "(x, v) \<in> set es" for x v
    using that by (simp only: iff mvccKeyBounds_span) simp
  have eng: "\<forall>e \<in> set es. engine_key (fst e)"
  proof
    fix e assume "e \<in> set es"
    then obtain r where r: "fst e = meta_key k @ r" "c (meta_key k @ r) \<noteq> None"
      using pre [of "fst e" "snd e"] by auto
    with assms(3) have "r = [] \<or> (\<exists>t. ts_ok t \<and> t \<noteq> zero_ts \<and> r = version_suffix t)"
      by (simp add: key_ok_def)
    with r show "engine_key (fst e)" by (auto simp: engine_key_def)
  qed
  from view_exists [OF assms(1) eng] obtain gs where gs: "view_ok gs" "es = view_entries gs"
    by (elim exE conjE)
  have all_k: "skey g = k" if "g \<in> set gs" for g
  proof -
    have "seg_ok g" using gs(1) that by (auto simp: view_ok_def list_all_iff)
    then obtain e where e: "e \<in> set (seg_entries g)" by (cases "seg_entries g") (auto simp: seg_ok_def)
    with gs(2) that have "e \<in> set es" by (auto simp: view_entries_def)
    then obtain r where r: "fst e = meta_key k @ r" using pre [of "fst e" "snd e"] by auto
    from e \<open>seg_ok g\<close> show ?thesis
    proof (cases rule: seg_entries_cases)
      case 1
      with r show ?thesis using byt.prefix_free [of "skey g" "[]" k r] by simp
    next
      case (2 t)
      with r show ?thesis using byt.prefix_free [of "skey g" "version_suffix t" k r] by simp
    qed
  qed
  have "\<exists>m vs. es = meta_entries k m @ ver_entries k vs \<and> vers_ok vs"
  proof (cases gs)
    case Nil
    then show ?thesis using gs by (intro exI [of _ None] exI [of _ "[]"]) (simp add: vers_ok_def)
  next
    case (Cons g gs')
    have "gs' = []"
    proof (rule ccontr)
      assume "gs' \<noteq> []"
      then obtain h where h: "h \<in> set gs'" using hd_in_set by blast
      with gs(1) Cons have "skey g < skey h" by (simp add: view_ok_Cons)
      moreover have "skey g = k" "skey h = k" using all_k [of g] all_k [of h] h Cons by simp_all
      ultimately show False by simp
    qed
    with Cons gs all_k [of g] show ?thesis
      by (intro exI [of _ "smeta g"] exI [of _ "svers g"])
        (auto simp: view_ok_Cons seg_ok_def seg_entries_def)
  qed
  then obtain m vs where es: "es = meta_entries k m @ ver_entries k vs" and ok: "vers_ok vs"
    by (elim exE conjE)
  have mem: "(meta_key k @ r, v) \<in> set es \<longleftrightarrow> c (meta_key k @ r) = Some v" for r v
    using iff [of "meta_key k @ r" v] mvccKeyBounds_span [of "meta_key k @ r" k] by auto
  have "(meta_key k, v) \<in> set es \<longleftrightarrow> m = Some v" for v
    unfolding es by (cases m) (auto simp: set_ver_entries)
  then have "m = Some v \<longleftrightarrow> c (meta_key k) = Some v" for v using mem [of "[]" v] by simp
  then have "m = c (meta_key k)" by (metis option.exhaust)
  moreover have "(t, v) \<in> set vs \<longleftrightarrow> version_at c k t = Some v" for t v
  proof -
    have "(ver_key k t, v) \<in> set es \<longleftrightarrow> (t, v) \<in> set vs"
      using es by (cases m) (auto simp: set_ver_entries)
    moreover have "(t, v) \<in> set vs \<Longrightarrow> ts_ok t \<and> t \<noteq> zero_ts" using ok by (auto simp: vers_ok_def)
    ultimately show ?thesis using mem [of "version_suffix t" v] by (auto simp: version_at_def)
  qed
  ultimately show thesis using that es ok by (simp add: versions_of_def)
qed

lemma pebble_iter:
  assumes "pebble_ok E c"
  obtains es where "pIter E s lo hi = Inr es" "sorted_wrt (<) (map fst es)"
    "\<And>x v. (x, v) \<in> set es \<longleftrightarrow> lo \<le> x \<and> x < hi \<and> c s x = Some v"
proof -
  have "\<exists>es. pIter E s lo hi = Inr es \<and> sorted_wrt (<) (map fst es) \<and>
      (\<forall>x v. (x, v) \<in> set es \<longleftrightarrow> lo \<le> x \<and> x < hi \<and> c s x = Some v)"
    using assms by (simp add: pebble_ok_def)
  then show thesis using that by (elim exE conjE) simp
qed

lemma key_NewIter:
  assumes "pebble_ok E c" "key_ok (c s) k" "prefixBloom E \<longrightarrow> \<not> Keys.IsLocal k"
  obtains es vs where "pIter E s (meta_key k) (snd (mvccKeyBounds k)) = Inr es"
    "es = meta_entries k (c s (meta_key k)) @ ver_entries k vs" "versions_of (c s) k vs"
    "key_iter k (c s (meta_key k)) vs (iter_over (prefixBloom E) es)"
proof -
  obtain es where es: "pIter E s (meta_key k) (snd (mvccKeyBounds k)) = Inr es"
    "sorted_wrt (<) (map fst es)"
    "\<And>x v. (x, v) \<in> set es \<longleftrightarrow> meta_key k \<le> x \<and> x < snd (mvccKeyBounds k) \<and> c s x = Some v"
    by (rule pebble_iter [OF assms(1)]) (rule that)
  from es(3) have iff: "(x, v) \<in> set es \<longleftrightarrow> in_span x (mvccKeyBounds k) \<and> c s x = Some v" for x v
    by (simp add: in_span_def mvccKeyBounds_eq)
  obtain vs where vs: "es = meta_entries k (c s (meta_key k)) @ ver_entries k vs" "versions_of (c s) k vs"
    by (rule key_view [OF es(2) iff assms(2)])
  have "key_iter k (c s (meta_key k)) vs (iter_over (prefixBloom E) es)"
    using vs assms(3) by (simp add: key_iter_def iter_over_def versions_of_def)
  from that [OF es(1) vs this] show thesis .
qed

text \<open>
  The metadata the store holds is what \<^verbatim>\<open>encodeMeta\<close> wrote, with a proper timestamp; the
  intent it stands for.
\<close>

definition meta_ok :: "'s deps \<Rightarrow> contents \<Rightarrow> key \<Rightarrow> bool" where
  "meta_ok E c k \<longleftrightarrow>
     (\<forall>raw. c (meta_key k) = Some raw \<longrightarrow>
        (\<exists>meta. raw = encodeMeta E meta \<and> uuid_ok (ID (mTxn meta)) \<and>
           ts_ok (mTimestamp meta) \<and> mTimestamp meta \<noteq> zero_ts))"

definition intent_of :: "'s deps \<Rightarrow> contents \<Rightarrow> key \<Rightarrow> MVCCMetadata option" where
  "intent_of E c k =
     (case c (meta_key k) of None \<Rightarrow> None
      | Some raw \<Rightarrow> (case decodeMeta E raw of Inl _ \<Rightarrow> None | Inr meta \<Rightarrow> Some meta))"

lemma intent_of_None: "codec_ok E \<Longrightarrow> meta_ok E c k \<Longrightarrow> intent_of E c k = None \<longleftrightarrow> c (meta_key k) = None"
  by (cases "c (meta_key k)") (auto simp: intent_of_def meta_ok_def decodeMeta_encodeMeta)

lemma intent_of_Some:
  assumes "codec_ok E" "meta_ok E c k" "intent_of E c k = Some meta"
  shows "c (meta_key k) = Some (encodeMeta E meta)" "decodeMeta E (encodeMeta E meta) = Inr meta"
    "encodeMeta E meta \<noteq> []" "uuid_ok (ID (mTxn meta))" "ts_ok (mTimestamp meta)" "mTimestamp meta \<noteq> zero_ts"
proof -
  obtain raw where raw: "c (meta_key k) = Some raw" using assms(3) by (auto simp: intent_of_def split: option.splits)
  with assms(2) obtain m where m: "raw = encodeMeta E m" "uuid_ok (ID (mTxn m))" "ts_ok (mTimestamp m)"
    "mTimestamp m \<noteq> zero_ts" by (auto simp: meta_ok_def)
  note d = decodeMeta_encodeMeta [OF assms(1) m(2)]
  have "m = meta" using assms(3) raw m(1) d(1) by (simp add: intent_of_def)
  with raw m d show "c (meta_key k) = Some (encodeMeta E meta)" "decodeMeta E (encodeMeta E meta) = Inr meta"
    "encodeMeta E meta \<noteq> []" "uuid_ok (ID (mTxn meta))" "ts_ok (mTimestamp meta)" "mTimestamp meta \<noteq> zero_ts"
    by simp_all
qed

text \<open>The specification of a read, over the store's contents.\<close>

definition read_spec ::
  "'s deps \<Rightarrow> contents \<Rightarrow> key \<Rightarrow> (timestamp \<times> bytes) list \<Rightarrow> timestamp \<Rightarrow> MVCCGetOptions \<Rightarrow> mvcc_error + nbytes" where
  "read_spec E c k vs ts opts =
     (case intent_of E c k of
        None \<Rightarrow> visible_spec zero_ts ts (UncertaintyLimit opts) vs
      | Some meta \<Rightarrow>
          (case intent_switch opts ts meta of
             None \<Rightarrow> Inl (WriteIntentError [\<lparr>intKey = k, intTxn = mTxn meta\<rparr>])
           | Some (readAt, skipAt) \<Rightarrow>
               if readAt \<noteq> zero_ts then own_spec k readAt vs
               else visible_spec skipAt ts (UncertaintyLimit opts) vs))"

definition healthy :: "'s deps \<Rightarrow> ('s \<Rightarrow> contents) \<Rightarrow> bool" where
  "healthy E c \<longleftrightarrow> pebble_ok E c \<and> codec_ok E"

lemma healthy_pebble: "healthy E c \<Longrightarrow> pebble_ok E c"
  by (simp add: healthy_def)

lemmas healthyD = pebble_okD [OF healthy_pebble]

definition addressable :: "'s deps \<Rightarrow> key \<Rightarrow> bool" where
  "addressable E k \<longleftrightarrow> (prefixBloom E \<longrightarrow> \<not> Keys.IsLocal k)"

lemma MVCCGet_spec:
  assumes "healthy E c" "addressable E k" "key_ok (c s) k" "meta_ok E (c s) k"
    "ts_ok ts" "ts_ok (UncertaintyLimit opts)"
  obtains vs where "versions_of (c s) k vs" "MVCCGet E s k ts opts = read_spec E (c s) k vs ts opts"
proof -
  have E: "pebble_ok E c" "codec_ok E" using assms(1) by (simp_all add: healthy_def)
  obtain es vs where it: "pIter E s (meta_key k) (snd (mvccKeyBounds k)) = Inr es"
    "es = meta_entries k (c s (meta_key k)) @ ver_entries k vs" "versions_of (c s) k vs"
    "key_iter k (c s (meta_key k)) vs (iter_over (prefixBloom E) es)"
    by (rule key_NewIter [OF E(1) assms(3) assms(2) [unfolded addressable_def]])
  have meta: "ts_ok (mTimestamp meta)" if "c s (meta_key k) = Some raw" "decodeMeta E raw = Inr meta" for raw meta
    using assms(4) that decodeMeta_encodeMeta(1) [OF E(2)] by (force simp: meta_ok_def)
  have "MVCCGet E s k ts opts = mvccGet E (iter_over (prefixBloom E) es) (meta_key k) k ts opts"
    using it(1) by (simp add: MVCCGet_def NewIter_def mvccKeyBounds_eq)
  also have "\<dots> = get_spec E k (c s (meta_key k)) vs ts opts"
    by (rule mvccGet_spec [OF it(4) assms(5,6) meta])
  also have "\<dots> = read_spec E (c s) k vs ts opts"
  proof (cases "intent_of E (c s) k")
    case None
    then show ?thesis using intent_of_None [OF E(2) assms(4)] by (simp add: get_spec_def read_spec_def)
  next
    case (Some m)
    then show ?thesis using intent_of_Some [OF E(2) assms(4) Some] by (simp add: get_spec_def read_spec_def)
  qed
  finally show thesis by (rule that [OF it(3)])
qed

end
