(* ===== verification/MVCC_Write.thy ===== *)
theory MVCC_Write
  imports MVCC_Get
begin

text \<open>
  The effect of the MVCC writes on the store's contents: each operation is refined by a
  function on contents (\<open>write_spec\<close> and its relatives), on every branch, and preserves the
  invariant of a key's engine keys: proper versions with well-formed values, and an intent
  only over a provisional version that is the key's newest.
\<close>

section \<open>The invariant\<close>

definition value_ok :: "bytes \<Rightarrow> bool" where
  "value_ok v \<longleftrightarrow> (case decodeMVCCValue v of Inl _ \<Rightarrow> False | Inr _ \<Rightarrow> True)"

definition key_inv :: "'s deps \<Rightarrow> contents \<Rightarrow> key \<Rightarrow> bool" where
  "key_inv E c k \<longleftrightarrow> key_ok c k \<and> meta_ok E c k \<and>
     (\<forall>t v. version_at c k t = Some v \<longrightarrow> value_ok v) \<and>
     (\<forall>meta. intent_of E c k = Some meta \<longrightarrow>
        version_at c k (mTimestamp meta) \<noteq> None \<and>
        (\<forall>u. mTimestamp meta < u \<longrightarrow> version_at c k u = None))"

section \<open>Effects on contents\<close>

text \<open>The newest version of a key.\<close>

definition newest_ts :: "(timestamp \<times> bytes) list \<Rightarrow> timestamp option" where
  "newest_ts vs = (case vs of [] \<Rightarrow> None | (t, _) # _ \<Rightarrow> Some t)"

definition put_version :: "key \<Rightarrow> timestamp \<Rightarrow> bytes \<Rightarrow> contents \<Rightarrow> contents" where
  "put_version k t v c = c(ver_key k t \<mapsto> v)"

definition put_intent :: "'s deps \<Rightarrow> key \<Rightarrow> MVCCMetadata \<Rightarrow> bytes \<Rightarrow> contents \<Rightarrow> contents" where
  "put_intent E k meta v c = c(meta_key k \<mapsto> encodeMeta E meta, ver_key k (mTimestamp meta) \<mapsto> v)"

definition del_version :: "key \<Rightarrow> timestamp \<Rightarrow> contents \<Rightarrow> contents" where
  "del_version k t c = c(ver_key k t := None)"

definition del_meta :: "key \<Rightarrow> contents \<Rightarrow> contents" where
  "del_meta k c = c(meta_key k := None)"

text \<open>The history kept when the transaction overwrites its own provisional value.\<close>

definition history_spec :: "MVCCMetadata \<Rightarrow> TxnMeta \<Rightarrow> bytes option \<Rightarrow> IntentValue list" where
  "history_spec meta t old =
     (if Epoch (mTxn meta) = Epoch t then
        (case old of None \<Rightarrow> []
         | Some raw \<Rightarrow>
             (case decodeMVCCValue raw of Inl _ \<Rightarrow> []
              | Inr (val, tomb) \<Rightarrow>
                  boundedHistory (mHistory meta)
                    \<lparr>ivSequence = Sequence (mTxn meta), ivValue = (case val of None \<Rightarrow> [] | Some d \<Rightarrow> d),
                     ivTombstone = tomb\<rparr> (HistoryFloor t)))
      else [])"

definition write_spec ::
  "'s deps \<Rightarrow> key \<Rightarrow> timestamp \<Rightarrow> bytes \<Rightarrow> TxnMeta option \<Rightarrow> (timestamp \<times> bytes) list \<Rightarrow> contents \<Rightarrow>
   mvcc_error + contents" where
  "write_spec E k ts v txn vs c =
     (case intent_of E c k of
        Some meta \<Rightarrow>
          (case txn of
             None \<Rightarrow> Inl (WriteIntentError [\<lparr>intKey = k, intTxn = mTxn meta\<rparr>])
           | Some t \<Rightarrow>
               if ID (mTxn meta) \<noteq> ID t then Inl (WriteIntentError [\<lparr>intKey = k, intTxn = mTxn meta\<rparr>])
               else Inr (put_intent E k
                 \<lparr>mTxn = t, mTimestamp = WriteTimestamp t,
                  mHistory = history_spec meta t (version_at c k (mTimestamp meta))\<rparr> v
                 (del_version k (mTimestamp meta) c)))
      | None \<Rightarrow>
          (case newest_ts vs of
             Some vts \<Rightarrow>
               if ts \<le> vts then
                 (case txn of None \<Rightarrow> Inr (put_version k (Next vts) v c)
                  | Some t \<Rightarrow> Inl (WriteTooOldError ts (Next vts)))
               else (case txn of None \<Rightarrow> Inr (put_version k ts v c)
                     | Some t \<Rightarrow> Inr (put_intent E k \<lparr>mTxn = t, mTimestamp = WriteTimestamp t, mHistory = []\<rparr> v c))
           | None \<Rightarrow>
               (case txn of None \<Rightarrow> Inr (put_version k ts v c)
                | Some t \<Rightarrow> Inr (put_intent E k \<lparr>mTxn = t, mTimestamp = WriteTimestamp t, mHistory = []\<rparr> v c))))"

definition write_committed_spec ::
  "'s deps \<Rightarrow> key \<Rightarrow> timestamp \<Rightarrow> bytes \<Rightarrow> (timestamp \<times> bytes) list \<Rightarrow> contents \<Rightarrow> mvcc_error + contents" where
  "write_committed_spec E k ts v vs c =
     (case intent_of E c k of
        Some meta \<Rightarrow> Inl (WriteIntentError [\<lparr>intKey = k, intTxn = mTxn meta\<rparr>])
      | None \<Rightarrow>
          (case newest_ts vs of
             Some vts \<Rightarrow> if ts \<le> vts then Inl (WriteTooOldError ts (Next vts)) else Inr (put_version k ts v c)
           | None \<Rightarrow> Inr (put_version k ts v c)))"

definition resolve_spec ::
  "'s deps \<Rightarrow> key \<Rightarrow> uuid \<Rightarrow> TxnStatus \<Rightarrow> timestamp \<Rightarrow> contents \<Rightarrow> mvcc_error + contents" where
  "resolve_spec E k i status commitTS c =
     (if status = PENDING then Inl ResolvePending
      else case intent_of E c k of None \<Rightarrow> Inr c
      | Some meta \<Rightarrow>
          if ID (mTxn meta) \<noteq> i then Inr c
          else if status = ABORTED then Inr (del_version k (mTimestamp meta) (del_meta k c))
          else if commitTS = zero_ts \<or> commitTS = mTimestamp meta then Inr (del_meta k c)
          else (case version_at c k (mTimestamp meta) of
                  None \<Rightarrow> Inl (NoProvisionalValue k (mTimestamp meta))
                | Some raw \<Rightarrow> Inr (put_version k commitTS raw (del_version k (mTimestamp meta) (del_meta k c)))))"

definition rollback_spec :: "'s deps \<Rightarrow> key \<Rightarrow> uuid \<Rightarrow> 32 word \<Rightarrow> contents \<Rightarrow> contents" where
  "rollback_spec E k i seq c =
     (case intent_of E c k of None \<Rightarrow> c
      | Some meta \<Rightarrow>
          if ID (mTxn meta) \<noteq> i \<or> sint (Sequence (mTxn meta)) \<le> sint seq then c
          else (case rollback_idx (mHistory meta) seq (length (mHistory meta)) of
                  None \<Rightarrow> del_meta k (del_version k (mTimestamp meta) c)
                | Some idx \<Rightarrow>
                    let ent = mHistory meta ! idx
                    in put_intent E k
                         (meta\<lparr>mHistory := take idx (mHistory meta),
                               mTxn := (mTxn meta)\<lparr>Sequence := ivSequence ent\<rparr>\<rparr>)
                         (encodeMVCCValue (Some (ivValue ent)) (ivTombstone ent))
                         (del_version k (mTimestamp meta) c)))"

section \<open>Engine calls on a healthy engine\<close>

lemma healthy_get:
  "healthy E c \<Longrightarrow> lift_io (Batch_Get E s x) = Inr (case c s x of None \<Rightarrow> None | Some v \<Rightarrow> clone_nil v)"
  by (auto simp: healthyD(1) Batch_Get_def lift_io_def split: option.splits)

lemma healthy_put:
  assumes "healthy E c"
  obtains s' where "lift_io (Batch_Put E x v s) = Inr s'" "c s' = (c s)(x \<mapsto> v)"
proof -
  have "\<exists>s'. pSet E x v s = Inr s' \<and> c s' = (c s)(x \<mapsto> v)"
    by (rule healthyD(3) [OF assms])
  then show thesis using that by (auto simp: lift_io_def Batch_Put_def)
qed

lemma healthy_delete:
  assumes "healthy E c"
  obtains s' where "lift_io (Batch_Delete E x s) = Inr s'" "c s' = (c s)(x := None)"
proof -
  have "\<exists>s'. pDelete E x s = Inr s' \<and> c s' = (c s)(x := None)"
    by (rule healthyD(4) [OF assms])
  then show thesis using that by (auto simp: lift_io_def Batch_Delete_def)
qed

text \<open>Running a write and looking at the contents of the result.\<close>

abbreviation on_contents :: "('s \<Rightarrow> contents) \<Rightarrow> mvcc_error + 's \<Rightarrow> mvcc_error + contents" where
  "on_contents c \<equiv> map_sum id c"

lemma put_contents: "healthy E c \<Longrightarrow> on_contents c (lift_io (Batch_Put E x v s)) = Inr ((c s)(x \<mapsto> v))"
  by (rule healthy_put [of E c x v s]) simp_all

lemma delete_contents: "healthy E c \<Longrightarrow> on_contents c (lift_io (Batch_Delete E x s)) = Inr ((c s)(x := None))"
  by (rule healthy_delete [of E c x s]) simp_all

lemma put_bind_contents:
  assumes "healthy E c" "\<And>s'. c s' = (c s)(x \<mapsto> v) \<Longrightarrow> on_contents c (f s') = r"
  shows "on_contents c (res_bind (lift_io (Batch_Put E x v s)) f) = r"
proof -
  obtain s' where "lift_io (Batch_Put E x v s) = Inr s'" "c s' = (c s)(x \<mapsto> v)" by (rule healthy_put [OF assms(1)])
  with assms(2) show ?thesis by simp
qed

lemma delete_bind_contents:
  assumes "healthy E c" "\<And>s'. c s' = (c s)(x := None) \<Longrightarrow> on_contents c (f s') = r"
  shows "on_contents c (res_bind (lift_io (Batch_Delete E x s)) f) = r"
proof -
  obtain s' where "lift_io (Batch_Delete E x s) = Inr s'" "c s' = (c s)(x := None)" by (rule healthy_delete [OF assms(1)])
  with assms(2) show ?thesis by simp
qed

section \<open>The write state\<close>

lemma writeState_spec:
  assumes "healthy E c" "addressable E k" "key_ok (c s) k" "meta_ok E (c s) k"
  obtains vs where "versions_of (c s) k vs"
    "lift_ws (writeState E s (meta_key k) (snd (mvccKeyBounds k))) =
       Inr (case intent_of E (c s) k of
              Some meta \<Rightarrow> (Some (encodeMeta E meta), zero_ts, False)
            | None \<Rightarrow> (case newest_ts vs of None \<Rightarrow> (None, zero_ts, False) | Some t \<Rightarrow> (None, t, True)))"
proof -
  have E: "pebble_ok E c" "codec_ok E" using assms(1) by (simp_all add: healthy_def)
  obtain es vs where it: "pIter E s (meta_key k) (snd (mvccKeyBounds k)) = Inr es"
    "es = meta_entries k (c s (meta_key k)) @ ver_entries k vs" "versions_of (c s) k vs"
    "key_iter k (c s (meta_key k)) vs (iter_over (prefixBloom E) es)"
    by (rule key_NewIter [OF E(1) assms(3) assms(2) [unfolded addressable_def]])
  obtain ok it1 where s: "SeekPrefixGE (meta_key k) (iter_over (prefixBloom E) es) = (ok, it1)" by fastforce
  note seek = key_iter_seek_meta [OF it(4), unfolded s fst_conv snd_conv]
  have "lift_ws (writeState E s (meta_key k) (snd (mvccKeyBounds k))) =
       Inr (case intent_of E (c s) k of
              Some meta \<Rightarrow> (Some (encodeMeta E meta), zero_ts, False)
            | None \<Rightarrow> (case newest_ts vs of None \<Rightarrow> (None, zero_ts, False) | Some t \<Rightarrow> (None, t, True)))"
  proof (cases "intent_of E (c s) k")
    case (Some meta)
    note m = intent_of_Some [OF E(2) assms(4) Some]
    then have at: "iat it1 [] ((meta_key k, encodeMeta E meta) # ver_entries k vs)" and ok
      using seek it(2) by (auto simp: iter_over_def)
    then show ?thesis
      using it(1) s iat_key [OF at] m(3) Some
      by (auto simp: writeState_def lift_ws_def clone_nil_def)
  next
    case None
    then have m: "c s (meta_key k) = None" using intent_of_None [OF E(2) assms(4)] by simp
    show ?thesis
    proof (cases vs)
      case Nil
      then have "\<not> ok" using seek m it(2) by (auto simp: iter_over_def)
      with it(1) s None Nil show ?thesis by (simp add: writeState_def lift_ws_def newest_ts_def)
    next
      case (Cons x ws)
      obtain t v where x: "x = (t, v)" by (cases x)
      with Cons m seek it(2) have at: "iat it1 [] ((ver_key k t, v) # ver_entries k ws)" and ok: ok
        by (auto simp: iter_over_def)
      show ?thesis
        using it(1) s ok iat_key [OF at] None Cons x
        by (simp add: writeState_def lift_ws_def newest_ts_def)
    qed
  qed
  then show thesis by (rule that [OF it(3)])
qed

section \<open>Refinement of the writes\<close>

lemma version_at_eq: "ts_ok t \<Longrightarrow> t \<noteq> zero_ts \<Longrightarrow> version_at c k t = c (ver_key k t)"
  by (simp add: version_at_def)

lemma value_ok_nonempty: "value_ok v \<Longrightarrow> clone_nil v = Some v"
  by (cases v) (auto simp: value_ok_def decodeMVCCValue_def)

lemma rewrite_history_spec:
  assumes "healthy E c" "key_inv E (c s) k" "intent_of E (c s) k = Some meta"
  shows "rewrite_history E (meta_key k) meta t s =
    Inr (history_spec meta t (version_at (c s) k (mTimestamp meta)))"
proof -
  have E: "codec_ok E" using assms(1) by (simp add: healthy_def)
  have mo: "meta_ok E (c s) k" using assms(2) by (simp add: key_inv_def)
  note m = intent_of_Some [OF E mo assms(3)]
  obtain raw where raw: "version_at (c s) k (mTimestamp meta) = Some raw" "value_ok raw"
    using assms(2,3) by (auto simp: key_inv_def)
  then have "c s (ver_key k (mTimestamp meta)) = Some raw" using m by (simp add: version_at_eq)
  then have g: "lift_io (Batch_Get E s (appendVersionSuffix (meta_key k) (mTimestamp meta))) = Inr (Some raw)"
    using healthy_get [OF assms(1)] value_ok_nonempty [OF raw(2)] by (simp add: appendVersionSuffix_def)
  show ?thesis using g raw
    by (auto simp: rewrite_history_def history_spec_def value_ok_def split: sum.splits)
qed

text \<open>The common tail of a write: the intent, if transactional, and the version.\<close>

definition write_tail ::
  "'s deps \<Rightarrow> bytes \<Rightarrow> bytes \<Rightarrow> TxnMeta option \<Rightarrow> timestamp \<times> IntentValue list \<times> 's \<Rightarrow> mvcc_error + 's" where
  "write_tail E metaKey v txn = (\<lambda>(ts, history, s).
     case txn of
       None \<Rightarrow> lift_io (Batch_Put E (appendVersionSuffix metaKey ts) v s)
     | Some t \<Rightarrow>
         let ts = WriteTimestamp t; meta = \<lparr>mTxn = t, mTimestamp = ts, mHistory = history\<rparr>
         in res_bind (lift_io (Batch_Put E metaKey (encodeMeta E meta) s)) (\<lambda>s.
            lift_io (Batch_Put E (appendVersionSuffix metaKey ts) v s)))"

lemma write_tail_contents:
  assumes "healthy E c"
  shows "on_contents c (write_tail E (meta_key k) v txn (ts, history, s)) =
    Inr (case txn of None \<Rightarrow> put_version k ts v (c s)
         | Some t \<Rightarrow> put_intent E k \<lparr>mTxn = t, mTimestamp = WriteTimestamp t, mHistory = history\<rparr> v (c s))"
proof (cases txn)
  case None
  then show ?thesis
    using put_contents [OF assms] by (simp add: write_tail_def put_version_def appendVersionSuffix_def)
next
  case (Some t)
  show ?thesis
    unfolding write_tail_def Some prod.case option.case Let_def
    by (rule put_bind_contents [OF assms])
      (simp add: put_contents [OF assms] put_intent_def appendVersionSuffix_def)
qed

lemma mvccWrite_refines:
  assumes "healthy E c" "addressable E k" "key_inv E (c s) k"
  obtains vs where "versions_of (c s) k vs"
    "on_contents c (mvccWrite E k ts d tomb txn s) =
       write_spec E k ts (encodeMVCCValue d tomb) txn vs (c s)"
proof -
  have inv: "key_ok (c s) k" "meta_ok E (c s) k" using assms(3) by (simp_all add: key_inv_def)
  have E: "codec_ok E" using assms(1) by (simp add: healthy_def)
  obtain vs where vs: "versions_of (c s) k vs" and ws:
    "lift_ws (writeState E s (meta_key k) (snd (mvccKeyBounds k))) =
       Inr (case intent_of E (c s) k of
              Some meta \<Rightarrow> (Some (encodeMeta E meta), zero_ts, False)
            | None \<Rightarrow> (case newest_ts vs of None \<Rightarrow> (None, zero_ts, False) | Some t \<Rightarrow> (None, t, True)))"
    by (rule writeState_spec [OF assms(1,2) inv])
  have b: "mvccKeyBounds k = (meta_key k, snd (mvccKeyBounds k))" by (simp add: mvccKeyBounds_eq)
  have "on_contents c (mvccWrite E k ts d tomb txn s) =
       write_spec E k ts (encodeMVCCValue d tomb) txn vs (c s)"
  proof (cases "intent_of E (c s) k")
    case None
    then show ?thesis
      unfolding mvccWrite_def write_tail_def [symmetric]
      by (subst b) (auto simp: ws write_spec_def write_tail_contents [OF assms(1)] split: option.splits)
  next
    case (Some meta)
    note m = intent_of_Some [OF E inv(2) Some]
    have del: "on_contents c (res_bind (lift_io (Batch_Delete E (appendVersionSuffix (meta_key k) (mTimestamp meta)) s))
        (\<lambda>s. write_tail E (meta_key k) (encodeMVCCValue d tomb) (Some t) (ts, h, s))) =
      Inr (put_intent E k \<lparr>mTxn = t, mTimestamp = WriteTimestamp t, mHistory = h\<rparr> (encodeMVCCValue d tomb)
        (del_version k (mTimestamp meta) (c s)))" for t h
      by (rule delete_bind_contents [OF assms(1)])
        (simp add: write_tail_contents [OF assms(1)] del_version_def appendVersionSuffix_def)
    show ?thesis
      unfolding mvccWrite_def write_tail_def [symmetric]
      using Some m(2) rewrite_history_spec [OF assms(1,3) Some]
      by (subst b) (auto simp: ws write_spec_def del res_bind_assoc split: option.splits)
  qed
  then show thesis by (rule that [OF vs])
qed

lemma mvccWriteCommitted_refines:
  assumes "healthy E c" "addressable E k" "key_inv E (c s) k"
  obtains vs where "versions_of (c s) k vs"
    "on_contents c (mvccWriteCommitted E k ts d tomb s) =
       write_committed_spec E k ts (encodeMVCCValue d tomb) vs (c s)"
proof -
  have inv: "key_ok (c s) k" "meta_ok E (c s) k" using assms(3) by (simp_all add: key_inv_def)
  have E: "codec_ok E" using assms(1) by (simp add: healthy_def)
  obtain vs where vs: "versions_of (c s) k vs" and ws:
    "lift_ws (writeState E s (meta_key k) (snd (mvccKeyBounds k))) =
       Inr (case intent_of E (c s) k of
              Some meta \<Rightarrow> (Some (encodeMeta E meta), zero_ts, False)
            | None \<Rightarrow> (case newest_ts vs of None \<Rightarrow> (None, zero_ts, False) | Some t \<Rightarrow> (None, t, True)))"
    by (rule writeState_spec [OF assms(1,2) inv])
  have b: "mvccKeyBounds k = (meta_key k, snd (mvccKeyBounds k))" by (simp add: mvccKeyBounds_eq)
  have "on_contents c (mvccWriteCommitted E k ts d tomb s) =
       write_committed_spec E k ts (encodeMVCCValue d tomb) vs (c s)"
    unfolding mvccWriteCommitted_def
    using intent_of_Some(2) [OF E inv(2)] put_contents [OF assms(1)]
    by (subst b) (auto simp: ws write_committed_spec_def put_version_def appendVersionSuffix_def
        split: option.splits)
  then show thesis by (rule that [OF vs])
qed

lemma healthy_get_meta:
  assumes "healthy E c" "meta_ok E (c s) k"
  shows "lift_io (Batch_Get E s (meta_key k)) =
    Inr (case intent_of E (c s) k of None \<Rightarrow> None | Some meta \<Rightarrow> Some (encodeMeta E meta))"
proof -
  have E: "codec_ok E" using assms(1) by (simp add: healthy_def)
  show ?thesis
  proof (cases "intent_of E (c s) k")
    case None
    then show ?thesis using intent_of_None [OF E assms(2)] healthy_get [OF assms(1)] by simp
  next
    case (Some meta)
    then show ?thesis
      using intent_of_Some [OF E assms(2) Some] healthy_get [OF assms(1)] by (simp add: clone_nil_def)
  qed
qed

lemma MVCCResolveIntent_refines:
  assumes "healthy E c" "key_inv E (c s) k"
  shows "on_contents c (MVCCResolveIntent E k i status commitTS s) = resolve_spec E k i status commitTS (c s)"
proof -
  have E: "codec_ok E" using assms(1) by (simp add: healthy_def)
  have mo: "meta_ok E (c s) k" using assms(2) by (simp add: key_inv_def)
  have b: "mvccKeyBounds k = (meta_key k, snd (mvccKeyBounds k))" by (simp add: mvccKeyBounds_eq)
  note get = healthy_get_meta [OF assms(1) mo]
  show ?thesis
  proof (cases "intent_of E (c s) k")
    case None
    then show ?thesis using get by (simp add: MVCCResolveIntent_def resolve_spec_def mvccKeyBounds_eq)
  next
    case (Some meta)
    note m = intent_of_Some [OF E mo Some]
    obtain raw where raw: "version_at (c s) k (mTimestamp meta) = Some raw" "value_ok raw"
      using assms(2) Some by (auto simp: key_inv_def)
    then have cv: "c s (ver_key k (mTimestamp meta)) = Some raw" using m by (simp add: version_at_eq)
    have ek: "EncodeMVCCKey k (mTimestamp meta) = ver_key k (mTimestamp meta)"
      using m(6) by (simp add: EncodeMVCCKey_simps)
    have commit: "on_contents c (res_bind (lift_io (Batch_Get E s' (ver_key k (mTimestamp meta)))) (\<lambda>raw.
        case raw of None \<Rightarrow> Inl (NoProvisionalValue k (mTimestamp meta))
        | Some raw \<Rightarrow> res_bind (lift_io (Batch_Delete E (ver_key k (mTimestamp meta)) s')) (\<lambda>s.
            lift_io (Batch_Put E (EncodeMVCCKey k commitTS) raw s)))) =
        Inr (put_version k commitTS raw (del_version k (mTimestamp meta) (del_meta k (c s))))"
      if s': "c s' = del_meta k (c s)" and ne: "commitTS \<noteq> zero_ts" for s'
    proof -
      have "lift_io (Batch_Get E s' (ver_key k (mTimestamp meta))) = Inr (Some raw)"
        using healthy_get [OF assms(1)] s' cv value_ok_nonempty [OF raw(2)] by (simp add: del_meta_def)
      then show ?thesis
        using ne s' by (simp, intro delete_bind_contents [OF assms(1)])
          (simp add: put_contents [OF assms(1)] put_version_def del_version_def EncodeMVCCKey_simps)
    qed
    show ?thesis
    proof (cases "status = PENDING \<or> ID (mTxn meta) \<noteq> i")
      case True
      then show ?thesis using get Some m by (auto simp: MVCCResolveIntent_def resolve_spec_def mvccKeyBounds_eq)
    next
      case False
      have "on_contents c (MVCCResolveIntent E k i status commitTS s) =
        on_contents c (res_bind (lift_io (Batch_Delete E (meta_key k) s)) (\<lambda>s.
           if status = ABORTED then lift_io (Batch_Delete E (ver_key k (mTimestamp meta)) s)
           else if IsEmpty commitTS \<or> Equal commitTS (mTimestamp meta) then Inr s
           else res_bind (lift_io (Batch_Get E s (ver_key k (mTimestamp meta)))) (\<lambda>raw.
              case raw of None \<Rightarrow> Inl (NoProvisionalValue k (mTimestamp meta))
              | Some raw \<Rightarrow> res_bind (lift_io (Batch_Delete E (ver_key k (mTimestamp meta)) s)) (\<lambda>s.
                  lift_io (Batch_Put E (EncodeMVCCKey k commitTS) raw s)))))"
        using False get Some m ek by (simp add: MVCCResolveIntent_def mvccKeyBounds_eq Let_def)
      also have "\<dots> = resolve_spec E k i status commitTS (c s)"
        by (rule delete_bind_contents [OF assms(1)])
          (use False Some raw commit in \<open>auto simp: resolve_spec_def delete_contents [OF assms(1)]
             del_version_def del_meta_def\<close>)
      finally show ?thesis .
    qed
  qed
qed

lemma MVCCRollbackIntent_refines:
  assumes "healthy E c" "key_inv E (c s) k"
  shows "on_contents c (MVCCRollbackIntent E k i seq s) = Inr (rollback_spec E k i seq (c s))"
proof -
  have E: "codec_ok E" using assms(1) by (simp add: healthy_def)
  have mo: "meta_ok E (c s) k" using assms(2) by (simp add: key_inv_def)
  note get = healthy_get_meta [OF assms(1) mo]
  show ?thesis
  proof (cases "intent_of E (c s) k")
    case None
    then show ?thesis using get by (simp add: MVCCRollbackIntent_def rollback_spec_def mvccKeyBounds_eq)
  next
    case (Some meta)
    note m = intent_of_Some [OF E mo Some]
    have ek: "EncodeMVCCKey k (mTimestamp meta) = ver_key k (mTimestamp meta)"
      using m(6) by (simp add: EncodeMVCCKey_simps)
    show ?thesis
    proof (cases "ID (mTxn meta) \<noteq> i \<or> sint (Sequence (mTxn meta)) \<le> sint seq")
      case True
      then show ?thesis using get Some m by (simp add: MVCCRollbackIntent_def rollback_spec_def mvccKeyBounds_eq)
    next
      case False
      then have "MVCCRollbackIntent E k i seq s =
        res_bind (lift_io (Batch_Delete E (ver_key k (mTimestamp meta)) s)) (\<lambda>s.
          case rollback_idx (mHistory meta) seq (length (mHistory meta)) of
            None \<Rightarrow> lift_io (Batch_Delete E (meta_key k) s)
          | Some idx \<Rightarrow>
              res_bind (lift_io (Batch_Put E (meta_key k) (encodeMeta E
                (meta\<lparr>mHistory := take idx (mHistory meta),
                      mTxn := (mTxn meta)\<lparr>Sequence := ivSequence (mHistory meta ! idx)\<rparr>\<rparr>)) s)) (\<lambda>s.
              lift_io (Batch_Put E (ver_key k (mTimestamp meta))
                (encodeMVCCValue (Some (ivValue (mHistory meta ! idx))) (ivTombstone (mHistory meta ! idx))) s)))"
        using get Some m ek by (simp add: MVCCRollbackIntent_def mvccKeyBounds_eq Let_def cong: option.case_cong)
      also have "on_contents c \<dots> = Inr (rollback_spec E k i seq (c s))"
      proof (rule delete_bind_contents [OF assms(1)], goal_cases)
        case (1 s')
        show ?case
        proof (cases "rollback_idx (mHistory meta) seq (length (mHistory meta))")
          case None
          with 1 Some False show ?thesis
            by (simp add: delete_contents [OF assms(1)] rollback_spec_def del_meta_def del_version_def)
        next
          case (Some idx)
          show ?thesis
            unfolding Some option.case
            by (rule put_bind_contents [OF assms(1)])
              (use 1 Some False \<open>intent_of E (c s) k = Some meta\<close> in
                \<open>simp add: put_contents [OF assms(1)] rollback_spec_def put_intent_def del_version_def Let_def\<close>)
        qed
      qed
      finally show ?thesis .
    qed
  qed
qed

end
