(* ===== verification/MVCC_Inv.thy ===== *)
theory MVCC_Inv
  imports MVCC_Write
begin

text \<open>
  The invariant of the MVCC store is preserved by every write, on the key written and on
  every other key, and what the writes make later reads return.
\<close>

section \<open>Updates seen through versions and intents\<close>

definition ts_proper :: "timestamp \<Rightarrow> bool" where
  "ts_proper t \<longleftrightarrow> ts_ok t \<and> t \<noteq> zero_ts"

lemmas content_updates = put_version_def put_intent_def del_version_def del_meta_def

lemma version_at_updates [simp]:
  "ts_proper t \<Longrightarrow> version_at (put_version k t v c) k' u = (if k' = k \<and> u = t then Some v else version_at c k' u)"
  "ts_proper (mTimestamp m) \<Longrightarrow> version_at (put_intent E k m v c) k' u =
     (if k' = k \<and> u = mTimestamp m then Some v else version_at c k' u)"
  "version_at (del_version k t c) k' u = (if k' = k \<and> u = t then None else version_at c k' u)"
  "version_at (del_meta k c) k' u = version_at c k' u"
  by (auto simp: version_at_def content_updates ts_proper_def)

lemma intent_of_updates [simp]:
  "intent_of E (put_version k t v c) k' = intent_of E c k'"
  "intent_of E (del_version k t c) k' = intent_of E c k'"
  "intent_of E (del_meta k c) k' = (if k' = k then None else intent_of E c k')"
  by (auto simp: intent_of_def content_updates)

lemma intent_of_put_intent [simp]:
  assumes "codec_ok E" "uuid_ok (ID (mTxn m))"
  shows "intent_of E (put_intent E k m v c) k' = (if k' = k then Some m else intent_of E c k')"
  using decodeMeta_encodeMeta(1) [OF assms] by (auto simp: intent_of_def content_updates)

lemma meta_key_neq_append: "meta_key k @ r \<noteq> meta_key k' \<longleftrightarrow> k \<noteq> k' \<or> r \<noteq> []"
  using byt.prefix_free [of k r k' "[]"] by auto

lemma meta_key_eq_append: "meta_key k @ r = meta_key k' \<longleftrightarrow> k = k' \<and> r = []"
  using byt.prefix_free [of k r k' "[]"] by auto

lemma key_ok_updates:
  assumes "key_ok c k'"
  shows "ts_proper t \<Longrightarrow> key_ok (put_version k t v c) k'"
    "ts_proper (mTimestamp m) \<Longrightarrow> key_ok (put_intent E k m v c) k'"
    "key_ok (del_version k t c) k'" "key_ok (del_meta k c) k'"
  using assms by (auto simp: key_ok_def content_updates ts_proper_def byt.prefix_free meta_key_eq_append)

lemma meta_ok_updates:
  assumes "meta_ok E c k'"
  shows "meta_ok E (put_version k t v c) k'"
    "ts_proper (mTimestamp m) \<Longrightarrow> uuid_ok (ID (mTxn m)) \<Longrightarrow> meta_ok E (put_intent E k m v c) k'"
    "meta_ok E (del_version k t c) k'" "meta_ok E (del_meta k c) k'"
  using assms by (auto simp: meta_ok_def content_updates ts_proper_def)

lemma newest_ts_None: "versions_of c k vs \<Longrightarrow> newest_ts vs = None \<Longrightarrow> version_at c k t = None"
proof -
  assume "versions_of c k vs" "newest_ts vs = None"
  then have "vs = []" "\<And>v. (t, v) \<in> set vs \<longleftrightarrow> version_at c k t = Some v"
    by (auto simp: newest_ts_def versions_of_def split: list.splits)
  then show ?thesis by (cases "version_at c k t") auto
qed

lemma newest_ts_Some:
  assumes "versions_of c k vs" "newest_ts vs = Some t"
  shows "version_at c k t \<noteq> None" "t < u \<Longrightarrow> version_at c k u = None" "ts_proper t"
proof -
  obtain v ws where vs: "vs = (t, v) # ws" using assms(2) by (auto simp: newest_ts_def split: list.splits)
  have iff: "\<And>u v. (u, v) \<in> set vs \<longleftrightarrow> version_at c k u = Some v" and ok: "vers_ok vs"
    using assms(1) by (auto simp: versions_of_def)
  show "version_at c k t \<noteq> None" using iff [of t v] vs by simp
  show "ts_proper t" using ok vs by (simp add: vers_ok_Cons ts_proper_def)
  show "version_at c k u = None" if "t < u"
  proof (rule ccontr)
    assume "version_at c k u \<noteq> None"
    then obtain w where "(u, w) \<in> set vs" using iff [of u] by auto
    with ok vs that show False by (auto simp: vers_ok_Cons)
  qed
qed

section \<open>The invariant is preserved\<close>

text \<open>
  What a caller of \<^verbatim>\<open>mvccWrite\<close> provides: proper timestamps, and a transaction whose write
  timestamp is not below the timestamp checked nor below its own earlier intent.
\<close>

definition write_args_ok :: "'s deps \<Rightarrow> contents \<Rightarrow> key \<Rightarrow> timestamp \<Rightarrow> TxnMeta option \<Rightarrow> bool" where
  "write_args_ok E c k ts txn \<longleftrightarrow>
     (case txn of
        None \<Rightarrow> ts_proper ts \<and> (\<forall>t. version_at c k t \<noteq> None \<longrightarrow> sint (WallTime t) < 2 ^ 63 - 1)
      | Some t \<Rightarrow> uuid_ok (ID t) \<and> ts_proper (WriteTimestamp t) \<and> ts \<le> WriteTimestamp t \<and>
          (\<forall>meta. intent_of E c k = Some meta \<longrightarrow> ID (mTxn meta) = ID t \<longrightarrow> mTimestamp meta \<le> WriteTimestamp t))"

lemma ts_proper_Next:
  assumes "ts_proper t" "sint (WallTime t) < 2 ^ 63 - 1"
  shows "ts_proper (Next t)"
proof -
  have gt: "t < Next t" using Next_greater assms(2) by simp
  have "sint (Logical t) < 2 ^ 31 - 1" if "Logical t \<noteq> 0x7FFFFFFF"
  proof -
    have "sint (Logical t) \<noteq> sint (0x7FFFFFFF :: 32 word)" using that sint_inj by blast
    then show ?thesis using sint_lt [of "Logical t"] by simp
  qed
  then have "ts_ok (Next t)"
    using assms sint_add_one [of "WallTime t"] sint_add_one [of "Logical t"]
    by (auto simp: ts_ok_def ts_proper_def Next_def)
  moreover have "Next t \<noteq> zero_ts"
    using gt assms(1) by (auto simp: ts_proper_def ts_ok_def zero_ts_def ts_less_sint)
  ultimately show ?thesis by (simp add: ts_proper_def)
qed

lemma key_inv_put_version:
  assumes "key_inv E c k" "ts_proper t" "value_ok v" "intent_of E c k = None"
  shows "key_inv E (put_version k t v c) k"
  using assms by (auto simp: key_inv_def key_ok_updates meta_ok_updates split: if_splits)

lemma key_inv_put_intent:
  assumes "key_inv E c k" "codec_ok E" "ts_proper (mTimestamp m)" "uuid_ok (ID (mTxn m))" "value_ok v"
    and "\<And>u. mTimestamp m < u \<Longrightarrow> version_at c k u = None"
  shows "key_inv E (put_intent E k m v c) k"
  using assms by (auto simp: key_inv_def key_ok_updates meta_ok_updates split: if_splits)

lemma key_inv_other:
  assumes "key_inv E c k'" "k' \<noteq> k"
  shows "ts_proper t \<Longrightarrow> key_inv E (put_version k t v c) k'"
    "codec_ok E \<Longrightarrow> ts_proper (mTimestamp m) \<Longrightarrow> uuid_ok (ID (mTxn m)) \<Longrightarrow> key_inv E (put_intent E k m v c) k'"
    "key_inv E (del_version k t c) k'" "key_inv E (del_meta k c) k'"
  using assms by (auto simp: key_inv_def key_ok_updates meta_ok_updates)

text \<open>Deleting the provisional version leaves the invariant but for the intent it belongs to.\<close>

lemma key_inv_drop_intent:
  assumes "key_inv E c k" "intent_of E c k = Some m"
  shows "key_inv E (del_version k (mTimestamp m) (del_meta k c)) k" "key_inv E (del_meta k c) k"
  using assms by (auto simp: key_inv_def key_ok_updates meta_ok_updates split: if_splits)

lemma put_intent_over_del:
  "put_intent E k m v (del_version k t c) =
   put_intent E k m v (del_version k t (del_meta k c))"
  by (rule ext) (simp add: content_updates)

lemma write_spec_inv:
  assumes "key_inv E c k" "codec_ok E" "write_args_ok E c k ts txn" "value_ok v" "versions_of c k vs"
    and "write_spec E k ts v txn vs c = Inr c'"
  shows "key_inv E c' k"
proof (cases "intent_of E c k")
  case (Some meta)
  with assms(6) obtain t where t: "txn = Some t" "ID (mTxn meta) = ID t"
    and c': "c' = put_intent E k \<lparr>mTxn = t, mTimestamp = WriteTimestamp t,
       mHistory = history_spec meta t (version_at c k (mTimestamp meta))\<rparr> v (del_version k (mTimestamp meta) c)"
    by (auto simp: write_spec_def split: option.splits if_splits)
  have args: "uuid_ok (ID t)" "ts_proper (WriteTimestamp t)" "mTimestamp meta \<le> WriteTimestamp t"
    using assms(3) t Some by (auto simp: write_args_ok_def)
  have above: "version_at c k u = None" if "mTimestamp meta < u" for u
    using assms(1) Some that by (auto simp: key_inv_def)
  show ?thesis
    unfolding c'
    by (subst put_intent_over_del, rule key_inv_put_intent [OF key_inv_drop_intent(1) [OF assms(1) Some] assms(2)])
      (use args assms(4) above in auto)
next
  case None
  show ?thesis
  proof (cases txn)
    case None
    with assms(3) have args: "ts_proper ts" "\<And>t. version_at c k t \<noteq> None \<Longrightarrow> sint (WallTime t) < 2 ^ 63 - 1"
      by (auto simp: write_args_ok_def)
    have "ts_proper (Next vts)" if "newest_ts vs = Some vts" for vts
      using newest_ts_Some [OF assms(5) that] args(2) [of vts] ts_proper_Next by simp
    then obtain t where "c' = put_version k t v c" "ts_proper t"
      using assms(6) \<open>intent_of E c k = None\<close> None args(1)
      by (auto simp: write_spec_def split: option.splits if_splits)
    then show ?thesis using key_inv_put_version [OF assms(1) _ assms(4) \<open>intent_of E c k = None\<close>] by simp
  next
    case (Some t)
    then have args: "uuid_ok (ID t)" "ts_proper (WriteTimestamp t)" "ts \<le> WriteTimestamp t"
      using assms(3) by (auto simp: write_args_ok_def)
    have c': "c' = put_intent E k \<lparr>mTxn = t, mTimestamp = WriteTimestamp t, mHistory = []\<rparr> v c"
      and lt: "\<And>vts. newest_ts vs = Some vts \<Longrightarrow> vts < ts"
      using assms(6) \<open>intent_of E c k = None\<close> Some
      by (auto simp: write_spec_def split: option.splits if_splits)
    have "version_at c k u = None" if "WriteTimestamp t < u" for u
    proof (cases "newest_ts vs")
      case None
      then show ?thesis using newest_ts_None [OF assms(5)] by simp
    next
      case (Some vts)
      with lt args(3) that have "vts < u" by (meson less_le_trans less_trans)
      then show ?thesis using newest_ts_Some(2) [OF assms(5) Some] by simp
    qed
    then show ?thesis unfolding c' by (intro key_inv_put_intent [OF assms(1,2)]) (use args assms(4) in auto)
  qed
qed

lemma write_spec_other:
  assumes "k' \<noteq> k" "key_inv E c k'" "codec_ok E" "write_args_ok E c k ts txn" "versions_of c k vs"
    and "write_spec E k ts v txn vs c = Inr c'"
  shows "key_inv E c' k'" "version_at c' k' u = version_at c k' u" "intent_of E c' k' = intent_of E c k'"
proof -
  have "ts_proper (Next vts)" if "newest_ts vs = Some vts" "txn = None" for vts
    using newest_ts_Some [OF assms(5) that(1)] that(2) assms(4) ts_proper_Next [of vts]
    by (simp add: write_args_ok_def)
  with assms show "key_inv E c' k'" "version_at c' k' u = version_at c k' u" "intent_of E c' k' = intent_of E c k'"
    by (auto simp: write_spec_def write_args_ok_def key_inv_other split: option.splits if_splits)
qed

lemma resolve_spec_inv:
  assumes "key_inv E c k" "commitTS = zero_ts \<or> ts_proper commitTS"
    and "resolve_spec E k i status commitTS c = Inr c'"
  shows "key_inv E c' k"
proof (cases "intent_of E c k")
  case None
  with assms show ?thesis by (auto simp: resolve_spec_def split: if_splits)
next
  case (Some meta)
  note drop = key_inv_drop_intent [OF assms(1) Some]
  have "key_inv E (put_version k commitTS raw (del_version k (mTimestamp meta) (del_meta k c))) k"
    if "version_at c k (mTimestamp meta) = Some raw" "commitTS \<noteq> zero_ts" for raw
    by (rule key_inv_put_version [OF drop(1)]) (use that assms in \<open>auto simp: key_inv_def\<close>)
  with assms(1,3) Some drop show ?thesis
    by (auto simp: resolve_spec_def split: if_splits option.splits)
qed

lemma rollback_value_ok: "value_ok (encodeMVCCValue d tomb)"
  by (auto simp: value_ok_def encodeMVCCValue_def decodeMVCCValue_def)

lemma rollback_spec_inv:
  assumes "key_inv E c k" "codec_ok E"
  shows "key_inv E (rollback_spec E k i seq c) k"
proof (cases "intent_of E c k")
  case None
  then show ?thesis using assms by (simp add: rollback_spec_def)
next
  case (Some meta)
  have mo: "meta_ok E c k" using assms(1) by (simp add: key_inv_def)
  note m = intent_of_Some [OF assms(2) mo Some]
  note drop = key_inv_drop_intent [OF assms(1) Some]
  have above: "version_at c k u = None" if "mTimestamp meta < u" for u
    using assms(1) Some that by (auto simp: key_inv_def)
  have "key_inv E (put_intent E k (meta\<lparr>mHistory := h, mTxn := (mTxn meta)\<lparr>Sequence := q\<rparr>\<rparr>)
      (encodeMVCCValue d tb) (del_version k (mTimestamp meta) c)) k" for h q d tb
    by (subst put_intent_over_del, rule key_inv_put_intent [OF drop(1) assms(2)])
      (use m above in \<open>auto simp: ts_proper_def rollback_value_ok\<close>)
  moreover have "del_meta k (del_version k (mTimestamp meta) c) = del_version k (mTimestamp meta) (del_meta k c)"
    by (rule ext) (simp add: content_updates)
  ultimately show ?thesis
    using assms(1) Some drop by (auto simp: rollback_spec_def Let_def split: option.splits)
qed

lemma rollback_spec_other:
  assumes "k' \<noteq> k" "key_inv E c k'" "key_inv E c k" "codec_ok E"
  shows "key_inv E (rollback_spec E k i seq c) k'"
proof (cases "intent_of E c k")
  case None
  then show ?thesis using assms by (simp add: rollback_spec_def)
next
  case (Some meta)
  note m = intent_of_Some [OF assms(4) _ Some]
  have mo: "meta_ok E c k" using assms(3) by (simp add: key_inv_def)
  show ?thesis
    using assms Some m [OF mo]
    by (auto simp: rollback_spec_def Let_def key_inv_other ts_proper_def split: option.splits)
qed

end
