(* ===== verification/MVCC_Txn.thy ===== *)
theory MVCC_Txn
  imports MVCC_Inv
begin

text \<open>
  What the MVCC layer guarantees to transactions: snapshot reads, read-your-writes, isolation
  of uncommitted writes, visibility of committed ones, exact undo by abort and by savepoint
  rollback, and the write-too-old rule.
\<close>

section \<open>Store-wide invariant\<close>

definition store_inv :: "'s deps \<Rightarrow> contents \<Rightarrow> bool" where
  "store_inv E c \<longleftrightarrow> (\<forall>k. \<not> Keys.IsLocal k \<longrightarrow> key_inv E c k)"

text \<open>The value a put or a delete makes visible.\<close>

definition written :: "nbytes \<Rightarrow> bool \<Rightarrow> nbytes" where
  "written d tomb = (if tomb then None else clone_nil (case d of None \<Rightarrow> [] | Some x \<Rightarrow> x))"

text \<open>Concrete values the witnesses use: a transaction and read options.\<close>

definition demo_txn :: "timestamp \<Rightarrow> 32 word \<Rightarrow> TxnMeta" where
  "demo_txn ts q = \<lparr>ID = replicate 16 1, AnchorKey = [7], Epoch = 0, WriteTimestamp = ts,
     MinTimestamp = ts, Priority = 1, Sequence = q, HistoryFloor = 0, BinaryMeta = True\<rparr>"

definition demo_opts :: "TxnMeta option \<Rightarrow> MVCCGetOptions" where
  "demo_opts t = \<lparr>optTxn = t, UncertaintyLimit = zero_ts, TargetBytes = 0, Inconsistent = False\<rparr>"

text \<open>A store holding one committed version of the key \<open>[7]\<close>.\<close>

definition demo_store :: "(bytes \<times> bytes) list" where
  "demo_store = [(ver_key [7] (Timestamp 5 0), encodeMVCCValue (Some [1]) False)]"

lemma store_inv_key: "store_inv E c \<Longrightarrow> \<not> Keys.IsLocal k \<Longrightarrow> key_inv E c k"
  by (simp add: store_inv_def)

lemma nonlocal_addressable: "\<not> Keys.IsLocal k \<Longrightarrow> addressable E k"
  by (simp add: addressable_def)

lemma healthy_codec: "healthy E c \<Longrightarrow> codec_ok E"
  by (simp add: healthy_def)

lemma read_value_encode: "read_value (encodeMVCCValue d tomb) = Inr (written d tomb)"
  by (auto simp: read_value_def encodeMVCCValue_def decodeMVCCValue_def written_def)

lemma mvccWrite_Inr:
  assumes "healthy E c" "store_inv E (c s)" "\<not> Keys.IsLocal k" "mvccWrite E k ts d tomb txn s = Inr s'"
  obtains vs where "versions_of (c s) k vs"
    "write_spec E k ts (encodeMVCCValue d tomb) txn vs (c s) = Inr (c s')"
proof -
  obtain vs where "versions_of (c s) k vs"
    "on_contents c (mvccWrite E k ts d tomb txn s) = write_spec E k ts (encodeMVCCValue d tomb) txn vs (c s)"
    by (rule mvccWrite_refines [OF assms(1) nonlocal_addressable [OF assms(3)] store_inv_key [OF assms(2,3)]])
  with assms(4) that show thesis by simp
qed

section \<open>The in-memory instance\<close>

lemma mem_healthy: "healthy (mem_deps m) map_of"
  by (simp add: healthy_def mem_pebble_ok mem_codec_ok)

lemma empty_key_inv: "key_inv E Map.empty k"
  by (simp add: key_inv_def key_ok_def meta_ok_def version_at_def intent_of_def)

lemma mem_empty_inv: "store_inv E (map_of [])"
  by (simp add: store_inv_def empty_key_inv)

lemma empty_contents [simp]: "version_at Map.empty k t = None" "intent_of E Map.empty k = None"
  by (simp_all add: version_at_def intent_of_def)

lemma mem_write_fresh:
  "mvccWrite (mem_deps m) k ts d tomb (Some t) [] =
     Inr [(ver_key k (WriteTimestamp t), encodeMVCCValue d tomb),
          (meta_key k, encodeMeta (mem_deps m) \<lparr>mTxn = t, mTimestamp = WriteTimestamp t, mHistory = []\<rparr>)]"
  by (simp add: mvccWrite_def mvccKeyBounds_def writeState_def mem_deps_def mem_iter_def SeekPrefixGE_def
      SeekGE_def iter_over_def rank_def iValid_def lift_ws_def lift_io_def Batch_Put_def Let_def encodeMeta_def
      EncodeMVCCKey_def appendVersionSuffix_def)

section \<open>Reads\<close>

lemma vers_ok_distinct: "vers_ok vs \<Longrightarrow> distinct (map fst vs)"
proof (induction vs)
  case (Cons x vs)
  then show ?case by (cases x) (force simp: vers_ok_Cons)
qed simp

lemma MVCCGet_read:
  assumes "healthy E c" "store_inv E (c s)" "\<not> Keys.IsLocal k" "ts_ok ts" "ts_ok (UncertaintyLimit opts)"
  obtains vs where "versions_of (c s) k vs" "MVCCGet E s k ts opts = read_spec E (c s) k vs ts opts"
  by (rule MVCCGet_spec [OF assms(1) nonlocal_addressable [OF assms(3)] _ _ assms(4,5)])
    (use store_inv_key [OF assms(2,3)] that in \<open>auto simp: key_inv_def\<close>)

text \<open>A read that no intent blocks and no uncertainty window affects.\<close>

lemma visible_certain:
  assumes "versions_of c k vs" "is_newest c k skipAt ts r" "limit = zero_ts \<or> limit \<le> ts"
  shows "visible_spec skipAt ts limit vs = (case r of None \<Rightarrow> Inr None | Some (_, v) \<Rightarrow> read_value v)"
  using is_newest_unique [OF versions_of_newest [OF assms(1)] assms(2)] assms(3)
  by (auto simp: visible_spec_def uncertain_at_def)

lemma is_newest_exists: "versions_of c k vs \<Longrightarrow> \<exists>r. is_newest c k skipAt ts r"
  using versions_of_newest by blast

text \<open>
  C6: a point read at a timestamp with no intent on the key returns the newest version at or
  below the timestamp, nil if that is a tombstone or there is none. The iterator's prefix
  mode, bloom filters included, makes no difference.
\<close>

theorem MVCCGet_snapshot:
  assumes "healthy E c" "store_inv E (c s)" "\<not> Keys.IsLocal k" "ts_ok ts"
    and "intent_of E (c s) k = None" "UncertaintyLimit opts = zero_ts"
  shows "\<exists>r. is_newest (c s) k zero_ts ts r \<and>
    MVCCGet E s k ts opts = (case r of None \<Rightarrow> Inr None | Some (_, v) \<Rightarrow> read_value v)"
proof -
  have lim: "ts_ok (UncertaintyLimit opts)" using assms(6) by (simp add: ts_ok_def zero_ts_def)
  obtain vs where vs: "versions_of (c s) k vs" "MVCCGet E s k ts opts = read_spec E (c s) k vs ts opts"
    by (rule MVCCGet_read [OF assms(1-4) lim])
  obtain r where r: "is_newest (c s) k zero_ts ts r" using is_newest_exists [OF vs(1)] by blast
  with vs visible_certain [OF vs(1) r] assms(5,6) show ?thesis by (auto simp: read_spec_def)
qed

section \<open>Transactional writes\<close>

lemma write_txn_shape:
  "write_spec E k ts v (Some t) vs c0 = Inr c' \<Longrightarrow>
   \<exists>h. c' = put_intent E k \<lparr>mTxn = t, mTimestamp = WriteTimestamp t, mHistory = h\<rparr> v
     (case intent_of E c0 k of None \<Rightarrow> c0 | Some m \<Rightarrow> del_version k (mTimestamp m) c0)"
  by (auto simp: write_spec_def split: option.splits if_splits)

text \<open>The intent and the versions a transactional write leaves.\<close>

lemma write_txn_effect:
  assumes "healthy E c" "store_inv E (c s)" "\<not> Keys.IsLocal k"
    and "write_args_ok E (c s) k ts (Some t)" "mvccWrite E k ts d tomb (Some t) s = Inr s'"
  shows "\<exists>h. intent_of E (c s') k = Some \<lparr>mTxn = t, mTimestamp = WriteTimestamp t, mHistory = h\<rparr>"
    "version_at (c s') k u =
       (if u = WriteTimestamp t then Some (encodeMVCCValue d tomb)
        else if (\<exists>m. intent_of E (c s) k = Some m \<and> u = mTimestamp m) then None
        else version_at (c s) k u)"
    "store_inv E (c s')"
proof -
  obtain vs where vs: "versions_of (c s) k vs"
    and w: "write_spec E k ts (encodeMVCCValue d tomb) (Some t) vs (c s) = Inr (c s')"
    by (rule mvccWrite_Inr [OF assms(1-3,5)])
  note E = healthy_codec [OF assms(1)]
  have t: "uuid_ok (ID t)" "ts_proper (WriteTimestamp t)" using assms(4) by (auto simp: write_args_ok_def)
  from write_txn_shape [OF w] obtain h where
    c': "c s' = put_intent E k \<lparr>mTxn = t, mTimestamp = WriteTimestamp t, mHistory = h\<rparr> (encodeMVCCValue d tomb)
      (case intent_of E (c s) k of None \<Rightarrow> c s | Some m \<Rightarrow> del_version k (mTimestamp m) (c s))" ..
  show "\<exists>h. intent_of E (c s') k = Some \<lparr>mTxn = t, mTimestamp = WriteTimestamp t, mHistory = h\<rparr>"
    unfolding c' using E t(1) by simp
  show "version_at (c s') k u =
       (if u = WriteTimestamp t then Some (encodeMVCCValue d tomb)
        else if (\<exists>m. intent_of E (c s) k = Some m \<and> u = mTimestamp m) then None
        else version_at (c s) k u)"
    unfolding c' using t(2) by (auto split: option.splits)
  show "store_inv E (c s')"
    unfolding store_inv_def
  proof (intro allI impI)
    fix k' assume k': "\<not> Keys.IsLocal k'"
    show "key_inv E (c s') k'"
    proof (cases "k' = k")
      case True
      then show ?thesis
        using write_spec_inv [OF store_inv_key [OF assms(2,3)] E assms(4) rollback_value_ok vs w] by simp
    next
      case False
      then show ?thesis
        by (rule write_spec_other(1) [OF _ store_inv_key [OF assms(2) k'] E assms(4) vs w])
    qed
  qed
qed

lemma own_read:
  assumes "healthy E c" "store_inv E (c s)" "\<not> Keys.IsLocal k"
    and "intent_of E (c s) k = Some m" "version_at (c s) k (mTimestamp m) = Some (encodeMVCCValue d tomb)"
    and "optTxn opts = Some t" "ID t = ID (mTxn m)" "Epoch t = Epoch (mTxn m)"
    and "ts_ok ts" "ts_ok (UncertaintyLimit opts)"
  shows "MVCCGet E s k ts opts = Inr (written d tomb)"
proof -
  obtain vs where vs: "versions_of (c s) k vs" "MVCCGet E s k ts opts = read_spec E (c s) k vs ts opts"
    by (rule MVCCGet_read [OF assms(1-3,9,10)])
  have iff: "\<And>u v. (u, v) \<in> set vs \<longleftrightarrow> version_at (c s) k u = Some v" and ok: "vers_ok vs"
    using vs(1) by (auto simp: versions_of_def)
  have mem: "(mTimestamp m, encodeMVCCValue d tomb) \<in> set vs" using iff assms(5) by simp
  then have "mTimestamp m \<noteq> zero_ts"
    using ok by (induction vs) (auto simp: vers_ok_Cons)
  moreover have "map_of vs (mTimestamp m) = Some (encodeMVCCValue d tomb)"
    using mem vers_ok_distinct [OF ok] by simp
  ultimately show ?thesis
    using vs(2) assms(4,6-8) by (simp add: read_spec_def intent_switch_def own_spec_def read_value_encode)
qed

text \<open>
  C5: a transaction reads its own writes: after its put or delete succeeds, its reads of the
  key in the same epoch return what it wrote, at any read timestamp and in spite of
  uncertainty.
\<close>

theorem read_your_writes:
  assumes "healthy E c" "store_inv E (c s)" "\<not> Keys.IsLocal k"
    and "write_args_ok E (c s) k ts (Some t)" "mvccWrite E k ts d tomb (Some t) s = Inr s'"
    and "optTxn opts = Some t'" "ID t' = ID t" "Epoch t' = Epoch t"
    and "ts_ok rts" "ts_ok (UncertaintyLimit opts)"
  shows "MVCCGet E s' k rts opts = Inr (written d tomb)"
proof -
  note eff = write_txn_effect [OF assms(1-5)]
  obtain h where i: "intent_of E (c s') k = Some \<lparr>mTxn = t, mTimestamp = WriteTimestamp t, mHistory = h\<rparr>"
    using eff(1) by blast
  show ?thesis
    by (rule own_read [OF assms(1) eff(3) assms(3) i _ assms(6) _ _ assms(9,10)]) (use eff(2) assms(7,8) in simp_all)
qed

section \<open>Isolation\<close>

text \<open>Reads beneath a timestamp at which only one version differs.\<close>

lemma is_newest_beneath:
  assumes "\<And>u. u \<noteq> t \<Longrightarrow> version_at c' k u = version_at c k u" "version_at c k t = None" "t \<noteq> zero_ts"
  shows "is_newest c' k t ts r \<longleftrightarrow> is_newest c k zero_ts ts r"
  using assms unfolding is_newest_def skipped_def
  by (cases r) (auto split: prod.splits, (metis option.distinct(1))+)

lemma is_newest_below:
  assumes "\<And>u. u < t \<Longrightarrow> version_at c' k u = version_at c k u" "ts < t"
  shows "is_newest c' k zero_ts ts r \<longleftrightarrow> is_newest c k zero_ts ts r"
  using assms unfolding is_newest_def skipped_def
  by (cases r) (auto split: prod.splits)

lemma versions_of_eq:
  assumes "versions_of c k vs" "versions_of c' k vs'"
    and "\<And>ts r. is_newest c' k skip' ts r \<longleftrightarrow> is_newest c k skip ts r"
  shows "visible_spec skip' ts limit vs' = visible_spec skip ts limit vs"
proof -
  have "newest_at skip' u vs' = newest_at skip u vs" for u
    using is_newest_unique [of c k skip u] versions_of_newest [OF assms(1)] versions_of_newest [OF assms(2)] assms(3)
    by blast
  then show ?thesis unfolding visible_spec_def uncertain_at_def by presburger
qed

lemma fresh_write_timestamp:
  assumes "versions_of c k vs" "intent_of E c k = None"
    and "write_spec E k ts v (Some t) vs c = Inr c'" "ts \<le> WriteTimestamp t"
  shows "\<And>u. WriteTimestamp t \<le> u \<Longrightarrow> version_at c k u = None"
proof -
  fix u assume u: "WriteTimestamp t \<le> u"
  show "version_at c k u = None"
  proof (cases "newest_ts vs")
    case None
    then show ?thesis using newest_ts_None [OF assms(1)] by simp
  next
    case (Some vts)
    with assms(2,3) have "vts < ts" by (auto simp: write_spec_def split: if_splits)
    with assms(4) u have "vts < u" by (meson less_le_trans)
    then show ?thesis using newest_ts_Some(2) [OF assms(1) Some] by simp
  qed
qed

text \<open>
  C3: an uncommitted write is invisible to other readers and blocks those it could affect. A
  read outside the transaction whose timestamp and uncertainty limit are below the intent
  returns exactly what it returned before the write; a read at or above the intent (not asked
  to be inconsistent) fails with a write-intent error naming the transaction.
\<close>

theorem uncommitted_isolation:
  assumes "healthy E c" "store_inv E (c s)" "\<not> Keys.IsLocal k" "intent_of E (c s) k = None"
    and "write_args_ok E (c s) k ts (Some t)" "mvccWrite E k ts d tomb (Some t) s = Inr s'"
    and "case optTxn opts of None \<Rightarrow> True | Some t' \<Rightarrow> ID t' \<noteq> ID t"
    and "Inconsistent opts = False" "ts_ok rts" "ts_ok (UncertaintyLimit opts)"
  shows "MVCCGet E s' k rts opts =
    (if rts < WriteTimestamp t \<and> UncertaintyLimit opts < WriteTimestamp t then MVCCGet E s k rts opts
     else Inl (WriteIntentError [\<lparr>intKey = k, intTxn = t\<rparr>]))"
proof -
  note eff = write_txn_effect [OF assms(1-3,5,6)]
  obtain h where i: "intent_of E (c s') k = Some \<lparr>mTxn = t, mTimestamp = WriteTimestamp t, mHistory = h\<rparr>"
    using eff(1) by blast
  obtain vs where vs: "versions_of (c s) k vs" "MVCCGet E s k rts opts = read_spec E (c s) k vs rts opts"
    by (rule MVCCGet_read [OF assms(1-3,9,10)])
  obtain vs' where vs': "versions_of (c s') k vs'" "MVCCGet E s' k rts opts = read_spec E (c s') k vs' rts opts"
    by (rule MVCCGet_read [OF assms(1) eff(3) assms(3,9,10)])
  obtain ws where ws: "versions_of (c s) k ws"
    "write_spec E k ts (encodeMVCCValue d tomb) (Some t) ws (c s) = Inr (c s')"
    by (rule mvccWrite_Inr [OF assms(1-3,6)])
  have t: "WriteTimestamp t \<noteq> zero_ts" "ts \<le> WriteTimestamp t"
    using assms(5) by (auto simp: write_args_ok_def ts_proper_def)
  have none: "version_at (c s) k (WriteTimestamp t) = None"
    using fresh_write_timestamp [OF ws(1) assms(4) ws(2) t(2)] by simp
  have "visible_spec (WriteTimestamp t) rts (UncertaintyLimit opts) vs' =
      visible_spec zero_ts rts (UncertaintyLimit opts) vs"
    by (rule versions_of_eq [OF vs(1) vs'(1)])
      (rule is_newest_beneath, use eff(2) assms(4) none t(1) in auto)
  moreover have "intent_switch opts rts \<lparr>mTxn = t, mTimestamp = WriteTimestamp t, mHistory = h\<rparr> =
      (if rts < WriteTimestamp t \<and> UncertaintyLimit opts < WriteTimestamp t
       then Some (zero_ts, WriteTimestamp t) else None)"
    using assms(7,8) by (auto simp: intent_switch_def intentAboveRead_def Let_def split: option.splits)
  ultimately show ?thesis
    using vs(2) vs'(2) i assms(4) by (auto simp: read_spec_def)
qed

section \<open>Commit and abort\<close>

lemma resolve_Inr:
  assumes "healthy E c" "store_inv E (c s)" "\<not> Keys.IsLocal k" "MVCCResolveIntent E k i status commitTS s = Inr s'"
  shows "resolve_spec E k i status commitTS (c s) = Inr (c s')"
  using MVCCResolveIntent_refines [OF assms(1) store_inv_key [OF assms(2,3)], of i status commitTS] assms(4)
  by simp

lemma resolve_other:
  assumes "k' \<noteq> k" "key_inv E c k'" "commitTS = zero_ts \<or> ts_proper commitTS"
    and "resolve_spec E k i status commitTS c = Inr c'"
  shows "key_inv E c' k'"
  using assms by (auto simp: resolve_spec_def key_inv_other split: if_splits option.splits)

lemma resolve_store_inv:
  assumes "healthy E c" "store_inv E (c s)" "\<not> Keys.IsLocal k" "commitTS = zero_ts \<or> ts_proper commitTS"
    and "MVCCResolveIntent E k i status commitTS s = Inr s'"
  shows "store_inv E (c s')"
  using resolve_Inr [OF assms(1-3,5)] assms(2-4) resolve_spec_inv resolve_other
  unfolding store_inv_def by metis

lemma resolve_commit_effect:
  assumes "resolve_spec E k i COMMITTED cts c = Inr c'" "intent_of E c k = Some m" "ID (mTxn m) = i"
    and "ts_proper cts" "version_at c k (mTimestamp m) = Some raw"
  shows "intent_of E c' k = None"
    and "version_at c' k u = (if u = cts then Some raw else if u = mTimestamp m then None else version_at c k u)"
proof -
  have "cts \<noteq> zero_ts" using assms(4) by (simp add: ts_proper_def)
  with assms consider "cts = mTimestamp m" "c' = del_meta k c"
    | "c' = put_version k cts raw (del_version k (mTimestamp m) (del_meta k c))"
    by (auto simp: resolve_spec_def split: if_splits)
  then show "intent_of E c' k = None"
    "version_at c' k u = (if u = cts then Some raw else if u = mTimestamp m then None else version_at c k u)"
    by (cases; use assms in simp)+
qed

text \<open>
  C1: committing a write makes it visible from the commit timestamp on and changes nothing
  before it: a plain read at or above the commit timestamp returns the value written, a
  plain read below it what the read returned before the transaction wrote.
\<close>

theorem commit_visibility:
  assumes "healthy E c" "store_inv E (c s)" "\<not> Keys.IsLocal k" "intent_of E (c s) k = None"
    and "write_args_ok E (c s) k ts (Some t)" "mvccWrite E k ts d tomb (Some t) s = Inr s1"
    and "ts_proper cts" "WriteTimestamp t \<le> cts"
    and "MVCCResolveIntent E k (ID t) COMMITTED cts s1 = Inr s2"
    and "UncertaintyLimit opts = zero_ts" "ts_ok rts"
  shows "MVCCGet E s2 k rts opts = (if cts \<le> rts then Inr (written d tomb) else MVCCGet E s k rts opts)"
proof -
  note eff = write_txn_effect [OF assms(1-3,5,6)]
  note res = resolve_Inr [OF assms(1) eff(3) assms(3,9)]
  have inv2: "store_inv E (c s2)" by (rule resolve_store_inv [OF assms(1) eff(3) assms(3) _ assms(9)]) (use assms(7) in simp)
  obtain h where i: "intent_of E (c s1) k = Some \<lparr>mTxn = t, mTimestamp = WriteTimestamp t, mHistory = h\<rparr>"
    using eff(1) by blast
  obtain ws where ws: "versions_of (c s) k ws"
    "write_spec E k ts (encodeMVCCValue d tomb) (Some t) ws (c s) = Inr (c s1)"
    by (rule mvccWrite_Inr [OF assms(1-3,6)])
  have t: "ts \<le> WriteTimestamp t" using assms(5) by (auto simp: write_args_ok_def)
  note none = fresh_write_timestamp [OF ws(1) assms(4) ws(2) t]
  have i2: "intent_of E (c s2) k = None"
    and v2: "version_at (c s2) k u = (if u = cts then Some (encodeMVCCValue d tomb) else version_at (c s) k u)" for u
    using resolve_commit_effect [OF res i _ assms(7), of "encodeMVCCValue d tomb"] eff(2) assms(4) none [of "WriteTimestamp t"]
    by auto
  have lim: "ts_ok (UncertaintyLimit opts)" using assms(10) by (simp add: ts_ok_def zero_ts_def)
  obtain vs where vs: "versions_of (c s) k vs" "MVCCGet E s k rts opts = read_spec E (c s) k vs rts opts"
    by (rule MVCCGet_read [OF assms(1-3,11) lim])
  obtain vs2 where vs2: "versions_of (c s2) k vs2" "MVCCGet E s2 k rts opts = read_spec E (c s2) k vs2 rts opts"
    by (rule MVCCGet_read [OF assms(1) inv2 assms(3,11) lim])
  show ?thesis
  proof (cases "cts \<le> rts")
    case True
    have "is_newest (c s2) k zero_ts rts (Some (cts, encodeMVCCValue d tomb))"
      using True v2 none assms(8) by (auto simp: is_newest_def skipped_def)
    from visible_certain [OF vs2(1) this, of "UncertaintyLimit opts"] show ?thesis
      using True vs2(2) i2 assms(10) by (simp add: read_spec_def read_value_encode)
  next
    case False
    obtain r where r: "is_newest (c s) k zero_ts rts r" using is_newest_exists [OF vs(1)] by blast
    have "is_newest (c s2) k zero_ts rts r"
      by (rule iffD2 [OF is_newest_below r]) (use v2 False in auto)
    from visible_certain [OF vs2(1) this] visible_certain [OF vs(1) r] show ?thesis
      using False vs(2) vs2(2) i2 assms(4,10) by (simp add: read_spec_def)
  qed
qed

lemma fresh_write_contents:
  assumes "healthy E c" "store_inv E (c s)" "\<not> Keys.IsLocal k" "intent_of E (c s) k = None"
    and "write_args_ok E (c s) k ts (Some t)" "mvccWrite E k ts d tomb (Some t) s = Inr s1"
  shows "intent_of E (c s1) k = Some \<lparr>mTxn = t, mTimestamp = WriteTimestamp t, mHistory = []\<rparr>"
    and "del_version k (WriteTimestamp t) (del_meta k (c s1)) = c s"
proof -
  obtain ws where ws: "versions_of (c s) k ws"
    "write_spec E k ts (encodeMVCCValue d tomb) (Some t) ws (c s) = Inr (c s1)"
    by (rule mvccWrite_Inr [OF assms(1-3,6)])
  have t: "ts \<le> WriteTimestamp t" "ts_proper (WriteTimestamp t)" "uuid_ok (ID t)"
    using assms(5) by (auto simp: write_args_ok_def)
  have none: "c s (ver_key k (WriteTimestamp t)) = None"
    using fresh_write_timestamp [OF ws(1) assms(4) ws(2) t(1), of "WriteTimestamp t"] t(2)
    by (simp add: version_at_def ts_proper_def)
  have meta: "c s (meta_key k) = None"
    using intent_of_None [OF healthy_codec [OF assms(1)], of "c s" k] store_inv_key [OF assms(2,3)] assms(4)
    by (simp add: key_inv_def)
  have c1: "c s1 = put_intent E k \<lparr>mTxn = t, mTimestamp = WriteTimestamp t, mHistory = []\<rparr> (encodeMVCCValue d tomb) (c s)"
    using ws(2) assms(4) by (auto simp: write_spec_def split: option.splits if_splits)
  show "intent_of E (c s1) k = Some \<lparr>mTxn = t, mTimestamp = WriteTimestamp t, mHistory = []\<rparr>"
    unfolding c1 using healthy_codec [OF assms(1)] t(3) by simp
  show "del_version k (WriteTimestamp t) (del_meta k (c s1)) = c s"
    unfolding c1 by (rule ext) (use none meta in \<open>auto simp: content_updates\<close>)
qed

text \<open>
  C2: aborting undoes a write exactly: when the key had no intent before, the store's
  contents after the write and its abort are the contents before the write, on every engine
  key.
\<close>

theorem abort_restores:
  assumes "healthy E c" "store_inv E (c s)" "\<not> Keys.IsLocal k" "intent_of E (c s) k = None"
    and "write_args_ok E (c s) k ts (Some t)" "mvccWrite E k ts d tomb (Some t) s = Inr s1"
    and "MVCCResolveIntent E k (ID t) ABORTED cts s1 = Inr s2"
  shows "c s2 = c s"
  using resolve_Inr [OF assms(1) write_txn_effect(3) [OF assms(1-3,5,6)] assms(3,7)] fresh_write_contents [OF assms(1-6)]
  by (simp add: resolve_spec_def)

section \<open>Savepoints\<close>

lemma last_at_or_below_less: "h \<noteq> [] \<Longrightarrow> last_at_or_below f h < length h"
proof -
  have "foldl (\<lambda>first (i, e). if sint (ivSequence e) \<le> f then i else first) a xs \<le> n"
    if "a \<le> n" "\<forall>(i, e) \<in> set xs. i \<le> n" for a n and xs :: "(nat \<times> IntentValue) list"
    using that by (induction xs arbitrary: a) auto
  moreover have "\<forall>(i, e) \<in> set (enumerate 0 h). i \<le> length h - 1"
    by (auto simp: in_set_enumerate_eq)
  ultimately have "last_at_or_below f h \<le> length h - 1"
    unfolding last_at_or_below_def by blast
  then show "h \<noteq> [] \<Longrightarrow> last_at_or_below f h < length h" by (cases h) auto
qed

lemma boundedHistory_last:
  assumes "0 \<le> sint floor"
  obtains h where "boundedHistory prev add floor = h @ [add]"
proof -
  define hist where "hist = (if length prev > 0 \<and> ivSequence (prev ! (length prev - 1)) = ivSequence add
    then prev[length prev - 1 := add] else prev @ [add])"
  have "hist \<noteq> []" "List.last hist = add"
    by (auto simp: hist_def last_list_update)
  then have h: "hist = butlast hist @ [add]" by (metis append_butlast_last_id)
  have "drop n hist = drop n (butlast hist) @ [add]" if "n < length hist" for n
    using that by (subst h) simp
  moreover have "boundedHistory prev add floor = hist \<or>
      boundedHistory prev add floor = drop (last_at_or_below (sint (floor - 1)) hist) hist"
    using assms by (auto simp: boundedHistory_def hist_def Let_def)
  ultimately show thesis using that h last_at_or_below_less [OF \<open>hist \<noteq> []\<close>] by metis
qed

lemma history_value:
  "decodeMVCCValue (encodeMVCCValue d tomb) = Inr (v, tb) \<Longrightarrow>
   tb = tomb \<and> encodeMVCCValue (Some (case v of None \<Rightarrow> [] | Some x \<Rightarrow> x)) tb = encodeMVCCValue d tomb"
  by (auto simp: encodeMVCCValue_def decodeMVCCValue_def clone_nil_def split: if_splits option.splits)

lemma rollback_store_inv:
  assumes "healthy E c" "store_inv E (c s)" "\<not> Keys.IsLocal k" "MVCCRollbackIntent E k i seq s = Inr s'"
  shows "store_inv E (c s')" "c s' = rollback_spec E k i seq (c s)"
proof -
  show eq: "c s' = rollback_spec E k i seq (c s)"
    using MVCCRollbackIntent_refines [OF assms(1) store_inv_key [OF assms(2,3)], of i seq] assms(4) by simp
  show "store_inv E (c s')"
    unfolding store_inv_def eq
  proof (intro allI impI)
    fix k' assume k': "\<not> Keys.IsLocal k'"
    show "key_inv E (rollback_spec E k i seq (c s)) k'"
    proof (cases "k' = k")
      case True
      then show ?thesis using rollback_spec_inv [OF store_inv_key [OF assms(2,3)] healthy_codec [OF assms(1)]] by simp
    next
      case False
      then show ?thesis
        by (rule rollback_spec_other [OF _ store_inv_key [OF assms(2) k'] store_inv_key [OF assms(2,3)] healthy_codec [OF assms(1)]])
    qed
  qed
qed

text \<open>The history a rewrite of the transaction's own intent leaves ends with the value overwritten.\<close>

lemma rewrite_history_last:
  assumes "healthy E c" "store_inv E (c s)" "\<not> Keys.IsLocal k"
    and "intent_of E (c s) k = Some m" "version_at (c s) k (mTimestamp m) = Some (encodeMVCCValue d tomb)"
    and "ID t = ID (mTxn m)" "Epoch t = Epoch (mTxn m)" "0 \<le> sint (HistoryFloor t)"
    and "write_args_ok E (c s) k ts (Some t)" "mvccWrite E k ts d' tomb' (Some t) s = Inr s'"
  obtains h a where "intent_of E (c s') k = Some \<lparr>mTxn = t, mTimestamp = WriteTimestamp t, mHistory = h @ [a]\<rparr>"
    "ivSequence a = Sequence (mTxn m)" "encodeMVCCValue (Some (ivValue a)) (ivTombstone a) = encodeMVCCValue d tomb"
    "mHistory m = [] \<Longrightarrow> h = []"
proof -
  obtain vs where vs: "versions_of (c s) k vs"
    "write_spec E k ts (encodeMVCCValue d' tomb') (Some t) vs (c s) = Inr (c s')"
    by (rule mvccWrite_Inr [OF assms(1-3,10)])
  obtain v tb where dec: "decodeMVCCValue (encodeMVCCValue d tomb) = Inr (v, tb)"
    by (cases tomb) (auto simp: encodeMVCCValue_def decodeMVCCValue_def)
  define a where "a = \<lparr>ivSequence = Sequence (mTxn m), ivValue = (case v of None \<Rightarrow> [] | Some x \<Rightarrow> x), ivTombstone = tb\<rparr>"
  obtain h where h: "boundedHistory (mHistory m) a (HistoryFloor t) = h @ [a]"
    by (rule boundedHistory_last [OF assms(8)])
  have "c s' = put_intent E k \<lparr>mTxn = t, mTimestamp = WriteTimestamp t, mHistory = h @ [a]\<rparr>
      (encodeMVCCValue d' tomb') (del_version k (mTimestamp m) (c s))"
    using vs(2) assms(4-7) h by (auto simp: write_spec_def history_spec_def dec a_def split: if_splits)
  then have i: "intent_of E (c s') k = Some \<lparr>mTxn = t, mTimestamp = WriteTimestamp t, mHistory = h @ [a]\<rparr>"
    using healthy_codec [OF assms(1)] assms(9) by (simp add: write_args_ok_def)
  have nil: "h = []" if "mHistory m = []"
    using arg_cong [OF h, of length] that assms(8)
    by (auto simp: boundedHistory_def Let_def last_at_or_below_def split: if_splits)
  show thesis
    by (rule that [OF i]) (use conjunct2 [OF history_value [OF dec]] nil in \<open>simp_all only: a_def IntentValue.select_convs\<close>)
qed

lemma rollback_idx_last:
  "sint (ivSequence a) \<le> sint seq \<Longrightarrow> rollback_idx (h @ [a]) seq (length (h @ [a])) = Some (length h)"
  by simp


text \<open>
  C8: rolling back to a savepoint taken before the transaction first wrote a key removes its
  write without a trace: the contents are those before the write, on every engine key.
\<close>

theorem savepoint_undo:
  assumes "healthy E c" "store_inv E (c s)" "\<not> Keys.IsLocal k" "intent_of E (c s) k = None"
    and "write_args_ok E (c s) k ts (Some t)" "mvccWrite E k ts d tomb (Some t) s = Inr s1"
    and "sint seq < sint (Sequence t)" "MVCCRollbackIntent E k (ID t) seq s1 = Inr s2"
  shows "c s2 = c s"
proof -
  have "c s2 = del_meta k (del_version k (WriteTimestamp t) (c s1))"
    using rollback_store_inv(2) [OF assms(1) write_txn_effect(3) [OF assms(1-3,5,6)] assms(3,8)]
      fresh_write_contents(1) [OF assms(1-6)] assms(7)
    by (simp add: rollback_spec_def)
  also have "\<dots> = del_version k (WriteTimestamp t) (del_meta k (c s1))"
    by (rule ext) (simp add: content_updates)
  finally show ?thesis using fresh_write_contents(2) [OF assms(1-6)] by simp
qed

section \<open>Write-too-old\<close>

lemma newest_ts_unique:
  assumes "versions_of c k vs" "versions_of c k ws"
  shows "newest_ts ws = newest_ts vs"
proof (cases "newest_ts vs")
  case None
  then show ?thesis using newest_ts_None [OF assms(1)] newest_ts_Some(1) [OF assms(2)] by (cases "newest_ts ws") auto
next
  case (Some v)
  note v = newest_ts_Some [OF assms(1) Some]
  show ?thesis
  proof (cases "newest_ts ws")
    case None
    then show ?thesis using v(1) newest_ts_None [OF assms(2)] by simp
  next
    case (Some w)
    note w = newest_ts_Some [OF assms(2) Some]
    have "\<not> v < w" using v(2) [of w] w(1) by auto
    moreover have "\<not> w < v" using w(2) [of v] v(1) by auto
    ultimately have "v = w" by simp
    then show ?thesis using Some \<open>newest_ts vs = Some v\<close> by simp
  qed
qed

lemma newest_ts_ge:
  assumes "versions_of c k vs"
  shows "(\<exists>u. version_at c k u \<noteq> None \<and> ts \<le> u) \<longleftrightarrow> (\<exists>v. newest_ts vs = Some v \<and> ts \<le> v)"
proof (cases "newest_ts vs")
  case None
  then show ?thesis using newest_ts_None [OF assms] by simp
next
  case (Some v)
  note n = newest_ts_Some [OF assms Some]
  have "u \<le> v" if "version_at c k u \<noteq> None" for u using n(2) that by (meson not_le)
  then show ?thesis using n(1) Some by (auto intro: order_trans)
qed

lemma write_outcome:
  assumes "healthy E c" "store_inv E (c s)" "\<not> Keys.IsLocal k" "intent_of E (c s) k = None" "versions_of (c s) k vs"
  shows "case newest_ts vs of None \<Rightarrow> \<exists>s'. mvccWrite E k ts d tomb (Some t) s = Inr s'
    | Some v \<Rightarrow> if ts \<le> v then mvccWrite E k ts d tomb (Some t) s = Inl (WriteTooOldError ts (Next v))
        else \<exists>s'. mvccWrite E k ts d tomb (Some t) s = Inr s'"
proof -
  obtain ws where ws: "versions_of (c s) k ws"
    "on_contents c (mvccWrite E k ts d tomb (Some t) s) = write_spec E k ts (encodeMVCCValue d tomb) (Some t) ws (c s)"
    by (rule mvccWrite_refines [OF assms(1) nonlocal_addressable [OF assms(3)] store_inv_key [OF assms(2,3)]])
  have "newest_ts ws = newest_ts vs" by (rule newest_ts_unique [OF assms(5) ws(1)])
  then show ?thesis using ws(2) assms(4)
    by (cases "mvccWrite E k ts d tomb (Some t) s") (auto simp: write_spec_def split: option.splits if_splits)
qed

lemma versions_exist:
  assumes "healthy E c" "store_inv E (c s)" "\<not> Keys.IsLocal k"
  obtains vs where "versions_of (c s) k vs"
  by (rule mvccWrite_refines [OF assms(1) nonlocal_addressable [OF assms(3)] store_inv_key [OF assms(2,3)], where ts = zero_ts and txn = None])

lemma write_succeeds:
  assumes "healthy E c" "store_inv E (c s)" "\<not> Keys.IsLocal k" "intent_of E (c s) k = None"
    and "\<And>u. version_at (c s) k u \<noteq> None \<Longrightarrow> u < ts"
  shows "\<exists>s'. mvccWrite E k ts d tomb (Some t) s = Inr s'"
proof -
  obtain vs where vs: "versions_of (c s) k vs" by (rule versions_exist [OF assms(1-3)])
  have "v < ts" if "newest_ts vs = Some v" for v using assms(5) newest_ts_Some(1) [OF vs that] by blast
  then show ?thesis
    using write_outcome [OF assms(1-4) vs, of ts d tomb t] by (fastforce split: option.splits if_splits)
qed

text \<open>
  C7: a transactional write to a key without an intent is refused exactly when a committed
  version lies at or above the timestamp it checks; the write-too-old error then names the
  successor of the newest version, and the write succeeds at any timestamp above that version.
\<close>

theorem write_too_old_exact:
  assumes "healthy E c" "store_inv E (c s)" "\<not> Keys.IsLocal k" "intent_of E (c s) k = None"
  shows "if \<exists>u. version_at (c s) k u \<noteq> None \<and> ts \<le> u
    then \<exists>v. version_at (c s) k v \<noteq> None \<and> (\<forall>u. v < u \<longrightarrow> version_at (c s) k u = None) \<and>
      mvccWrite E k ts d tomb (Some t) s = Inl (WriteTooOldError ts (Next v)) \<and>
      (\<forall>ts' t'. v < ts' \<longrightarrow> (\<exists>s'. mvccWrite E k ts' d tomb (Some t') s = Inr s'))
    else \<exists>s'. mvccWrite E k ts d tomb (Some t) s = Inr s'"
proof (cases "\<exists>u. version_at (c s) k u \<noteq> None \<and> ts \<le> u")
  case True
  obtain vs where vs: "versions_of (c s) k vs" by (rule versions_exist [OF assms(1-3)])
  obtain v where v: "newest_ts vs = Some v" "ts \<le> v" using True newest_ts_ge [OF vs] by blast
  note n = newest_ts_Some [OF vs v(1)]
  have "\<exists>s'. mvccWrite E k ts' d tomb (Some t') s = Inr s'" if "v < ts'" for ts' t'
    using write_outcome [OF assms vs, of ts' d tomb t'] v(1) that by (simp split: if_splits)
  moreover have "mvccWrite E k ts d tomb (Some t) s = Inl (WriteTooOldError ts (Next v))"
    using write_outcome [OF assms vs, of ts d tomb t] v by simp
  ultimately show ?thesis using n(1,2) by (subst if_P [OF True]) blast
next
  case False
  have "\<exists>s'. mvccWrite E k ts d tomb (Some t) s = Inr s'"
    by (rule write_succeeds [OF assms]) (use False not_le in blast)
  then show ?thesis by (subst if_not_P [OF False])
qed

section \<open>Witnesses on the in-memory engine\<close>

lemma demo_contents: "map_of demo_store = put_version [7] (Timestamp 5 0) (encodeMVCCValue (Some [1]) False) Map.empty"
  by (simp add: demo_store_def put_version_def)

lemma demo_ts [simp]: "ts_proper (Timestamp 5 0)" "ts_proper (Timestamp 6 0)" "ts_proper (Timestamp 8 0)"
    "ts_proper (Timestamp 9 0)" "ts_ok (Timestamp 6 0)" "ts_ok (Timestamp 9 0)" "ts_ok zero_ts"
  by (simp_all add: ts_proper_def ts_ok_def zero_ts_def)

lemma demo_order [simp]: "Timestamp 8 0 \<le> Timestamp 9 0" "\<not> Timestamp 9 0 \<le> Timestamp 6 0"
  by (simp_all add: not_less [symmetric] ts_less_sint)

lemma demo_inv: "store_inv (mem_deps m) (map_of demo_store)"
  unfolding store_inv_def demo_contents
proof (intro allI impI)
  fix k
  show "key_inv (mem_deps m) (put_version [7] (Timestamp 5 0) (encodeMVCCValue (Some [1]) False) Map.empty) k"
    by (cases "k = [7]") (simp_all add: key_inv_put_version key_inv_other(1) empty_key_inv rollback_value_ok)
qed

lemma demo_nonlocal: "\<not> Keys.IsLocal [7]"
  by (simp add: Keys.IsLocal_def)

lemma demo_read:
  "version_at (map_of demo_store) [7] u = (if u = Timestamp 5 0 then Some (encodeMVCCValue (Some [1]) False) else None)"
  "intent_of (mem_deps m) (map_of demo_store) [7] = None"
  unfolding demo_contents by simp_all

lemma demo_args: "write_args_ok (mem_deps m) (map_of demo_store) [7] (Timestamp 8 0) (Some (demo_txn (Timestamp 8 0) q))"
  by (simp add: write_args_ok_def demo_txn_def uuid_ok_def demo_read)

lemma demo_write:
  obtains s1 where "mvccWrite (mem_deps m) [7] (Timestamp 8 0) d tomb (Some (demo_txn (Timestamp 8 0) q)) demo_store = Inr s1"
  using write_succeeds [OF mem_healthy demo_inv demo_nonlocal demo_read(2), of "Timestamp 8 0"] demo_read(1)
  by (fastforce simp: ts_less_sint split: if_splits)

lemma demo_opts_simps [simp]: "optTxn (demo_opts t) = t" "UncertaintyLimit (demo_opts t) = zero_ts"
    "Inconsistent (demo_opts t) = False" "ID (demo_txn ts q) = replicate 16 1" "Epoch (demo_txn ts q) = 0"
    "WriteTimestamp (demo_txn ts q) = ts" "Sequence (demo_txn ts q) = q" "HistoryFloor (demo_txn ts q) = 0"
  by (simp_all add: demo_opts_def demo_txn_def)

lemmas demo = mem_healthy demo_inv demo_nonlocal

theorem MVCCGet_snapshot_witness:
  "\<exists>r. is_newest (map_of demo_store) [7] zero_ts (Timestamp 9 0) r \<and>
    MVCCGet (mem_deps True) demo_store [7] (Timestamp 9 0) (demo_opts None) =
      (case r of None \<Rightarrow> Inr None | Some (_, v) \<Rightarrow> read_value v)"
  by (rule MVCCGet_snapshot [OF demo _ demo_read(2)]) simp_all

theorem read_your_writes_witness:
  "\<exists>s1. mvccWrite (mem_deps True) [7] (Timestamp 8 0) (Some [2]) False (Some (demo_txn (Timestamp 8 0) 1)) demo_store = Inr s1 \<and>
    MVCCGet (mem_deps True) s1 [7] (Timestamp 6 0) (demo_opts (Some (demo_txn (Timestamp 8 0) 1))) = Inr (Some [2])"
proof -
  obtain s1 where s1: "mvccWrite (mem_deps True) [7] (Timestamp 8 0) (Some [2]) False (Some (demo_txn (Timestamp 8 0) 1)) demo_store = Inr s1"
    by (rule demo_write)
  have "MVCCGet (mem_deps True) s1 [7] (Timestamp 6 0) (demo_opts (Some (demo_txn (Timestamp 8 0) 1))) = Inr (written (Some [2]) False)"
    by (rule read_your_writes [OF demo demo_args s1, where t' = "demo_txn (Timestamp 8 0) 1"]) simp_all
  then show ?thesis using s1 by (simp add: written_def)
qed

theorem uncommitted_isolation_witness:
  "\<exists>s1. mvccWrite (mem_deps True) [7] (Timestamp 8 0) (Some [2]) False (Some (demo_txn (Timestamp 8 0) 1)) demo_store = Inr s1 \<and>
    MVCCGet (mem_deps True) s1 [7] (Timestamp 6 0) (demo_opts None) = MVCCGet (mem_deps True) demo_store [7] (Timestamp 6 0) (demo_opts None) \<and>
    MVCCGet (mem_deps True) s1 [7] (Timestamp 9 0) (demo_opts None) = Inl (WriteIntentError [\<lparr>intKey = [7], intTxn = demo_txn (Timestamp 8 0) 1\<rparr>])"
proof -
  obtain s1 where s1: "mvccWrite (mem_deps True) [7] (Timestamp 8 0) (Some [2]) False (Some (demo_txn (Timestamp 8 0) 1)) demo_store = Inr s1"
    by (rule demo_write)
  have "MVCCGet (mem_deps True) s1 [7] rts (demo_opts None) =
    (if rts < Timestamp 8 0 \<and> zero_ts < Timestamp 8 0 then MVCCGet (mem_deps True) demo_store [7] rts (demo_opts None)
     else Inl (WriteIntentError [\<lparr>intKey = [7], intTxn = demo_txn (Timestamp 8 0) 1\<rparr>]))" if "ts_ok rts" for rts
    using uncommitted_isolation [OF demo demo_read(2) demo_args s1, of "demo_opts None" rts] that by simp
  from this [of "Timestamp 6 0"] this [of "Timestamp 9 0"] show ?thesis using s1 by (simp add: ts_less_sint zero_ts_def)
qed

lemma demo_resolve:
  assumes "mvccWrite (mem_deps m) [7] (Timestamp 8 0) d tomb (Some (demo_txn (Timestamp 8 0) q)) demo_store = Inr s1"
    and "status \<noteq> PENDING"
  obtains s2 where "MVCCResolveIntent (mem_deps m) [7] (replicate 16 1) status cts s1 = Inr s2"
proof -
  note eff = write_txn_effect [OF demo demo_args assms(1)]
  obtain c2 where "resolve_spec (mem_deps m) [7] (replicate 16 1) status cts (map_of s1) = Inr c2"
    using eff(1,2) assms(2) by (fastforce simp: resolve_spec_def split: option.splits)
  with MVCCResolveIntent_refines [OF mem_healthy store_inv_key [OF eff(3) demo_nonlocal], of "replicate 16 1" status cts] that
  show thesis by (cases "MVCCResolveIntent (mem_deps m) [7] (replicate 16 1) status cts s1") auto
qed

theorem commit_visibility_witness:
  "\<exists>s1 s2. mvccWrite (mem_deps True) [7] (Timestamp 8 0) (Some [2]) False (Some (demo_txn (Timestamp 8 0) 1)) demo_store = Inr s1 \<and>
    MVCCResolveIntent (mem_deps True) [7] (replicate 16 1) COMMITTED (Timestamp 9 0) s1 = Inr s2 \<and>
    MVCCGet (mem_deps True) s2 [7] (Timestamp 9 0) (demo_opts None) = Inr (Some [2]) \<and>
    MVCCGet (mem_deps True) s2 [7] (Timestamp 6 0) (demo_opts None) = MVCCGet (mem_deps True) demo_store [7] (Timestamp 6 0) (demo_opts None)"
proof -
  obtain s1 where s1: "mvccWrite (mem_deps True) [7] (Timestamp 8 0) (Some [2]) False (Some (demo_txn (Timestamp 8 0) 1)) demo_store = Inr s1"
    by (rule demo_write)
  obtain s2 where s2: "MVCCResolveIntent (mem_deps True) [7] (replicate 16 1) COMMITTED (Timestamp 9 0) s1 = Inr s2"
    by (rule demo_resolve [OF s1, of COMMITTED]) simp_all
  have "MVCCGet (mem_deps True) s2 [7] rts (demo_opts None) =
    (if Timestamp 9 0 \<le> rts then Inr (written (Some [2]) False) else MVCCGet (mem_deps True) demo_store [7] rts (demo_opts None))"
    if "ts_ok rts" for rts
    using commit_visibility [OF demo demo_read(2) demo_args s1, of "Timestamp 9 0" s2 "demo_opts None" rts] s2 that
    by simp
  from this [of "Timestamp 6 0"] this [of "Timestamp 9 0"] show ?thesis using s1 s2
    by (simp add: written_def)
qed

theorem abort_restores_witness:
  "\<exists>s1 s2. mvccWrite (mem_deps True) [7] (Timestamp 8 0) (Some [2]) False (Some (demo_txn (Timestamp 8 0) 1)) demo_store = Inr s1 \<and>
    MVCCResolveIntent (mem_deps True) [7] (replicate 16 1) ABORTED zero_ts s1 = Inr s2 \<and> map_of s2 = map_of demo_store"
proof -
  obtain s1 where s1: "mvccWrite (mem_deps True) [7] (Timestamp 8 0) (Some [2]) False (Some (demo_txn (Timestamp 8 0) 1)) demo_store = Inr s1"
    by (rule demo_write)
  obtain s2 where s2: "MVCCResolveIntent (mem_deps True) [7] (replicate 16 1) ABORTED zero_ts s1 = Inr s2"
    by (rule demo_resolve [OF s1, of ABORTED]) simp_all
  have "map_of s2 = map_of demo_store"
    by (rule abort_restores [OF demo demo_read(2) demo_args s1]) (use s2 in simp)
  then show ?thesis using s1 s2 by blast
qed

text \<open>Two writes of one transaction on the demonstration store.\<close>

lemma demo_rewrite:
  assumes s1: "mvccWrite (mem_deps m) [7] (Timestamp 8 0) d tomb (Some (demo_txn (Timestamp 8 0) 1)) demo_store = Inr s1"
  obtains s2 where "mvccWrite (mem_deps m) [7] (Timestamp 8 0) d' tomb' (Some (demo_txn (Timestamp 8 0) 3)) s1 = Inr s2"
    "write_args_ok (mem_deps m) (map_of s1) [7] (Timestamp 8 0) (Some (demo_txn (Timestamp 8 0) 3))"
proof -
  note i = fresh_write_contents(1) [OF demo demo_read(2) demo_args s1]
  note inv = write_txn_effect(3) [OF demo demo_args s1]
  obtain vs where "versions_of (map_of s1) [7] vs" "on_contents map_of (mvccWrite (mem_deps m) [7] (Timestamp 8 0) d' tomb' (Some (demo_txn (Timestamp 8 0) 3)) s1) =
      write_spec (mem_deps m) [7] (Timestamp 8 0) (encodeMVCCValue d' tomb') (Some (demo_txn (Timestamp 8 0) 3)) vs (map_of s1)"
    by (rule mvccWrite_refines [OF mem_healthy nonlocal_addressable [OF demo_nonlocal] store_inv_key [OF inv demo_nonlocal]])
  then obtain s2 where "mvccWrite (mem_deps m) [7] (Timestamp 8 0) d' tomb' (Some (demo_txn (Timestamp 8 0) 3)) s1 = Inr s2"
    using i by (cases "mvccWrite (mem_deps m) [7] (Timestamp 8 0) d' tomb' (Some (demo_txn (Timestamp 8 0) 3)) s1")
      (auto simp: write_spec_def)
  then show thesis
    by (rule that) (use i in \<open>simp add: write_args_ok_def uuid_ok_def\<close>)
qed

lemma mem_rollback:
  assumes "store_inv (mem_deps m) (map_of s)" "\<not> Keys.IsLocal k"
  obtains s' where "MVCCRollbackIntent (mem_deps m) k i seq s = Inr s'"
  using MVCCRollbackIntent_refines [OF mem_healthy store_inv_key [OF assms], of i seq] that
  by (cases "MVCCRollbackIntent (mem_deps m) k i seq s") auto


theorem savepoint_undo_witness:
  "\<exists>s1 s2. mvccWrite (mem_deps True) [7] (Timestamp 8 0) (Some [2]) False (Some (demo_txn (Timestamp 8 0) 3)) demo_store = Inr s1 \<and>
    MVCCRollbackIntent (mem_deps True) [7] (replicate 16 1) 2 s1 = Inr s2 \<and> map_of s2 = map_of demo_store"
proof -
  obtain s1 where s1: "mvccWrite (mem_deps True) [7] (Timestamp 8 0) (Some [2]) False (Some (demo_txn (Timestamp 8 0) 3)) demo_store = Inr s1"
    by (rule demo_write)
  obtain s2 where s2: "MVCCRollbackIntent (mem_deps True) [7] (replicate 16 1) 2 s1 = Inr s2"
    by (rule mem_rollback [OF write_txn_effect(3) [OF demo demo_args s1] demo_nonlocal])
  have "map_of s2 = map_of demo_store"
    by (rule savepoint_undo [OF demo demo_read(2) demo_args s1, where seq = 2]) (use s2 in simp_all)
  then show ?thesis using s1 s2 by blast
qed

theorem write_too_old_exact_witness:
  "mvccWrite (mem_deps True) [7] (Timestamp 5 0) (Some [2]) False (Some (demo_txn (Timestamp 8 0) 1)) demo_store =
     Inl (WriteTooOldError (Timestamp 5 0) (Timestamp 5 1))"
proof -
  have ex: "\<exists>u. version_at (map_of demo_store) [7] u \<noteq> None \<and> Timestamp 5 0 \<le> u"
    by (rule exI [of _ "Timestamp 5 0"]) (simp add: demo_read)
  obtain v where "version_at (map_of demo_store) [7] v \<noteq> None"
    "mvccWrite (mem_deps True) [7] (Timestamp 5 0) (Some [2]) False (Some (demo_txn (Timestamp 8 0) 1)) demo_store =
     Inl (WriteTooOldError (Timestamp 5 0) (Next v))"
    using write_too_old_exact [OF demo demo_read(2), where ts = "Timestamp 5 0" and d = "Some [2]" and tomb = False
        and t = "demo_txn (Timestamp 8 0) 1" and m1 = True] ex
    by (simp only: if_True) blast
  then show ?thesis by (simp add: demo_read Next_def split: if_splits)
qed

end
