(* ===== verification/MVCC_Range.thy ===== *)
theory MVCC_Range
  imports MVCC_Scan MVCC_Txn
begin

text \<open>
  Range reads: the scans in both directions, which walk one iterator over all engine keys of a
  span with bounded steps and seeks, compute what reading the keys of the span one by one
  returns, and every range read ends. The proofs work over the segments of the span.
\<close>

section \<open>Keys and entries\<close>

lemma keyPrefixOf_simps [simp]:
  "keyPrefixOf (meta_key k) (meta_key k') \<longleftrightarrow> k = k'"
  "keyPrefixOf (ver_key k t) (meta_key k') \<longleftrightarrow> k = k'"
  using byt.prefix_free [of k "[]" k'] byt.prefix_free [of k "version_suffix t" k']
  by (auto simp: keyPrefixOf_def prefix_def)

lemma versionOf_simps [simp]:
  "versionOf (meta_key k) (meta_key k) = zero_ts" "versionOf (ver_key k t) (meta_key k) = t"
  by (simp_all add: versionOf_def)

lemma appendMetaKeyOf_simps [simp]:
  "appendMetaKeyOf (meta_key k) zero_ts = meta_key k"
  "t \<noteq> zero_ts \<Longrightarrow> appendMetaKeyOf (ver_key k t) t = meta_key k"
  by (simp_all add: appendMetaKeyOf_def)

text \<open>Entries of keys other than \<open>k\<close>, all of them after it.\<close>

definition beyond :: "key \<Rightarrow> (bytes \<times> bytes) list \<Rightarrow> bool" where
  "beyond k R \<longleftrightarrow> (\<forall>e \<in> set R. \<not> keyPrefixOf (fst e) (meta_key k) \<and> meta_key (Key_Next k) \<le> fst e)"

definition before :: "key \<Rightarrow> (bytes \<times> bytes) list \<Rightarrow> bool" where
  "before k A \<longleftrightarrow> (\<forall>e \<in> set A. \<not> keyPrefixOf (fst e) (meta_key k) \<and> fst e < meta_key k)"

lemma seg_entries_keys:
  assumes "seg_ok g" "e \<in> set (seg_entries g)"
  shows "keyPrefixOf (fst e) (meta_key k) \<longleftrightarrow> skey g = k" "fst e < meta_key k \<longleftrightarrow> skey g < k"
  using assms by (auto elim!: seg_entries_cases)

lemma view_beyond: "view_ok (g # gs) \<Longrightarrow> beyond (skey g) (view_entries gs)"
  unfolding beyond_def
proof
  fix e assume v: "view_ok (g # gs)" and e: "e \<in> set (view_entries gs)"
  then obtain h where h: "h \<in> set gs" "e \<in> set (seg_entries h)" by (auto simp: view_entries_def)
  with v have "seg_ok h" "skey g < skey h" by (auto simp: view_ok_def list_all_iff)
  then show "\<not> keyPrefixOf (fst e) (meta_key (skey g)) \<and> meta_key (Key_Next (skey g)) \<le> fst e"
    using seg_entries_keys [OF _ h(2)] Key_Next_le [of "skey g" "skey h"] by (auto simp: not_less [symmetric])
qed

lemma view_before: "view_ok (gs @ g # hs) \<Longrightarrow> before (skey g) (view_entries gs)"
  unfolding before_def
proof
  fix e assume v: "view_ok (gs @ g # hs)" and e: "e \<in> set (view_entries gs)"
  then obtain h where h: "h \<in> set gs" "e \<in> set (seg_entries h)" by (auto simp: view_entries_def)
  with v have "seg_ok h" "skey h < skey g" by (auto simp: view_ok_def list_all_iff sorted_wrt_append)
  then show "\<not> keyPrefixOf (fst e) (meta_key (skey g)) \<and> fst e < meta_key (skey g)"
    using seg_entries_keys [OF _ h(2)] by auto
qed

lemma view_ok_append: "view_ok (gs @ hs) \<Longrightarrow> view_ok gs \<and> view_ok hs"
  by (auto simp: view_ok_def sorted_wrt_append)

lemma view_entries_append [simp]: "view_entries (gs @ hs) = view_entries gs @ view_entries hs"
  by (simp add: view_entries_def)

section \<open>Reading one key\<close>

text \<open>A raw version as a row of a scan, and whether there is one.\<close>

definition row_of :: "bytes \<Rightarrow> mvcc_error + nbytes \<times> bool" where
  "row_of raw =
     (case decodeMVCCValue raw of Inl e \<Rightarrow> Inl (ValueError e)
      | Inr (data, tombstone) \<Rightarrow>
          if tombstone then Inr (None, False) else Inr (clone_nil (case data of None \<Rightarrow> [] | Some d \<Rightarrow> d), True))"

definition visible_row :: "timestamp \<Rightarrow> timestamp \<Rightarrow> (timestamp \<times> bytes) list \<Rightarrow> mvcc_error + nbytes \<times> bool" where
  "visible_row skipAt ts vs = (case newest_at skipAt ts vs of None \<Rightarrow> Inr (None, False) | Some (_, v) \<Rightarrow> row_of v)"

definition own_row :: "timestamp \<Rightarrow> (timestamp \<times> bytes) list \<Rightarrow> mvcc_error + nbytes \<times> bool" where
  "own_row readAt vs = (case map_of vs readAt of None \<Rightarrow> Inr (None, False) | Some v \<Rightarrow> row_of v)"

text \<open>A key of the span: the transaction of a conflicting intent, or the row.\<close>

definition key_row ::
  "'s deps \<Rightarrow> seg \<Rightarrow> timestamp \<Rightarrow> MVCCGetOptions \<Rightarrow> bool \<Rightarrow> mvcc_error + (TxnMeta + nbytes \<times> bool)" where
  "key_row E g ts opts conflicts =
     (let visible = (\<lambda>skipAt.
            case (if conflicts then None else uncertain_at skipAt ts (UncertaintyLimit opts) (svers g)) of
              Some u \<Rightarrow> Inl (UncertaintyError ts u)
            | None \<Rightarrow> map_sum id Inr (visible_row skipAt ts (svers g)))
      in case smeta g of
           None \<Rightarrow> visible zero_ts
         | Some raw \<Rightarrow>
             res_bind (decodeMeta E raw) (\<lambda>meta.
               case intent_switch opts ts meta of
                 None \<Rightarrow> Inr (Inl (mTxn meta))
               | Some (readAt, skipAt) \<Rightarrow>
                   if readAt \<noteq> zero_ts then map_sum id Inr (own_row readAt (svers g)) else visible skipAt))"

text \<open>An iterator inside or right after the versions of \<open>k\<close>, with the entries \<open>R\<close> of later keys ahead.\<close>

lemma beyond_cases:
  assumes "beyond k R" "iat it A R"
  shows "\<not> iValid it \<or> \<not> keyPrefixOf (iKey it) (meta_key k)"
proof (cases R)
  case (Cons e R')
  then show ?thesis using iat_key [of it A e R'] assms by (auto simp: beyond_def)
qed (use iat_valid assms in auto)

lemma scan_uncertain_at:
  "beyond k R \<Longrightarrow> iat it A (ver_entries k ws @ R) \<Longrightarrow>
   case find (\<lambda>(u, _). u \<le> limit \<and> \<not> skipped skipAt u) ws of
     Some (u, _) \<Rightarrow>
       (if ts < u then scan_uncertain (meta_key k) skipAt ts limit it = Inl (UncertaintyError ts u)
        else \<exists>it' xs ys. scan_uncertain (meta_key k) skipAt ts limit it = Inr it' \<and> ws = xs @ ys \<and>
          iat it' (A @ ver_entries k xs) (ver_entries k ys @ R) \<and> (\<forall>(w, _) \<in> set xs. limit < w \<or> skipped skipAt w))
   | None \<Rightarrow> \<exists>it' xs ys. scan_uncertain (meta_key k) skipAt ts limit it = Inr it' \<and> ws = xs @ ys \<and>
          iat it' (A @ ver_entries k xs) (ver_entries k ys @ R) \<and> (\<forall>(w, _) \<in> set xs. limit < w \<or> skipped skipAt w)"
proof (induction ws arbitrary: it A)
  case Nil
  then have "scan_uncertain (meta_key k) skipAt ts limit it = Inr it"
    using beyond_cases [of k R it A] by (subst scan_uncertain.simps) auto
  then show ?case using Nil by simp
next
  case (Cons x ws)
  obtain u v where x: "x = (u, v)" by (cases x)
  with Cons.prems have at: "iat it A ((ver_key k u, v) # (ver_entries k ws @ R))" by simp
  show ?case
  proof (cases "u \<le> limit \<and> \<not> skipped skipAt u")
    case True
    then have step: "scan_uncertain (meta_key k) skipAt ts limit it = (if ts < u then Inl (UncertaintyError ts u) else Inr it)"
      using iat_valid [OF at] iat_key [OF at] by (subst scan_uncertain.simps) (auto simp: skipped_def)
    have "\<not> ts < u \<Longrightarrow> \<exists>it' xs ys. scan_uncertain (meta_key k) skipAt ts limit it = Inr it' \<and> x # ws = xs @ ys \<and>
        iat it' (A @ ver_entries k xs) (ver_entries k ys @ R) \<and> (\<forall>(w, _) \<in> set xs. limit < w \<or> skipped skipAt w)"
      using step Cons.prems(2) by (intro exI [of _ it] exI [of _ "[]"] exI [of _ "x # ws"]) simp
    with step True x show ?thesis by simp
  next
    case False
    then have step: "scan_uncertain (meta_key k) skipAt ts limit it = scan_uncertain (meta_key k) skipAt ts limit (snd (iNext it))"
      using iat_valid [OF at] iat_key [OF at] by (subst scan_uncertain.simps) (auto simp: skipped_def)
    have ext: "\<exists>it' xs ys. scan_uncertain (meta_key k) skipAt ts limit it = Inr it' \<and> x # ws = xs @ ys \<and>
        iat it' (A @ ver_entries k xs) (ver_entries k ys @ R) \<and> (\<forall>(w, _) \<in> set xs. limit < w \<or> skipped skipAt w)"
      if ex: "\<exists>it' xs ys. scan_uncertain (meta_key k) skipAt ts limit (snd (iNext it)) = Inr it' \<and> ws = xs @ ys \<and>
        iat it' ((A @ [(ver_key k u, v)]) @ ver_entries k xs) (ver_entries k ys @ R) \<and>
        (\<forall>(w, _) \<in> set xs. limit < w \<or> skipped skipAt w)"
    proof -
      from ex obtain it' xs ys where "scan_uncertain (meta_key k) skipAt ts limit (snd (iNext it)) = Inr it'" "ws = xs @ ys"
        "iat it' ((A @ [(ver_key k u, v)]) @ ver_entries k xs) (ver_entries k ys @ R)"
        "\<forall>(w, _) \<in> set xs. limit < w \<or> skipped skipAt w" by auto
      then show ?thesis using step False x
        by (intro exI [of _ it'] exI [of _ "(u, v) # xs"] exI [of _ ys]) auto
    qed
    show ?thesis
      using Cons.IH [OF Cons.prems(1) iat_next(2) [OF at]] step False x ext
      by (auto split: option.splits if_splits)
  qed
qed

lemma beyond_ver: "beyond k R \<Longrightarrow> R = [] \<or> \<not> fst (hd R) < ver_key k t"
proof (cases R)
  case (Cons e R')
  assume "beyond k R"
  with Cons have "meta_key (Key_Next k) \<le> fst e" by (simp add: beyond_def)
  moreover have "ver_key k t < meta_key (Key_Next k)" using Key_Next_le [of k "Key_Next k"] by simp
  ultimately have "ver_key k t < fst e" by (rule less_le_trans [rotated])
  then show ?thesis using Cons by simp
qed simp

lemma hd_ver:
  "ds = [] \<or> \<not> fst (hd (ver_entries k ds)) < x \<Longrightarrow> R = [] \<or> \<not> fst (hd R) < x \<Longrightarrow>
   ver_entries k ds @ R = [] \<or> \<not> fst (hd (ver_entries k ds @ R)) < x"
  by (cases ds) (auto simp: ver_entries_def)

lemma seek_version_at:
  assumes "beyond k R" "vers_ok vs" "ts_ok t" "t \<noteq> zero_ts" "\<forall>e \<in> set P. fst e < ver_key k t"
    and "entries it = P @ ver_entries k vs @ R"
  shows "iat (snd (SeekGE (EncodeMVCCKey k t) it)) (P @ ver_entries k (takeWhile (\<lambda>(u, _). t < u) vs))
      (ver_entries k (dropWhile (\<lambda>(u, _). t < u) vs) @ R)"
    "fst (SeekGE (EncodeMVCCKey k t) it) \<longleftrightarrow> ver_entries k (dropWhile (\<lambda>(u, _). t < u) vs) @ R \<noteq> []"
proof -
  let ?A = "P @ ver_entries k (takeWhile (\<lambda>(u, _). t < u) vs)" and ?B = "ver_entries k (dropWhile (\<lambda>(u, _). t < u) vs) @ R"
  have s: "ver_entries k vs = ver_entries k (takeWhile (\<lambda>(u, _). t < u) vs) @ ver_entries k (dropWhile (\<lambda>(u, _). t < u) vs)"
    "\<forall>a \<in> set (ver_entries k (takeWhile (\<lambda>(u, _). t < u) vs)). fst a < ver_key k t"
    "dropWhile (\<lambda>(u, _). t < u) vs = [] \<or> \<not> fst (hd (ver_entries k (dropWhile (\<lambda>(u, _). t < u) vs))) < ver_key k t"
    using seek_split(1) [OF assms(2,3), of k None] seek_split(2) [OF assms(2,3), of k None] seek_split(3) [OF assms(2,3), of k]
    by (simp_all del: dropWhile_eq_Nil_conv)
  have "entries it = ?A @ ?B" unfolding assms(6) s(1) append_assoc ..
  moreover have "\<forall>a \<in> set ?A. fst a < ver_key k t" using s(2) assms(5) by auto
  moreover have "?B = [] \<or> \<not> fst (hd ?B) < ver_key k t"
    using hd_ver [OF s(3) beyond_ver [OF assms(1)]] .
  ultimately show "iat (snd (SeekGE (EncodeMVCCKey k t) it)) ?A ?B" "fst (SeekGE (EncodeMVCCKey k t) it) \<longleftrightarrow> ?B \<noteq> []"
    using iat_seek [of it ?A ?B "ver_key k t"] assms(4) by (simp_all add: EncodeMVCCKey_simps)
qed

text \<open>Once the walk is at or below the read timestamp, at most one version is skipped.\<close>

lemma scan_versions_below:
  assumes "beyond k R" "vers_ok ys" "\<forall>(u, _) \<in> set ys. u \<le> ts" "iat it A (ver_entries k ys @ R)" "3 \<le> fuel"
  shows "\<exists>it' A' zs. iat it' A' (ver_entries k zs @ R) \<and>
    scan_versions fuel k (meta_key k) skipAt ts 0 it =
      (case find (\<lambda>(u, _). \<not> skipped skipAt u) ys of None \<Rightarrow> Inr ((None, False), it')
       | Some (_, v) \<Rightarrow> map_sum id (\<lambda>vf. (vf, it')) (row_of v))"
proof -
  have step: "scan_versions (Suc f) k (meta_key k) skipAt ts st it =
      map_sum id (\<lambda>vf. (vf, it)) (row_of v)"
    if "iat it A ((ver_key k u, v) # B)" "u \<le> ts" "\<not> skipped skipAt u" for f st it A u v B
    using that iat_valid [OF that(1)] iat_key [OF that(1)]
    by (auto simp: row_of_def skipped_def split: sum.splits)
  have stop: "scan_versions (Suc f) k (meta_key k) skipAt ts st it = Inr ((None, False), it)"
    if "iat it A R" for f st it A
    using beyond_cases [OF assms(1) that] by auto
  obtain f where f: "fuel = Suc (Suc (Suc f))" using le_Suc_ex [OF assms(5)] by (auto simp: numeral_3_eq_3)
  show ?thesis
  proof (cases ys)
    case Nil
    with assms(4) stop show ?thesis unfolding f by (intro exI [of _ it] exI [of _ A] exI [of _ "[]"]) simp
  next
    case (Cons x zs)
    obtain u v where x: "x = (u, v)" by (cases x)
    have at: "iat it A ((ver_key k u, v) # (ver_entries k zs @ R))" using assms(4) Cons x by simp
    have u: "u \<le> ts" using assms(3) Cons x by simp
    show ?thesis
    proof (cases "skipped skipAt u")
      case False
      then show ?thesis unfolding f
        using step [OF at u False] assms(4) Cons x
        by (intro exI [of _ it] exI [of _ A] exI [of _ ys]) simp
    next
      case True
      note at2 = iat_next(2) [OF at]
      have nx: "scan_versions fuel k (meta_key k) skipAt ts 0 it =
          scan_versions (Suc (Suc f)) k (meta_key k) skipAt ts 1 (snd (iNext it))"
        using True iat_valid [OF at] iat_key [OF at] unfolding f by (simp add: skipped_def)
      show ?thesis
      proof (cases zs)
        case Nil
        with at2 have at2: "iat (snd (iNext it)) (A @ [(ver_key k u, v)]) R" by simp
        show ?thesis unfolding nx stop [OF at2]
          using at2 Cons x Nil True by (intro exI [of _ "snd (iNext it)"] exI exI [of _ "[]"]) auto
      next
        case (Cons y zs')
        obtain w b where y: "y = (w, b)" by (cases y)
        have "w < u" "w \<le> ts" using assms(2,3) \<open>ys = x # zs\<close> x y Cons by (auto simp: vers_ok_Cons)
        then have nsk: "\<not> skipped skipAt w" using True by (auto simp: skipped_def)
        have at3: "iat (snd (iNext it)) (A @ [(ver_key k u, v)]) ((ver_key k w, b) # (ver_entries k zs' @ R))"
          using at2 Cons y by simp
        show ?thesis unfolding nx step [OF at3 \<open>w \<le> ts\<close> nsk]
          using at2 \<open>ys = x # zs\<close> x Cons y nsk True
          by (intro exI [of _ "snd (iNext it)"] exI [of _ "A @ [(ver_key k u, v)]"] exI [of _ zs]) auto
      qed
    qed
  qed
qed

lemma newest_at_skip_front:
  "\<forall>(w, _) \<in> set xs. ts < w \<or> skipped skipAt w \<Longrightarrow> newest_at skipAt ts (xs @ ys) = newest_at skipAt ts ys"
  by (induction xs) (auto simp: newest_at_def)

lemma scan_versions_at:
  assumes R: "beyond k R" and vs: "vers_ok vs" and ts: "ts_ok ts" "ts \<noteq> zero_ts" and P: "\<forall>e \<in> set P. fst e < ver_key k ts"
  shows "vs = xs @ ys \<Longrightarrow> iat it (P @ ver_entries k xs) (ver_entries k ys @ R) \<Longrightarrow>
    \<forall>(w, _) \<in> set xs. ts < w \<or> skipped skipAt w \<Longrightarrow> length ys + 4 \<le> fuel \<Longrightarrow>
    \<exists>it' A' zs. iat it' A' (ver_entries k zs @ R) \<and>
      scan_versions fuel k (meta_key k) skipAt ts steps it = map_sum id (\<lambda>vf. (vf, it')) (visible_row skipAt ts vs)"
proof (induction ys arbitrary: xs it steps fuel)
  case Nil
  then obtain f where f: "fuel = Suc f" by (cases fuel) auto
  have at: "iat it (P @ ver_entries k xs) R" using Nil by simp
  have "newest_at skipAt ts vs = None" using newest_at_skip_front [OF Nil.prems(3), of "[]"] Nil by (simp add: newest_at_def)
  then show ?case using beyond_cases [OF R at] at unfolding f
    by (intro exI [of _ it] exI [of _ "P @ ver_entries k xs"] exI [of _ "[]"]) (auto simp: visible_row_def)
next
  case (Cons y ys)
  then obtain f where f: "fuel = Suc f" by (cases fuel) auto
  obtain u v where y: "y = (u, v)" by (cases y)
  have at: "iat it (P @ ver_entries k xs) ((ver_key k u, v) # (ver_entries k ys @ R))" using Cons.prems y by simp
  note valid = iat_valid [OF at] iat_key [OF at]
  show ?case
  proof (cases "ts < u \<or> skipped skipAt u")
    case False
    then have "newest_at skipAt ts vs = Some (u, v)"
      using newest_at_skip_front [OF Cons.prems(3), of "y # ys"] Cons.prems(1) y by (simp add: newest_at_def not_less)
    then show ?thesis using valid False Cons.prems(2) unfolding f
      by (intro exI [of _ it] exI [of _ "P @ ver_entries k xs"] exI [of _ "y # ys"])
        (auto simp: visible_row_def row_of_def skipped_def split: sum.splits)
  next
    case True
    show ?thesis
    proof (cases "steps \<ge> maxStepsBeforeSeek")
      case False
      then have "scan_versions fuel k (meta_key k) skipAt ts steps it =
          scan_versions f k (meta_key k) skipAt ts (steps + 1) (snd (iNext it))"
        using True valid unfolding f by (auto simp: skipped_def)
      moreover have "iat (snd (iNext it)) (P @ ver_entries k (xs @ [y])) (ver_entries k ys @ R)"
        using iat_next(2) [OF at] y by simp
      ultimately show ?thesis using Cons.IH [of "xs @ [y]" "snd (iNext it)" f "steps + 1"] Cons.prems True y f by auto
    next
      case seek: True
      let ?it = "snd (SeekGE (EncodeMVCCKey k ts) it)" and ?ds = "dropWhile (\<lambda>(u, _). ts < u) vs"
      have go: "scan_versions fuel k (meta_key k) skipAt ts steps it = scan_versions f k (meta_key k) skipAt ts 0 ?it"
        using True seek valid unfolding f by (auto simp: skipped_def)
      have "entries it = P @ ver_entries k vs @ R" using iat_entries [OF Cons.prems(2)] Cons.prems(1) by simp
      note at2 = seek_version_at(1) [OF R vs ts P this]
      have "\<forall>(w, _) \<in> set ?ds. w \<le> ts" using vers_ok_tail [OF vs] by fast
      moreover have "3 \<le> f" using Cons.prems(4) f by simp
      ultimately obtain it' A' zs where it': "iat it' A' (ver_entries k zs @ R)"
        "scan_versions f k (meta_key k) skipAt ts 0 ?it =
          (case find (\<lambda>(u, _). \<not> skipped skipAt u) ?ds of None \<Rightarrow> Inr ((None, False), it')
           | Some (_, v) \<Rightarrow> map_sum id (\<lambda>vf. (vf, it')) (row_of v))"
        using scan_versions_below [OF R vers_ok_dropWhile [OF vs] _ at2] by metis
      have "newest_at skipAt ts vs = find (\<lambda>(u, _). \<not> skipped skipAt u) ?ds"
        unfolding newest_at_def by (rule find_dropWhile [OF vs])
      then show ?thesis using it' unfolding go
        by (intro exI [of _ it'] exI [of _ A'] exI [of _ zs]) (auto simp: visible_row_def id_def split: option.splits)
    qed
  qed
qed

lemma scan_own_at:
  assumes R: "beyond k R" and vs: "vers_ok vs" and t: "ts_ok t" "t \<noteq> zero_ts" and P: "\<forall>e \<in> set P. fst e < ver_key k t"
    and es: "entries it = P @ ver_entries k vs @ R"
  shows "\<exists>it' A' zs. iat it' A' (ver_entries k zs @ R) \<and>
    scan_own k (meta_key k) t it = map_sum id (\<lambda>vf. (vf, it')) (own_row t vs)"
proof -
  let ?ds = "dropWhile (\<lambda>(u, _). t < u) vs" and ?A = "P @ ver_entries k (takeWhile (\<lambda>(u, _). t < u) vs)"
  obtain ok it' where s: "SeekGE (EncodeMVCCKey k t) it = (ok, it')" by fastforce
  note at = seek_version_at [OF R vs t P es, unfolded s fst_conv snd_conv]
  show ?thesis
  proof (cases ?ds)
    case Nil
    then have "iat it' ?A R" using at by (simp del: dropWhile_eq_Nil_conv)
    then show ?thesis
      using beyond_cases [OF R, of it' ?A] at Nil s map_of_dropWhile [OF vs, of t] iat_valid [of it' ?A R]
      by (intro exI [of _ it'] exI [of _ ?A] exI [of _ "[]"]) (auto simp: scan_own_def own_row_def simp del: dropWhile_eq_Nil_conv)
  next
    case (Cons x ws)
    obtain u v where x: "x = (u, v)" by (cases x)
    with Cons at have at': "iat it' ?A ((ver_key k u, v) # (ver_entries k ws @ R))" and ok: ok by auto
    show ?thesis
      using s ok iat_key [OF at'] map_of_dropWhile [OF vs, of t] Cons x at(1)
      by (intro exI [of _ it'] exI [of _ ?A] exI [of _ ?ds])
        (auto simp: scan_own_def own_row_def row_of_def id_def split: sum.splits)
  qed
qed

lemma move_entries [simp]:
  "entries (snd (SeekGE k it)) = entries it" "entries (snd (iNext it)) = entries it"
  "entries (snd (iPrev it)) = entries it" "entries (snd (SeekLT k it)) = entries it"
  by (simp_all add: SeekGE_def iNext_def iPrev_def SeekLT_def Let_def)

lemma scan_versions_entries: "scan_versions fuel k p skipAt ts steps it = Inr (vf, it') \<Longrightarrow> entries it' = entries it"
  by (induction fuel arbitrary: steps it) (auto simp: Let_def split: if_splits sum.splits)

lemma scan_uncertain_entries: "scan_uncertain p skipAt ts limit it = Inr it' \<Longrightarrow> entries it' = entries it"
proof (induction p skipAt ts limit it rule: scan_uncertain.induct)
  case (1 p skipAt ts limit it)
  from 1(2) show ?case
    by (subst (asm) scan_uncertain.simps) (use 1(1) in \<open>auto simp: Let_def split: if_splits\<close>)
qed

lemma scan_own_entries:
  assumes "scan_own k p t it = Inr (vf, it')"
  shows "entries it' = entries it"
proof -
  obtain ok it1 where s: "SeekGE (EncodeMVCCKey k t) it = (ok, it1)" by fastforce
  then have "it' = it1" using assms by (auto simp: scan_own_def split: if_splits sum.splits)
  then show ?thesis using s move_entries(1) [of "EncodeMVCCKey k t" it] by simp
qed

text \<open>An iterator among the entries of \<open>k\<close> or right after them.\<close>

definition at_key :: "key \<Rightarrow> (bytes \<times> bytes) list \<Rightarrow> iter \<Rightarrow> bool" where
  "at_key k R it \<longleftrightarrow> (\<exists>A S. iat it A (S @ R) \<and> (\<forall>e \<in> set S. keyPrefixOf (fst e) (meta_key k)))"

lemma at_key_ver: "iat it A (ver_entries k zs @ R) \<Longrightarrow> at_key k R it"
  unfolding at_key_def by (intro exI [of _ A] exI [of _ "ver_entries k zs"]) (auto simp: ver_entries_def)

text \<open>The end of \<^verbatim>\<open>mvccScanKey\<close>, once the intent is accounted for.\<close>

definition scan_rest ::
  "key \<Rightarrow> timestamp \<Rightarrow> MVCCGetOptions \<Rightarrow> bool \<Rightarrow> timestamp \<Rightarrow> timestamp \<Rightarrow> iter \<Rightarrow> mvcc_error + (nbytes \<times> bool) \<times> iter" where
  "scan_rest k ts opts conflicts readAt skipAt it =
     (if readAt \<noteq> zero_ts then scan_own k (meta_key k) readAt it
      else res_bind
        (if \<not> conflicts \<and> UncertaintyLimit opts \<noteq> zero_ts \<and> ts < UncertaintyLimit opts
         then scan_uncertain (meta_key k) skipAt ts (UncertaintyLimit opts) it else Inr it)
        (\<lambda>it. scan_versions (length (entries it) + 5) k (meta_key k) skipAt ts 0 it))"

definition rest_row ::
  "timestamp \<Rightarrow> MVCCGetOptions \<Rightarrow> bool \<Rightarrow> timestamp \<Rightarrow> timestamp \<Rightarrow> (timestamp \<times> bytes) list \<Rightarrow> mvcc_error + nbytes \<times> bool" where
  "rest_row ts opts conflicts readAt skipAt vs =
     (if readAt \<noteq> zero_ts then own_row readAt vs
      else case (if conflicts then None else uncertain_at skipAt ts (UncertaintyLimit opts) vs) of
             Some u \<Rightarrow> Inl (UncertaintyError ts u) | None \<Rightarrow> visible_row skipAt ts vs)"

lemma scan_rest_at:
  assumes R: "beyond k R" and vs: "vers_ok vs" and ts: "ts_ok ts" "ts \<noteq> zero_ts" "ts_ok readAt"
    and P: "\<And>t. \<forall>e \<in> set P. fst e < ver_key k t" and at: "iat it P (ver_entries k vs @ R)"
  shows "\<exists>it'. at_key k R it' \<and> entries it' = entries it \<and>
    scan_rest k ts opts conflicts readAt skipAt it = map_sum id (\<lambda>vf. (vf, it')) (rest_row ts opts conflicts readAt skipAt vs)"
proof (cases "readAt = zero_ts")
  case False
  obtain it' A' zs where "iat it' A' (ver_entries k zs @ R)"
    "scan_own k (meta_key k) readAt it = map_sum id (\<lambda>vf. (vf, it')) (own_row readAt vs)"
    using scan_own_at [OF R vs ts(3) False P iat_entries [OF at]] by auto
  moreover from this have "own_row readAt vs = Inr vf \<Longrightarrow> entries it' = entries it" for vf
    using scan_own_entries [of k "meta_key k" readAt it vf it'] by simp
  moreover have "at_key k R it" using at by (rule at_key_ver)
  ultimately show ?thesis using False
    by (cases "own_row readAt vs") (auto simp: scan_rest_def rest_row_def intro: at_key_ver)
next
  case True
  let ?lim = "UncertaintyLimit opts"
  have versions: "\<exists>it'. at_key k R it' \<and> entries it' = entries it \<and>
      scan_versions (length (entries it1) + 5) k (meta_key k) skipAt ts 0 it1 = map_sum id (\<lambda>vf. (vf, it')) (visible_row skipAt ts vs)"
    if "vs = xs @ ys" "iat it1 (P @ ver_entries k xs) (ver_entries k ys @ R)" "\<forall>(w, _) \<in> set xs. ts < w \<or> skipped skipAt w"
      "entries it1 = entries it" for it1 xs ys
  proof -
    have "length ys + 4 \<le> length (entries it1) + 5" using iat_entries [OF that(2)] by (simp add: ver_entries_def)
    from scan_versions_at [OF R vs ts(1,2) P that(1-3) this, of 0]
    obtain it' A' zs where "iat it' A' (ver_entries k zs @ R)"
      "scan_versions (length (entries it1) + 5) k (meta_key k) skipAt ts 0 it1 = map_sum id (\<lambda>vf. (vf, it')) (visible_row skipAt ts vs)"
      by auto
    moreover from this have "visible_row skipAt ts vs = Inr vf \<Longrightarrow> entries it' = entries it" for vf
      using scan_versions_entries [of "length (entries it1) + 5" k "meta_key k" skipAt ts 0 it1 vf it'] that(4) by simp
    moreover have "at_key k R it" using at by (rule at_key_ver)
    ultimately show ?thesis by (cases "visible_row skipAt ts vs") (auto intro: at_key_ver)
  qed
  show ?thesis
  proof (cases "\<not> conflicts \<and> ?lim \<noteq> zero_ts \<and> ts < ?lim")
    case False
    then have "(if conflicts then None else uncertain_at skipAt ts ?lim vs) = None" by (auto simp: uncertain_at_def)
    with versions [of "[]" vs it] at True False show ?thesis by (auto simp: scan_rest_def rest_row_def)
  next
    case unc: True
    note u = scan_uncertain_at [OF R at, where limit = ?lim and skipAt = skipAt and ts = ts, folded newest_at_def]
    have go: "\<exists>it'. at_key k R it' \<and> entries it' = entries it \<and>
        scan_rest k ts opts conflicts readAt skipAt it = map_sum id (\<lambda>vf. (vf, it')) (visible_row skipAt ts vs)"
      if ex: "\<exists>it' xs ys. scan_uncertain (meta_key k) skipAt ts ?lim it = Inr it' \<and> vs = xs @ ys \<and>
          iat it' (P @ ver_entries k xs) (ver_entries k ys @ R) \<and> (\<forall>(w, _) \<in> set xs. ?lim < w \<or> skipped skipAt w)"
    proof -
      from ex obtain it1 xs ys where 1: "scan_uncertain (meta_key k) skipAt ts ?lim it = Inr it1" "vs = xs @ ys"
        "iat it1 (P @ ver_entries k xs) (ver_entries k ys @ R)" "\<forall>(w, _) \<in> set xs. ?lim < w \<or> skipped skipAt w" by auto
      have "\<forall>(w, _) \<in> set xs. ts < w \<or> skipped skipAt w" using 1(4) unc by (auto dest: less_trans)
      from versions [OF 1(2,3) this scan_uncertain_entries [OF 1(1)]] show ?thesis
        using unc True 1(1) by (simp add: scan_rest_def)
    qed
    have here: "at_key k R it" using at by (rule at_key_ver)
    show ?thesis
    proof (cases "uncertain_at skipAt ts ?lim vs")
      case None
      with u unc have "\<exists>it' xs ys. scan_uncertain (meta_key k) skipAt ts ?lim it = Inr it' \<and> vs = xs @ ys \<and>
          iat it' (P @ ver_entries k xs) (ver_entries k ys @ R) \<and> (\<forall>(w, _) \<in> set xs. ?lim < w \<or> skipped skipAt w)"
        by (cases "newest_at skipAt ?lim vs") (auto simp: uncertain_at_def split: if_splits)
      from go [OF this] None True unc show ?thesis by (simp add: rest_row_def)
    next
      case (Some w)
      with u unc have "scan_uncertain (meta_key k) skipAt ts ?lim it = Inl (UncertaintyError ts w)"
        by (cases "newest_at skipAt ?lim vs") (auto simp: uncertain_at_def split: if_splits)
      with here Some unc True show ?thesis by (auto simp: scan_rest_def rest_row_def)
    qed
  qed
qed

lemma key_row_rest:
  "key_row E g ts opts conflicts =
     (case smeta g of None \<Rightarrow> map_sum id Inr (rest_row ts opts conflicts zero_ts zero_ts (svers g))
      | Some raw \<Rightarrow> res_bind (decodeMeta E raw) (\<lambda>meta.
          case intent_switch opts ts meta of None \<Rightarrow> Inr (Inl (mTxn meta))
          | Some (readAt, skipAt) \<Rightarrow> map_sum id Inr (rest_row ts opts conflicts readAt skipAt (svers g))))"
  by (auto simp: key_row_def rest_row_def Let_def res_bind_def split: option.splits sum.splits)

text \<open>What \<^verbatim>\<open>mvccScanKey\<close> makes of a key's row.\<close>

definition scan_result ::
  "key \<Rightarrow> Intent list \<Rightarrow> iter \<Rightarrow> iter \<Rightarrow> mvcc_error + (TxnMeta + nbytes \<times> bool) \<Rightarrow> mvcc_error + (nbytes \<times> bool) \<times> Intent list \<times> iter" where
  "scan_result k intents it it' row =
     (case row of Inl e \<Rightarrow> Inl e
      | Inr (Inl txn) \<Rightarrow>
          let intents = intents @ [\<lparr>intKey = k, intTxn = txn\<rparr>]
          in if length intents \<ge> maxIntentsPerError then Inl (WriteIntentError intents) else Inr ((None, False), intents, it)
      | Inr (Inr vf) \<Rightarrow> Inr (vf, intents, it'))"

lemma mvccScanKey_meta:
  assumes "iValid it" "iKey it = meta_key k"
  shows "mvccScanKey E it k (meta_key k) ts opts intents =
    (case decodeMeta E (iValue it) of Inl e \<Rightarrow> Inl e
     | Inr meta \<Rightarrow>
         (case intent_switch opts ts meta of
            None \<Rightarrow>
              let intents = intents @ [\<lparr>intKey = k, intTxn = mTxn meta\<rparr>]
              in if length intents \<ge> maxIntentsPerError then Inl (WriteIntentError intents) else Inr ((None, False), intents, it)
          | Some (readAt, skipAt) \<Rightarrow>
              if \<not> fst (iNext it) then Inr ((None, False), intents, snd (iNext it))
              else res_bind (scan_rest k ts opts (intents \<noteq> []) readAt skipAt (snd (iNext it))) (\<lambda>(vf, it). Inr (vf, intents, it))))"
  using assms
  by (auto simp: mvccScanKey_def scan_rest_def Let_def split_beta res_bind_assoc split: sum.splits option.splits)

lemma mvccScanKey_ver:
  assumes "iValid it" "iKey it = ver_key k t" "t \<noteq> zero_ts"
  shows "mvccScanKey E it k (meta_key k) ts opts intents =
    res_bind (scan_rest k ts opts (intents \<noteq> []) zero_ts zero_ts it) (\<lambda>(vf, it). Inr (vf, intents, it))"
  using assms by (simp add: mvccScanKey_def scan_rest_def Let_def res_bind_assoc)

lemma mvccScanKey_at_ver:
  assumes g: "seg_ok g" "smeta g = None" and R: "beyond (skey g) R" and P: "\<And>t. \<forall>e \<in> set A. fst e < ver_key (skey g) t"
    and at: "iat it A (seg_entries g @ R)" and ts: "ts_ok ts" "ts \<noteq> zero_ts"
  shows "\<exists>it'. at_key (skey g) R it' \<and> entries it' = entries it \<and>
    mvccScanKey E it (skey g) (meta_key (skey g)) ts opts intents =
      scan_result (skey g) intents it it' (key_row E g ts opts (intents \<noteq> []))"
proof -
  let ?k = "skey g" and ?row = "rest_row ts opts (intents \<noteq> []) zero_ts zero_ts (svers g)"
  have vs: "vers_ok (svers g)" using g by (simp add: seg_ok_def)
  from g obtain u v ws where s: "svers g = (u, v) # ws" by (cases "svers g") (auto simp: seg_ok_def seg_entries_def)
  with vs have "u \<noteq> zero_ts" by (simp add: vers_ok_Cons)
  have atv: "iat it A (ver_entries ?k (svers g) @ R)" using at g(2) by (simp add: seg_entries_def)
  then have "iValid it" "iKey it = ver_key ?k u"
    using iat_valid [of it A] iat_key [of it A "(ver_key ?k u, v)" "ver_entries ?k ws @ R"] s by simp_all
  note key = mvccScanKey_ver [OF this \<open>u \<noteq> zero_ts\<close>]
  have "ts_ok zero_ts" by (simp add: ts_ok_def zero_ts_def)
  from scan_rest_at [OF R vs ts this P atv]
  obtain it' where "at_key ?k R it'" "entries it' = entries it"
    "scan_rest ?k ts opts (intents \<noteq> []) zero_ts zero_ts it = map_sum id (\<lambda>vf. (vf, it')) ?row" by blast
  then show ?thesis unfolding key key_row_rest g(2)
    by (intro exI [of _ it']) (cases ?row; auto simp: scan_result_def)
qed

lemma mvccScanKey_at_meta:
  assumes g: "seg_ok g" "smeta g = Some raw" and R: "beyond (skey g) R" and P: "\<And>t. \<forall>e \<in> set A. fst e < ver_key (skey g) t"
    and at: "iat it A (seg_entries g @ R)" and ts: "ts_ok ts" "ts \<noteq> zero_ts"
    and meta: "\<And>meta. decodeMeta E raw = Inr meta \<Longrightarrow> ts_ok (mTimestamp meta)"
  shows "\<exists>it'. at_key (skey g) R it' \<and> entries it' = entries it \<and>
    mvccScanKey E it (skey g) (meta_key (skey g)) ts opts intents =
      scan_result (skey g) intents it it' (key_row E g ts opts (intents \<noteq> []))"
proof -
  let ?k = "skey g" and ?next = "snd (iNext it)"
  have vs: "vers_ok (svers g)" using g by (simp add: seg_ok_def)
  have atm: "iat it A ((meta_key ?k, raw) # (ver_entries ?k (svers g) @ R))" using at g(2) by (simp add: seg_entries_def)
  note atv = iat_next(2) [OF atm] and nx = iat_next(1) [OF atm]
  have here: "at_key ?k R ?next" "entries ?next = entries it" using at_key_ver [OF atv] by simp_all
  have P': "\<forall>e \<in> set (A @ [(meta_key ?k, raw)]). fst e < ver_key ?k t" for t using P by simp
  have "iValid it" "iKey it = meta_key ?k" and val: "iValue it = raw" using iat_valid [OF atm] iat_key [OF atm] by simp_all
  note key = mvccScanKey_meta [OF this(1,2), of E ts opts intents, unfolded val]
  consider e where "decodeMeta E raw = Inl e" | m where "decodeMeta E raw = Inr m" "intent_switch opts ts m = None"
    | m readAt skipAt where "decodeMeta E raw = Inr m" "intent_switch opts ts m = Some (readAt, skipAt)"
    by (cases "decodeMeta E raw") (auto, metis option.exhaust prod.exhaust)
  then show ?thesis
  proof cases
    case 3
    let ?row = "rest_row ts opts (intents \<noteq> []) readAt skipAt (svers g)"
    have "ts_ok readAt" using meta [OF 3(1)] 3(2) by (auto simp: intent_switch_def ts_ok_def zero_ts_def split: if_splits)
    from scan_rest_at [OF R vs ts this P' atv, of opts "intents \<noteq> []" skipAt]
    obtain it' where it': "at_key ?k R it'" "entries it' = entries it"
      "scan_rest ?k ts opts (intents \<noteq> []) readAt skipAt ?next = map_sum id (\<lambda>vf. (vf, it')) ?row" by auto
    have empty: "fst (iNext it) \<or> ?row = Inr (None, False)"
      using nx by (auto simp: rest_row_def own_row_def visible_row_def uncertain_at_def newest_at_def)
    show ?thesis
      using 3 g(2) key it' here empty
      by (intro exI [of _ "if fst (iNext it) then it' else ?next"]) (cases ?row; auto simp: key_row_rest scan_result_def)
  qed (use here g(2) key in \<open>auto simp: key_row_def scan_result_def intro!: exI [of _ "?next"]\<close>)
qed

lemma mvccScanKey_at:
  assumes g: "seg_ok g" and R: "beyond (skey g) R" and A: "\<forall>e \<in> set A. fst e < meta_key (skey g)"
    and at: "iat it A (seg_entries g @ R)" and ts: "ts_ok ts" "ts \<noteq> zero_ts"
    and meta: "\<And>raw meta. smeta g = Some raw \<Longrightarrow> decodeMeta E raw = Inr meta \<Longrightarrow> ts_ok (mTimestamp meta)"
  shows "\<exists>it'. at_key (skey g) R it' \<and> entries it' = entries it \<and>
    mvccScanKey E it (skey g) (meta_key (skey g)) ts opts intents =
      scan_result (skey g) intents it it' (key_row E g ts opts (intents \<noteq> []))"
proof -
  have "meta_key (skey g) < ver_key (skey g) t" for t by simp
  then have P: "\<forall>e \<in> set A. fst e < ver_key (skey g) t" for t using A by (blast intro: less_trans)
  show ?thesis
  proof (cases "smeta g")
    case None
    from mvccScanKey_at_ver [OF g this R P at ts] show ?thesis .
  next
    case (Some raw)
    from mvccScanKey_at_meta [OF g Some R P at ts meta [OF Some]] show ?thesis .
  qed
qed

section \<open>Stepping to the next key\<close>

lemma stepPastKey_loop_at:
  assumes R: "beyond k R" and Q: "\<forall>e \<in> set Q. fst e < meta_key (Key_Next k)"
  shows "iat it A (S @ R) \<Longrightarrow> \<forall>e \<in> set S. keyPrefixOf (fst e) (meta_key k) \<Longrightarrow> entries it = Q @ R \<Longrightarrow>
    fst (stepPastKey_loop k (meta_key k) steps it) = (R \<noteq> []) \<and> iat (snd (stepPastKey_loop k (meta_key k) steps it)) Q R"
proof (induction S arbitrary: A it steps)
  case Nil
  then have at: "iat it A R" and "A = Q" using iat_entries [of it A R] by auto
  then show ?case using beyond_cases [OF R at] iat_valid [OF at] by (subst (1 2) stepPastKey_loop.simps) auto
next
  case (Cons e S)
  then have at: "iat it A (e # (S @ R))" by simp
  have k: "keyPrefixOf (iKey it) (meta_key k)" "iValid it" using Cons.prems(2) iat_key [OF at] iat_valid [OF at] by auto
  note nx = iat_next [OF at]
  show ?case
  proof (cases "steps \<ge> maxStepsBeforeSeek")
    case True
    have "R = [] \<or> \<not> fst (hd R) < meta_key (Key_Next k)" using R by (cases R) (auto simp: beyond_def not_less)
    from iat_seek [OF Cons.prems(3) Q this] True k show ?thesis
      by (subst (1 2) stepPastKey_loop.simps) (simp add: EncodeMVCCKey_simps)
  next
    case False
    have step: "stepPastKey_loop k (meta_key k) steps it =
        (if \<not> fst (iNext it) then (False, snd (iNext it)) else stepPastKey_loop k (meta_key k) (steps + 1) (snd (iNext it)))"
      using False k by (subst stepPastKey_loop.simps) (simp add: split_beta)
    show ?thesis
    proof (cases "fst (iNext it)")
      case True
      with Cons.IH [OF nx(2)] Cons.prems step show ?thesis by simp
    next
      case stop: False
      with nx(1) have "S = []" "R = []" by auto
      then show ?thesis using nx(2) stop step iat_entries [OF nx(2)] Cons.prems(3) by simp
    qed
  qed
qed

lemma stepPastKey_at:
  assumes "beyond k R" "\<forall>e \<in> set Q. fst e < meta_key (Key_Next k)" "at_key k R it" "entries it = Q @ R"
  shows "fst (stepPastKey k (meta_key k) it) = (R \<noteq> [])" "iat (snd (stepPastKey k (meta_key k) it)) Q R"
  using assms stepPastKey_loop_at [OF assms(1,2)] unfolding at_key_def stepPastKey_def by blast+

section \<open>Forward scans\<close>

text \<open>
  The reference: the rows of the keys, one after the other. The first conflict stops the
  collection of rows, and up to sixteen conflicts are reported together. \<open>resume\<close> is where the
  next page starts.
\<close>

fun scan_keys ::
  "'s deps \<Rightarrow> (key \<Rightarrow> key) \<Rightarrow> timestamp \<Rightarrow> int \<Rightarrow> MVCCGetOptions \<Rightarrow> KeyValue list \<Rightarrow> int \<Rightarrow> Intent list \<Rightarrow> seg list \<Rightarrow>
   mvcc_error + ScanResult" where
  "scan_keys E resume ts maxRows opts kvs nb intents [] =
     (if intents \<noteq> [] then Inl (WriteIntentError intents) else Inr \<lparr>KVs = kvs, Resume = None\<rparr>)"
| "scan_keys E resume ts maxRows opts kvs nb intents (g # gs) =
     (case key_row E g ts opts (intents \<noteq> []) of
        Inl e \<Rightarrow> Inl e
      | Inr (Inl txn) \<Rightarrow>
          let intents = intents @ [\<lparr>intKey = skey g, intTxn = txn\<rparr>]
          in if length intents \<ge> maxIntentsPerError then Inl (WriteIntentError intents)
             else scan_keys E resume ts maxRows opts kvs nb intents gs
      | Inr (Inr (value, found)) \<Rightarrow>
          if found \<and> intents = [] then
            let kvs = kvs @ [\<lparr>kvKey = skey g, kvValue = value\<rparr>]; nb = nb + int (length (skey g) + nlen value)
            in if page_full maxRows opts kvs nb then Inr \<lparr>KVs = kvs, Resume = Some (resume (skey g))\<rparr>
               else scan_keys E resume ts maxRows opts kvs nb intents gs
          else scan_keys E resume ts maxRows opts kvs nb intents gs)"

text \<open>The metadata a segment holds decodes to a proper timestamp.\<close>

definition metas_ok :: "'s deps \<Rightarrow> seg list \<Rightarrow> bool" where
  "metas_ok E gs \<longleftrightarrow>
     (\<forall>g \<in> set gs. \<forall>raw meta. smeta g = Some raw \<longrightarrow> decodeMeta E raw = Inr meta \<longrightarrow> ts_ok (mTimestamp meta))"

lemma seg_first:
  assumes "seg_ok g" "iat it A (seg_entries g @ R)"
  shows "iValid it" "\<exists>vts. DecodeMVCCKey (iKey it) = Inr (skey g, vts) \<and> appendMetaKeyOf (iKey it) vts = meta_key (skey g)"
proof -
  obtain e S where s: "seg_entries g = e # S" using assms(1) by (cases "seg_entries g") (auto simp: seg_ok_def)
  then have at: "iat it A (e # (S @ R))" using assms(2) by simp
  show "iValid it" using iat_valid [OF at] by simp
  have "e \<in> set (seg_entries g)" using s by simp
  then show "\<exists>vts. DecodeMVCCKey (iKey it) = Inr (skey g, vts) \<and> appendMetaKeyOf (iKey it) vts = meta_key (skey g)"
    using assms(1) iat_key [OF at] by (auto elim!: seg_entries_cases)
qed

lemma seg_entries_at_key: "seg_ok g \<Longrightarrow> iat it A (seg_entries g @ R) \<Longrightarrow> at_key (skey g) R it"
  unfolding at_key_def by (intro exI [of _ A] exI [of _ "seg_entries g"]) (auto simp: seg_entries_keys)

lemma scan_loop_at:
  assumes ts: "ts_ok ts" "ts \<noteq> zero_ts"
  shows "view_ok (fs @ gs) \<Longrightarrow> metas_ok E gs \<Longrightarrow> iat it (view_entries fs) (view_entries gs) \<Longrightarrow> length gs < fuel \<Longrightarrow>
    scan_loop fuel E ts maxRows opts kvs nb intents (view_entries gs \<noteq> [], it) =
      scan_keys E Key_Next ts maxRows opts kvs nb intents gs"
proof (induction gs arbitrary: fs it fuel kvs nb intents)
  case Nil
  then show ?case by (cases fuel) auto
next
  case (Cons g gs)
  let ?k = "skey g" and ?R = "view_entries gs" and ?A = "view_entries fs"
  obtain f where f: "fuel = Suc f" using Cons.prems(4) by (cases fuel) auto
  have g: "seg_ok g" "view_ok (g # gs)" using view_ok_append [OF Cons.prems(1)] by (auto simp: view_ok_Cons)
  have R: "beyond ?k ?R" by (rule view_beyond [OF g(2)])
  have A: "\<forall>e \<in> set ?A. fst e < meta_key ?k" using view_before [OF Cons.prems(1)] by (simp add: before_def)
  have at: "iat it ?A (seg_entries g @ ?R)" using Cons.prems(3) by simp
  obtain vts where dec: "DecodeMVCCKey (iKey it) = Inr (?k, vts)" "appendMetaKeyOf (iKey it) vts = meta_key ?k"
    using seg_first(2) [OF g(1) at] by auto
  have meta: "ts_ok (mTimestamp meta)" if "smeta g = Some raw" "decodeMeta E raw = Inr meta" for raw meta
    using Cons.prems(2) that by (auto simp: metas_ok_def)
  obtain it' where it': "at_key ?k ?R it'" "entries it' = entries it"
    "mvccScanKey E it ?k (meta_key ?k) ts opts intents = scan_result ?k intents it it' (key_row E g ts opts (intents \<noteq> []))"
    using mvccScanKey_at [OF g(1) R A at ts, of E opts intents] meta by blast
  have Q: "\<forall>e \<in> set (?A @ seg_entries g). fst e < meta_key (Key_Next ?k)"
  proof -
    have lt: "?k < Key_Next ?k" using Key_Next_le [of ?k "Key_Next ?k"] by simp
    then have "meta_key ?k < meta_key (Key_Next ?k)" by simp
    then have "\<forall>e \<in> set ?A. fst e < meta_key (Key_Next ?k)" using A by (blast intro: less_trans)
    then show ?thesis using seg_entries_keys(2) [OF g(1)] lt by auto
  qed
  have next_key: "scan_loop f E ts maxRows opts kvs nb ics (stepPastKey ?k (meta_key ?k) jt) =
      scan_keys E Key_Next ts maxRows opts kvs nb ics gs"
    if "at_key ?k ?R jt" "entries jt = entries it" for jt kvs nb ics
  proof -
    have "entries jt = (?A @ seg_entries g) @ ?R" using that(2) iat_entries [OF at] by simp
    note s = stepPastKey_at [OF R Q that(1) this]
    have "stepPastKey ?k (meta_key ?k) jt = (?R \<noteq> [], snd (stepPastKey ?k (meta_key ?k) jt))" using s(1) by (simp add: prod_eq_iff)
    moreover have "scan_loop f E ts maxRows opts kvs nb ics (?R \<noteq> [], snd (stepPastKey ?k (meta_key ?k) jt)) =
        scan_keys E Key_Next ts maxRows opts kvs nb ics gs"
      by (rule Cons.IH [of "fs @ [g]"]) (use Cons.prems f s(2) in \<open>simp_all add: metas_ok_def\<close>)
    ultimately show ?thesis by simp
  qed
  note go = next_key [OF it'(1,2)] next_key [OF seg_entries_at_key [OF g(1) at] refl]
  have ne: "view_entries (g # gs) \<noteq> []" using g(1) by (simp add: seg_ok_def)
  consider e where "key_row E g ts opts (intents \<noteq> []) = Inl e" | txn where "key_row E g ts opts (intents \<noteq> []) = Inr (Inl txn)"
    | v found where "key_row E g ts opts (intents \<noteq> []) = Inr (Inr (v, found))"
    by (metis old.sum.exhaust prod.exhaust)
  then show ?case
    unfolding f using dec it'(3) go ne
    by cases (simp_all add: scan_result_def Let_def del: view_entries_simps)
qed

section \<open>Reverse scans\<close>

lemma iat_prev:
  assumes "iat it (A @ [e]) B"
  shows "fst (iPrev it)" "iat (snd (iPrev it)) A (e # B)"
proof -
  show at: "iat (snd (iPrev it)) A (e # B)"
    using assms by (auto simp: iat_def iPrev_def Let_def split: option.splits)
  show "fst (iPrev it)" using iat_valid [OF at] by (simp add: iPrev_def Let_def)
qed

lemma iat_prev_begin: "iat it [] B \<Longrightarrow> \<not> fst (iPrev it)"
  by (auto simp: iat_def iPrev_def iValid_def Let_def)

lemma seek_lt:
  assumes "entries it = Q @ rest" "\<forall>a \<in> set Q. fst a < p" "rest = [] \<or> \<not> fst (hd rest) < p"
  shows "fst (SeekLT p it) = (Q \<noteq> [])" "Q \<noteq> [] \<Longrightarrow> iat (snd (SeekLT p it)) (butlast Q) (List.last Q # rest)"
proof -
  have r: "rank p it = int (length Q)"
    using takeWhile_split [of Q "\<lambda>e. fst e < p" rest] assms by (simp add: rank_def)
  show "fst (SeekLT p it) = (Q \<noteq> [])"
    using r assms(1) by (auto simp: SeekLT_def iValid_def Let_def)
  show "Q \<noteq> [] \<Longrightarrow> iat (snd (SeekLT p it)) (butlast Q) (List.last Q # rest)"
    using r assms(1) by (cases Q rule: rev_cases) (auto simp: SeekLT_def iat_def Let_def)
qed

lemma stepToKeyStart_loop_at:
  assumes Q: "before k Q" and S: "S \<noteq> []" "\<forall>e \<in> set S. keyPrefixOf (fst e) (meta_key k) \<and> \<not> fst e < meta_key k"
  shows "iat it (Q @ S1) (S2 @ B) \<Longrightarrow> S = S1 @ S2 \<Longrightarrow>
    fst (stepToKeyStart_loop (meta_key k) steps it) \<and> iat (snd (stepToKeyStart_loop (meta_key k) steps it)) Q (S @ B)"
proof (induction S1 arbitrary: S2 it steps rule: rev_induct)
  case Nil
  have seek: "fst (SeekGE (meta_key k) jt) \<and> iat (snd (SeekGE (meta_key k) jt)) Q (S @ B)" if "entries jt = Q @ S @ B" for jt
  proof -
    have "S @ B = [] \<or> \<not> fst (hd (S @ B)) < meta_key k" using S by (cases S) auto
    from iat_seek [OF that _ this] Q S(1) show ?thesis by (auto simp: before_def)
  qed
  have es: "entries it = Q @ S @ B" using iat_entries [OF Nil.prems(1)] Nil.prems(2) by simp
  show ?case
  proof (cases "steps \<ge> maxStepsBeforeSeek")
    case True
    then show ?thesis using seek [OF es] by (subst (1 2) stepToKeyStart_loop.simps) simp
  next
    case steps: False
    show ?thesis
    proof (cases Q rule: rev_cases)
      case Nil
      then have "\<not> fst (iPrev it)" using iat_prev_begin [of it] Nil.prems by simp
      then show ?thesis using seek [of "snd (iPrev it)"] es steps
        by (subst (1 2) stepToKeyStart_loop.simps) (simp add: split_beta)
    next
      case (snoc Q' q)
      have at: "iat it (Q' @ [q]) (S @ B)" using Nil.prems snoc by simp
      note pv = iat_prev [OF at]
      have "\<not> keyPrefixOf (iKey (snd (iPrev it))) (meta_key k)" using iat_key [OF pv(2)] Q snoc by (simp add: before_def)
      then show ?thesis using pv iat_next [OF pv(2)] steps S(1) snoc
        by (subst (1 2) stepToKeyStart_loop.simps) (simp add: split_beta)
    qed
  qed
next
  case (snoc e S1)
  have at: "iat it ((Q @ S1) @ [e]) (S2 @ B)" using snoc.prems by simp
  note pv = iat_prev [OF at]
  have e: "keyPrefixOf (iKey (snd (iPrev it))) (meta_key k)" using iat_key [OF pv(2)] S(2) snoc.prems(2) by simp
  show ?case
  proof (cases "steps \<ge> maxStepsBeforeSeek")
    case True
    have es: "entries it = Q @ S @ B" using iat_entries [OF snoc.prems(1)] snoc.prems(2) by simp
    have "S @ B = [] \<or> \<not> fst (hd (S @ B)) < meta_key k" using S by (cases S) auto
    from iat_seek [OF es _ this] Q S(1) True show ?thesis
      by (subst (1 2) stepToKeyStart_loop.simps) (auto simp: before_def)
  next
    case False
    have "iat (snd (iPrev it)) (Q @ S1) ((e # S2) @ B)" using pv(2) by simp
    from snoc.IH [OF this, of "steps + 1"] snoc.prems(2) pv(1) e False show ?thesis
      by (subst (1 2) stepToKeyStart_loop.simps) (simp add: split_beta)
  qed
qed

lemma stepBeforeKey_loop_at:
  assumes Q: "before k Q" and rest: "rest = [] \<or> \<not> fst (hd rest) < meta_key k"
  shows "iat it (Q @ S1) T \<Longrightarrow> \<forall>e \<in> set S1. keyPrefixOf (fst e) (meta_key k) \<Longrightarrow> rest = S1 @ T \<Longrightarrow>
    fst (stepBeforeKey_loop (meta_key k) steps it) = (Q \<noteq> []) \<and>
    (Q \<noteq> [] \<longrightarrow> iat (snd (stepBeforeKey_loop (meta_key k) steps it)) (butlast Q) (List.last Q # rest))"
proof (induction S1 arbitrary: T it steps rule: rev_induct)
  case Nil
  show ?case
  proof (cases "steps \<ge> maxStepsBeforeSeek")
    case True
    have "entries it = Q @ rest" using iat_entries [OF Nil.prems(1)] Nil.prems(3) by simp
    from seek_lt [OF this _ rest] Q True show ?thesis
      by (subst (1 2) stepBeforeKey_loop.simps) (simp add: before_def)
  next
    case steps: False
    show ?thesis
    proof (cases Q rule: rev_cases)
      case Nil
      then have "\<not> fst (iPrev it)" using iat_prev_begin [of it] Nil.prems by simp
      then show ?thesis using steps Nil by (subst stepBeforeKey_loop.simps) (simp add: split_beta)
    next
      case (snoc Q' q)
      have at: "iat it (Q' @ [q]) T" using Nil.prems snoc by simp
      note pv = iat_prev [OF at]
      have "\<not> keyPrefixOf (iKey (snd (iPrev it))) (meta_key k)" using iat_key [OF pv(2)] Q snoc by (simp add: before_def)
      then show ?thesis using pv steps snoc Nil.prems(3)
        by (subst (1 2) stepBeforeKey_loop.simps) (simp add: split_beta)
    qed
  qed
next
  case (snoc e S1)
  have at: "iat it ((Q @ S1) @ [e]) T" using snoc.prems by simp
  note pv = iat_prev [OF at]
  have e: "keyPrefixOf (iKey (snd (iPrev it))) (meta_key k)" using iat_key [OF pv(2)] snoc.prems(2) by simp
  show ?case
  proof (cases "steps \<ge> maxStepsBeforeSeek")
    case True
    have "entries it = Q @ rest" using iat_entries [OF snoc.prems(1)] snoc.prems(3) by simp
    from seek_lt [OF this _ rest] Q True show ?thesis
      by (subst (1 2) stepBeforeKey_loop.simps) (simp add: before_def)
  next
    case False
    from snoc.IH [OF pv(2), of "steps + 1"] snoc.prems(2,3) pv(1) e False show ?thesis
      by (subst (1 2) stepBeforeKey_loop.simps) (simp add: split_beta)
  qed
qed

lemma at_key_split:
  assumes "iat it A (S @ R)" "\<forall>e \<in> set S. keyPrefixOf (fst e) (meta_key k)" "before k Q" "entries it = Q @ G @ R"
  obtains S1 where "A = Q @ S1" "G = S1 @ S"
proof -
  have "A @ S = Q @ G" using iat_entries [OF assms(1)] assms(4) by (metis append_assoc append_same_eq)
  then obtain us where "A = Q @ us \<and> us @ S = G \<or> A @ us = Q \<and> S = us @ G"
    by (auto simp: append_eq_append_conv2)
  moreover have "us = []" if "A @ us = Q" "S = us @ G"
  proof (rule ccontr)
    assume "us \<noteq> []"
    then have "hd us \<in> set us" by simp
    then have "keyPrefixOf (fst (hd us)) (meta_key k)" "\<not> keyPrefixOf (fst (hd us)) (meta_key k)"
      using assms(2,3) that unfolding before_def by (metis Un_iff set_append)+
    then show False by simp
  qed
  ultimately show thesis using that by auto
qed

lemma stepBeforeKey_at:
  assumes "at_key k R it" "before k Q" "entries it = Q @ G @ R" "\<forall>e \<in> set G. keyPrefixOf (fst e) (meta_key k)"
    "G @ R = [] \<or> \<not> fst (hd (G @ R)) < meta_key k"
  shows "fst (stepBeforeKey (meta_key k) it) = (Q \<noteq> [])"
    "Q \<noteq> [] \<Longrightarrow> iat (snd (stepBeforeKey (meta_key k) it)) (butlast Q) (List.last Q # (G @ R))"
proof -
  obtain A S where at: "iat it A (S @ R)" "\<forall>e \<in> set S. keyPrefixOf (fst e) (meta_key k)"
    using assms(1) unfolding at_key_def by blast
  obtain S1 where S1: "A = Q @ S1" "G = S1 @ S" by (rule at_key_split [OF at assms(2,3)])
  show "fst (stepBeforeKey (meta_key k) it) = (Q \<noteq> [])"
    "Q \<noteq> [] \<Longrightarrow> iat (snd (stepBeforeKey (meta_key k) it)) (butlast Q) (List.last Q # (G @ R))"
    using stepBeforeKey_loop_at [OF assms(2,5) at(1) [unfolded S1(1)], of 0] assms(4) S1(2)
    unfolding stepBeforeKey_def by auto
qed

lemma seg_entries_ge: "seg_ok g \<Longrightarrow> seg_entries g @ R = [] \<or> \<not> fst (hd (seg_entries g @ R)) < meta_key (skey g)"
  using seg_entries_keys(2) [of g "hd (seg_entries g)" "skey g"] by (cases "seg_entries g") (auto simp: seg_ok_def)

lemma reverse_loop_at:
  assumes ts: "ts_ok ts" "ts \<noteq> zero_ts"
  shows "view_ok (fs @ hs) \<Longrightarrow> metas_ok E fs \<Longrightarrow> length fs < fuel \<Longrightarrow>
    (fs \<noteq> [] \<Longrightarrow> iat it (butlast (view_entries fs)) (List.last (view_entries fs) # view_entries hs)) \<Longrightarrow>
    reverse_loop fuel E ts maxRows opts kvs nb intents (fs \<noteq> [], it) =
      scan_keys E id ts maxRows opts kvs nb intents (rev fs)"
proof (induction fs arbitrary: hs it fuel kvs nb intents rule: rev_induct)
  case Nil
  then show ?case by (cases fuel) auto
next
  case (snoc g fs)
  let ?k = "skey g" and ?R = "view_entries hs" and ?Q = "view_entries fs" and ?G = "seg_entries g"
  obtain f where f: "fuel = Suc f" using snoc.prems(3) by (cases fuel) auto
  have v: "view_ok (fs @ g # hs)" using snoc.prems(1) by simp
  have g: "seg_ok g" "view_ok (g # hs)" using view_ok_append [OF v] by (auto simp: view_ok_Cons)
  have R: "beyond ?k ?R" by (rule view_beyond [OF g(2)])
  have Q: "before ?k ?Q" by (rule view_before [OF v])
  have G: "?G \<noteq> []" "\<forall>e \<in> set ?G. keyPrefixOf (fst e) (meta_key ?k) \<and> \<not> fst e < meta_key ?k"
    using g(1) seg_entries_keys [OF g(1)] by (auto simp: seg_ok_def)
  obtain G' e where Ge: "?G = G' @ [e]" using G(1) by (cases ?G rule: rev_cases) auto
  have at: "iat it (?Q @ G') ([e] @ ?R)" using snoc.prems(4) Ge by (simp add: butlast_append)
  have e: "e \<in> set ?G" using Ge by simp
  have "iKey it = fst e" using iat_key [of it "?Q @ G'" e ?R] at by simp
  then obtain vts where dec: "DecodeMVCCKey (iKey it) = Inr (?k, vts)" "appendMetaKeyOf (iKey it) vts = meta_key ?k"
    using e g(1) by (auto elim!: seg_entries_cases)
  obtain it1 where st: "stepToKeyStart (meta_key ?k) it = (True, it1)" and at1: "iat it1 ?Q (?G @ ?R)"
    using stepToKeyStart_loop_at [OF Q G at Ge, of 0] unfolding stepToKeyStart_def by (metis prod.collapse)
  have meta: "ts_ok (mTimestamp meta)" if "smeta g = Some raw" "decodeMeta E raw = Inr meta" for raw meta
    using snoc.prems(2) that by (auto simp: metas_ok_def)
  have Q': "\<forall>e \<in> set ?Q. fst e < meta_key ?k" using Q by (simp add: before_def)
  obtain it' where it': "at_key ?k ?R it'" "entries it' = entries it1"
    "mvccScanKey E it1 ?k (meta_key ?k) ts opts intents = scan_result ?k intents it1 it' (key_row E g ts opts (intents \<noteq> []))"
    using mvccScanKey_at [OF g(1) R Q' at1 ts, of E opts intents] meta by blast
  have next_key: "reverse_loop f E ts maxRows opts kvs nb ics (stepBeforeKey (meta_key ?k) jt) =
      scan_keys E id ts maxRows opts kvs nb ics (rev fs)"
    if "at_key ?k ?R jt" "entries jt = entries it1" for jt kvs nb ics
  proof -
    have "entries jt = ?Q @ ?G @ ?R" using that(2) iat_entries [OF at1] by simp
    note s = stepBeforeKey_at [OF that(1) Q this _ seg_entries_ge [OF g(1)]]
    have ok: "fst (stepBeforeKey (meta_key ?k) jt) = (fs \<noteq> [])"
      using s(1) G(2) view_ok_append [OF v] by (cases fs) (auto simp: view_ok_Cons seg_ok_def)
    then have "stepBeforeKey (meta_key ?k) jt = (fs \<noteq> [], snd (stepBeforeKey (meta_key ?k) jt))" by (simp add: prod_eq_iff)
    moreover have "reverse_loop f E ts maxRows opts kvs nb ics (fs \<noteq> [], snd (stepBeforeKey (meta_key ?k) jt)) =
        scan_keys E id ts maxRows opts kvs nb ics (rev fs)"
    proof (rule snoc.IH [of "g # hs"])
      show "view_ok (fs @ g # hs)" by (rule v)
      show "metas_ok E fs" using snoc.prems(2) by (simp add: metas_ok_def)
      show "length fs < f" using snoc.prems(3) f by simp
      assume "fs \<noteq> []"
      with ok s(1) G(2) have "?Q \<noteq> []" by simp
      with s(2) G(2) show "iat (snd (stepBeforeKey (meta_key ?k) jt)) (butlast ?Q) (List.last ?Q # view_entries (g # hs))" by simp
    qed
    ultimately show ?thesis by simp
  qed
  note go = next_key [OF it'(1,2)] next_key [OF seg_entries_at_key [OF g(1) at1] refl]
  consider e where "key_row E g ts opts (intents \<noteq> []) = Inl e" | txn where "key_row E g ts opts (intents \<noteq> []) = Inr (Inl txn)"
    | v found where "key_row E g ts opts (intents \<noteq> []) = Inr (Inr (v, found))"
    by (metis old.sum.exhaust prod.exhaust)
  then show ?case
    unfolding f using dec st it'(3) go
    by cases (simp_all add: scan_result_def Let_def id_def)
qed

section \<open>Refreshes and exports\<close>

text \<open>The key of every entry decodes, to another key than \<open>k\<close>.\<close>

definition others :: "key \<Rightarrow> (bytes \<times> bytes) list \<Rightarrow> bool" where
  "others k R \<longleftrightarrow> (\<forall>e \<in> set R. \<exists>k' t. DecodeMVCCKey (fst e) = Inr (k', t) \<and> k' \<noteq> k)"

lemma view_others: "view_ok (g # gs) \<Longrightarrow> others (skey g) (view_entries gs)"
  unfolding others_def
proof
  fix e assume v: "view_ok (g # gs)" and e: "e \<in> set (view_entries gs)"
  then obtain h where h: "h \<in> set gs" "e \<in> set (seg_entries h)" by (auto simp: view_entries_def)
  with v have "seg_ok h" "skey h \<noteq> skey g" by (auto simp: view_ok_def list_all_iff)
  then show "\<exists>k' t. DecodeMVCCKey (fst e) = Inr (k', t) \<and> k' \<noteq> skey g"
    using h(2) by (auto elim!: seg_entries_cases)
qed

lemma check_versions_at:
  "others k R \<Longrightarrow> iat it A (ver_entries k ws @ R) \<Longrightarrow>
   check_versions k skipAt fromTS (ver_entries k ws @ R \<noteq> [], it) =
     (case find (\<lambda>(u, _). \<not> skipped skipAt u) ws of None \<Rightarrow> Inr ()
      | Some (u, _) \<Rightarrow> if fromTS < u then Inl (RefreshFailed k u) else Inr ())"
proof (induction ws arbitrary: it A)
  case Nil
  show ?case
  proof (cases R)
    case Nil
    then show ?thesis by (subst check_versions.simps) simp
  next
    case (Cons e R')
    with Nil.prems obtain k' t where "DecodeMVCCKey (iKey it) = Inr (k', t)" "k' \<noteq> k"
      using iat_key [of it A e R'] by (auto simp: others_def)
    then show ?thesis by (subst check_versions.simps) simp
  qed
next
  case (Cons x ws)
  obtain u v where x: "x = (u, v)" by (cases x)
  with Cons.prems have at: "iat it A ((ver_key k u, v) # (ver_entries k ws @ R))" by simp
  have nx: "iNext it = (ver_entries k ws @ R \<noteq> [], snd (iNext it))" using iat_next(1) [OF at] by (simp add: prod_eq_iff)
  show ?case
    using iat_valid [OF at] iat_key [OF at] Cons.IH [OF Cons.prems(1) iat_next(2) [OF at]] nx x
    by (subst check_versions.simps) (auto simp: skipped_def)
qed

definition check_key :: "'s deps \<Rightarrow> timestamp \<Rightarrow> timestamp \<Rightarrow> uuid \<Rightarrow> seg \<Rightarrow> mvcc_error + unit" where
  "check_key E fromTS toTS ownTxn g =
     (let committed = (\<lambda>skipAt. case newest_at skipAt toTS (svers g) of None \<Rightarrow> Inr ()
            | Some (u, _) \<Rightarrow> if fromTS < u then Inl (RefreshFailed (skey g) u) else Inr ())
      in case smeta g of None \<Rightarrow> committed zero_ts
         | Some raw \<Rightarrow> res_bind (decodeMeta E raw) (\<lambda>meta.
             if ID (mTxn meta) \<noteq> ownTxn then Inl (WriteIntentError [\<lparr>intKey = skey g, intTxn = mTxn meta\<rparr>])
             else committed (mTimestamp meta)))"

primrec check_keys :: "'s deps \<Rightarrow> timestamp \<Rightarrow> timestamp \<Rightarrow> uuid \<Rightarrow> seg list \<Rightarrow> mvcc_error + unit" where
  "check_keys E fromTS toTS ownTxn [] = Inr ()"
| "check_keys E fromTS toTS ownTxn (g # gs) = res_bind (check_key E fromTS toTS ownTxn g) (\<lambda>_. check_keys E fromTS toTS ownTxn gs)"

text \<open>A seek past a key lands on the entries of the later keys.\<close>

lemma seek_past:
  assumes "view_ok (fs @ g # gs)" "entries it = view_entries (fs @ g # gs)"
  shows "fst (SeekGE (EncodeMVCCKey (Key_Next (skey g)) zero_ts) it) = (view_entries gs \<noteq> [])"
    "iat (snd (SeekGE (EncodeMVCCKey (Key_Next (skey g)) zero_ts) it)) (view_entries (fs @ [g])) (view_entries gs)"
proof -
  let ?k = "skey g"
  have g: "seg_ok g" "view_ok (g # gs)" using view_ok_append [OF assms(1)] by (auto simp: view_ok_Cons)
  have lt: "?k < Key_Next ?k" using Key_Next_le [of ?k "Key_Next ?k"] by simp
  have "\<forall>e \<in> set (view_entries fs). fst e < meta_key (Key_Next ?k)"
    using view_before [OF assms(1)] lt unfolding before_def by (metis less_trans meta_key_less)
  then have A: "\<forall>e \<in> set (view_entries (fs @ [g])). fst e < meta_key (Key_Next ?k)"
    using seg_entries_keys(2) [OF g(1)] lt by auto
  have R: "view_entries gs = [] \<or> \<not> fst (hd (view_entries gs)) < meta_key (Key_Next ?k)"
    using view_beyond [OF g(2)] by (cases "view_entries gs") (auto simp: beyond_def not_less)
  have es: "entries it = view_entries (fs @ [g]) @ view_entries gs" using assms(2) by simp
  show "fst (SeekGE (EncodeMVCCKey (Key_Next ?k) zero_ts) it) = (view_entries gs \<noteq> [])"
    "iat (snd (SeekGE (EncodeMVCCKey (Key_Next ?k) zero_ts) it)) (view_entries (fs @ [g])) (view_entries gs)"
    using iat_seek [OF es A R] by (simp_all add: EncodeMVCCKey_simps)
qed

text \<open>A seek to a version of a key.\<close>

lemma seek_in_view:
  assumes "view_ok (fs @ g # gs)" "entries it = view_entries (fs @ g # gs)" "ts_ok t" "t \<noteq> zero_ts"
  shows "fst (SeekGE (EncodeMVCCKey (skey g) t) it) = (ver_entries (skey g) (dropWhile (\<lambda>(u, _). t < u) (svers g)) @ view_entries gs \<noteq> [])"
    "iat (snd (SeekGE (EncodeMVCCKey (skey g) t) it))
      (view_entries fs @ meta_entries (skey g) (smeta g) @ ver_entries (skey g) (takeWhile (\<lambda>(u, _). t < u) (svers g)))
      (ver_entries (skey g) (dropWhile (\<lambda>(u, _). t < u) (svers g)) @ view_entries gs)"
proof -
  let ?k = "skey g"
  have g: "seg_ok g" "view_ok (g # gs)" using view_ok_append [OF assms(1)] by (auto simp: view_ok_Cons)
  have "meta_key ?k < ver_key ?k t" by simp
  then have P: "\<forall>e \<in> set (view_entries fs @ meta_entries ?k (smeta g)). fst e < ver_key ?k t"
    using view_before [OF assms(1)] unfolding before_def by (cases "smeta g") (auto intro: less_trans)
  have "entries it = (view_entries fs @ meta_entries ?k (smeta g)) @ ver_entries ?k (svers g) @ view_entries gs"
    using assms(2) by (simp add: seg_entries_def)
  note s = seek_version_at [OF view_beyond [OF g(2)] _ assms(3,4) P this]
  show "fst (SeekGE (EncodeMVCCKey ?k t) it) = (ver_entries ?k (dropWhile (\<lambda>(u, _). t < u) (svers g)) @ view_entries gs \<noteq> [])"
    "iat (snd (SeekGE (EncodeMVCCKey ?k t) it))
      (view_entries fs @ meta_entries ?k (smeta g) @ ver_entries ?k (takeWhile (\<lambda>(u, _). t < u) (svers g)))
      (ver_entries ?k (dropWhile (\<lambda>(u, _). t < u) (svers g)) @ view_entries gs)"
    using s g(1) by (auto simp: seg_ok_def)
qed

lemma check_committed:
  assumes "view_ok (fs @ g # gs)" "entries it = view_entries (fs @ g # gs)" "ts_ok toTS" "toTS \<noteq> zero_ts"
  shows "check_versions (skey g) skipAt fromTS (SeekGE (EncodeMVCCKey (skey g) toTS) it) =
    (case newest_at skipAt toTS (svers g) of None \<Rightarrow> Inr ()
     | Some (u, _) \<Rightarrow> if fromTS < u then Inl (RefreshFailed (skey g) u) else Inr ())"
proof -
  let ?ds = "dropWhile (\<lambda>(u, _). toTS < u) (svers g)"
  have g: "seg_ok g" "view_ok (g # gs)" using view_ok_append [OF assms(1)] by (auto simp: view_ok_Cons)
  note s = seek_in_view [OF assms]
  have "SeekGE (EncodeMVCCKey (skey g) toTS) it =
      (ver_entries (skey g) ?ds @ view_entries gs \<noteq> [], snd (SeekGE (EncodeMVCCKey (skey g) toTS) it))"
    using s(1) by (simp add: prod_eq_iff)
  moreover have "newest_at skipAt toTS (svers g) = find (\<lambda>(u, _). \<not> skipped skipAt u) ?ds"
    unfolding newest_at_def by (rule find_dropWhile) (use g(1) in \<open>simp add: seg_ok_def\<close>)
  ultimately show ?thesis using check_versions_at [OF view_others [OF g(2)] s(2), of skipAt fromTS] by simp
qed

lemma check_loop_at:
  assumes ts: "ts_ok toTS" "toTS \<noteq> zero_ts"
  shows "view_ok (fs @ gs) \<Longrightarrow> iat it (view_entries fs) (view_entries gs) \<Longrightarrow> length gs < fuel \<Longrightarrow>
    check_loop fuel E fromTS toTS ownTxn (view_entries gs \<noteq> [], it) = check_keys E fromTS toTS ownTxn gs"
proof (induction gs arbitrary: fs it fuel)
  case Nil
  then show ?case by (cases fuel) auto
next
  case (Cons g gs)
  let ?k = "skey g" and ?past = "EncodeMVCCKey (Key_Next (skey g)) zero_ts"
  obtain f where f: "fuel = Suc f" using Cons.prems(3) by (cases fuel) auto
  have g: "seg_ok g" using view_ok_append [OF Cons.prems(1)] by (auto simp: view_ok_Cons)
  have at: "iat it (view_entries fs) (seg_entries g @ view_entries gs)" using Cons.prems(2) by simp
  have es: "entries it = view_entries (fs @ g # gs)" using iat_entries [OF at] by simp
  have past: "check_loop f E fromTS toTS ownTxn (SeekGE ?past jt) = check_keys E fromTS toTS ownTxn gs"
    if "entries jt = view_entries (fs @ g # gs)" for jt
  proof -
    note s = seek_past [OF Cons.prems(1) that]
    have "SeekGE ?past jt = (view_entries gs \<noteq> [], snd (SeekGE ?past jt))" using s(1) by (simp add: prod_eq_iff)
    moreover have "check_loop f E fromTS toTS ownTxn (view_entries gs \<noteq> [], snd (SeekGE ?past jt)) = check_keys E fromTS toTS ownTxn gs"
      by (rule Cons.IH [of "fs @ [g]"]) (use Cons.prems f s(2) in simp_all)
    ultimately show ?thesis by simp
  qed
  have ne: "view_entries (g # gs) \<noteq> []" using g by (simp add: seg_ok_def)
  show ?case
  proof (cases "smeta g")
    case None
    with g obtain u v ws where s: "svers g = (u, v) # ws" by (cases "svers g") (auto simp: seg_ok_def seg_entries_def)
    have "u \<noteq> zero_ts" using g s by (simp add: seg_ok_def vers_ok_Cons)
    moreover have "iKey it = ver_key ?k u"
      using at None s iat_key [of it "view_entries fs" "(ver_key ?k u, v)" "ver_entries ?k ws @ view_entries gs"]
      by (simp add: seg_entries_def)
    ultimately show ?thesis
      using ne past [OF es] check_committed [OF Cons.prems(1) es ts] None unfolding f
      by (simp add: check_key_def Let_def del: view_entries_simps)
  next
    case (Some raw)
    have atm: "iat it (view_entries fs) ((meta_key ?k, raw) # (ver_entries ?k (svers g) @ view_entries gs))"
      using at Some by (simp add: seg_entries_def)
    note nx = iat_next [OF atm]
    have esn: "entries (snd (iNext it)) = view_entries (fs @ g # gs)" using es by simp
    have none: "svers g = [] \<and> check_keys E fromTS toTS ownTxn gs = Inr ()" if "\<not> fst (iNext it)"
      using nx(1) that view_ok_append [OF Cons.prems(1)] by (cases gs) (auto simp: view_ok_Cons seg_ok_def)
    show ?thesis
      using ne iat_key [OF atm] Some past [OF esn] check_committed [OF Cons.prems(1) esn ts] none unfolding f
      by (cases "decodeMeta E raw"; cases "fst (iNext it)")
        (auto simp add: check_key_def Let_def split_beta newest_at_def simp del: view_entries_simps)
  qed
qed

definition export_key ::
  "'s deps \<Rightarrow> timestamp \<Rightarrow> timestamp \<Rightarrow> seg \<Rightarrow> mvcc_error + (TxnMeta + (nbytes \<times> bool) option)" where
  "export_key E startTS endTS g =
     (let version = (case newest_at zero_ts endTS (svers g) of None \<Rightarrow> Inr (Inr None)
            | Some (u, raw) \<Rightarrow>
                if u \<le> startTS then Inr (Inr None)
                else case decodeMVCCValue raw of Inl e \<Rightarrow> Inl (ValueError e) | Inr dt \<Rightarrow> Inr (Inr (Some dt)))
      in case smeta g of None \<Rightarrow> version
         | Some raw \<Rightarrow> res_bind (decodeMeta E raw) (\<lambda>meta.
             if endTS < mTimestamp meta then version else Inr (Inl (mTxn meta))))"

fun export_keys ::
  "'s deps \<Rightarrow> timestamp \<Rightarrow> timestamp \<Rightarrow> int \<Rightarrow> ExportedRecord list \<Rightarrow> Intent list \<Rightarrow> seg list \<Rightarrow> mvcc_error + ExportResult" where
  "export_keys E startTS endTS maxRows recs intents [] =
     (if intents \<noteq> [] then Inl (WriteIntentError intents) else Inr \<lparr>Records = recs, erResume = None\<rparr>)"
| "export_keys E startTS endTS maxRows recs intents (g # gs) =
     (case export_key E startTS endTS g of
        Inl e \<Rightarrow> Inl e
      | Inr (Inl txn) \<Rightarrow>
          let intents = intents @ [\<lparr>intKey = skey g, intTxn = txn\<rparr>]
          in if length intents \<ge> maxIntentsPerError then Inl (WriteIntentError intents)
             else export_keys E startTS endTS maxRows recs intents gs
      | Inr (Inr None) \<Rightarrow> export_keys E startTS endTS maxRows recs intents gs
      | Inr (Inr (Some (data, tombstone))) \<Rightarrow>
          if intents = [] then
            let recs = recs @ [\<lparr>erKey = skey g, erValue = (if tombstone then None else clone_nil (case data of None \<Rightarrow> [] | Some d \<Rightarrow> d)),
                  erDeleted = tombstone\<rparr>]
            in if maxRows > 0 \<and> int (length recs) = maxRows then Inr \<lparr>Records = recs, erResume = Some (Key_Next (skey g))\<rparr>
               else export_keys E startTS endTS maxRows recs intents gs
          else export_keys E startTS endTS maxRows recs intents gs)"

lemma export_version_at:
  assumes "view_ok (fs @ g # gs)" "entries it = view_entries (fs @ g # gs)" "ts_ok endTS" "endTS \<noteq> zero_ts"
  shows "export_version (skey g) startTS (SeekGE (EncodeMVCCKey (skey g) endTS) it) =
    (case newest_at zero_ts endTS (svers g) of None \<Rightarrow> Inr None
     | Some (u, raw) \<Rightarrow>
         if u \<le> startTS then Inr None
         else case decodeMVCCValue raw of Inl e \<Rightarrow> Inl (ValueError e) | Inr dt \<Rightarrow> Inr (Some dt))"
proof -
  let ?k = "skey g" and ?ds = "dropWhile (\<lambda>(u, _). endTS < u) (svers g)"
  have g: "seg_ok g" "view_ok (g # gs)" using view_ok_append [OF assms(1)] by (auto simp: view_ok_Cons)
  obtain ok it' where sk: "SeekGE (EncodeMVCCKey ?k endTS) it = (ok, it')" by fastforce
  note s = seek_in_view [OF assms, unfolded sk fst_conv snd_conv]
  have nw: "newest_at zero_ts endTS (svers g) = find (\<lambda>(u, _). \<not> skipped zero_ts u) ?ds"
    unfolding newest_at_def by (rule find_dropWhile) (use g(1) in \<open>simp add: seg_ok_def\<close>)
  show ?thesis
  proof (cases ?ds)
    case (Cons x ws)
    obtain u raw where x: "x = (u, raw)" by (cases x)
    have "iKey it' = ver_key ?k u" "iValue it' = raw"
      using s(2) Cons x iat_key [of it' _ "(ver_key ?k u, raw)" "ver_entries ?k ws @ view_entries gs"] by auto
    then show ?thesis using s(1) sk nw Cons x
      by (auto simp: export_version_def skipped_def split: sum.splits)
  next
    case Nil
    show ?thesis
    proof (cases "view_entries gs")
      case (Cons e R)
      have "iKey it' = fst e" using s(2) Nil Cons iat_key [of it' _ e R] by (simp del: dropWhile_eq_Nil_conv)
      moreover obtain k' t where "DecodeMVCCKey (fst e) = Inr (k', t)" "k' \<noteq> ?k"
        using view_others [OF g(2)] Cons by (auto simp: others_def)
      ultimately show ?thesis using s(1) sk nw Nil Cons by (simp add: export_version_def del: dropWhile_eq_Nil_conv)
    qed (use s(1) sk nw Nil in \<open>simp add: export_version_def del: dropWhile_eq_Nil_conv\<close>)
  qed
qed

lemma export_loop_at:
  assumes ts: "ts_ok endTS" "endTS \<noteq> zero_ts"
  shows "view_ok (fs @ gs) \<Longrightarrow> iat it (view_entries fs) (view_entries gs) \<Longrightarrow> length gs < fuel \<Longrightarrow>
    export_loop fuel E startTS endTS maxRows recs intents (view_entries gs \<noteq> [], it) =
      export_keys E startTS endTS maxRows recs intents gs"
proof (induction gs arbitrary: fs it fuel recs intents)
  case Nil
  then show ?case by (cases fuel) auto
next
  case (Cons g gs)
  let ?k = "skey g" and ?past = "EncodeMVCCKey (Key_Next (skey g)) zero_ts"
  obtain f where f: "fuel = Suc f" using Cons.prems(3) by (cases fuel) auto
  have g: "seg_ok g" using view_ok_append [OF Cons.prems(1)] by (auto simp: view_ok_Cons)
  have at: "iat it (view_entries fs) (seg_entries g @ view_entries gs)" using Cons.prems(2) by simp
  have es: "entries it = view_entries (fs @ g # gs)" using iat_entries [OF at] by simp
  have past: "export_loop f E startTS endTS maxRows rs ics (SeekGE ?past it) = export_keys E startTS endTS maxRows rs ics gs" for rs ics
  proof -
    note s = seek_past [OF Cons.prems(1) es]
    have "SeekGE ?past it = (view_entries gs \<noteq> [], snd (SeekGE ?past it))" using s(1) by (simp add: prod_eq_iff)
    moreover have "export_loop f E startTS endTS maxRows rs ics (view_entries gs \<noteq> [], snd (SeekGE ?past it)) =
        export_keys E startTS endTS maxRows rs ics gs"
      by (rule Cons.IH [of "fs @ [g]"]) (use Cons.prems f s(2) in simp_all)
    ultimately show ?thesis by simp
  qed
  have ne: "view_entries (g # gs) \<noteq> []" using g by (simp add: seg_ok_def)
  define V where "V = export_version ?k startTS (SeekGE (EncodeMVCCKey ?k endTS) it)"
  have key: "export_key E startTS endTS g = (case smeta g of None \<Rightarrow> map_sum id Inr V
      | Some raw \<Rightarrow> res_bind (decodeMeta E raw) (\<lambda>meta. if endTS < mTimestamp meta then map_sum id Inr V else Inr (Inl (mTxn meta))))"
    unfolding V_def export_version_at [OF Cons.prems(1) es ts] export_key_def Let_def
    by (auto split: option.splits sum.splits prod.splits intro!: arg_cong2 [where f = res_bind])
  consider e where "V = Inl e" | "V = Inr None" | d t where "V = Inr (Some (d, t))"
    by (metis old.sum.exhaust option.exhaust prod.exhaust)
  note V = this
  show ?case
  proof (cases "smeta g")
    case None
    with g obtain u v ws where s: "svers g = (u, v) # ws" by (cases "svers g") (auto simp: seg_ok_def seg_entries_def)
    have "u \<noteq> zero_ts" using g s by (simp add: seg_ok_def vers_ok_Cons)
    moreover have "iKey it = ver_key ?k u"
      using at None s iat_key [of it "view_entries fs" "(ver_key ?k u, v)" "ver_entries ?k ws @ view_entries gs"]
      by (simp add: seg_entries_def)
    ultimately show ?thesis
      using ne past None key V_def [symmetric] unfolding f
      by (cases rule: V) (simp_all add: Let_def del: view_entries_simps)
  next
    case (Some raw)
    have atm: "iat it (view_entries fs) ((meta_key ?k, raw) # (ver_entries ?k (svers g) @ view_entries gs))"
      using at Some by (simp add: seg_entries_def)
    show ?thesis
      using ne iat_key [OF atm] Some past key V_def [symmetric] unfolding f
      by (cases "decodeMeta E raw"; cases rule: V) (simp_all add: Let_def del: view_entries_simps)
  qed
qed

section \<open>The segments of a span\<close>

text \<open>Every engine key of the span is one the MVCC layer writes, and no user key of it is local.\<close>

definition clean_span :: "contents \<Rightarrow> key \<Rightarrow> key \<Rightarrow> bool" where
  "clean_span m start end' \<longleftrightarrow>
     (\<forall>x. meta_key start \<le> x \<longrightarrow> x < meta_key end' \<longrightarrow> m x \<noteq> None \<longrightarrow> engine_key x) \<and>
     (\<forall>k. start \<le> k \<longrightarrow> k < end' \<longrightarrow> \<not> Keys.IsLocal k)"

text \<open>The keys of the span that have an intent or a version, in order, with what the store holds for them.\<close>

definition span_segs :: "contents \<Rightarrow> key \<Rightarrow> key \<Rightarrow> seg list \<Rightarrow> bool" where
  "span_segs m start end' gs \<longleftrightarrow>
     sorted_wrt (<) (map skey gs) \<and>
     (\<forall>k. k \<in> skey ` set gs \<longleftrightarrow> start \<le> k \<and> k < end' \<and> (m (meta_key k) \<noteq> None \<or> (\<exists>t. version_at m k t \<noteq> None))) \<and>
     (\<forall>g \<in> set gs. smeta g = m (meta_key (skey g)) \<and> versions_of m (skey g) (svers g))"

lemma in_span_meta: "meta_key start \<le> meta_key k \<and> meta_key k < meta_key end' \<longleftrightarrow> start \<le> k \<and> k < end'"
  by (simp add: not_less [symmetric])

lemma in_span_ver: "meta_key start \<le> ver_key k t \<and> ver_key k t < meta_key end' \<longleftrightarrow> start \<le> k \<and> k < end'"
  by (auto simp: not_less [symmetric])

lemma view_unique: "view_ok gs \<Longrightarrow> g \<in> set gs \<Longrightarrow> h \<in> set gs \<Longrightarrow> skey g = skey h \<Longrightarrow> g = h"
proof (induction gs)
  case (Cons x gs)
  then show ?case by (auto simp: view_ok_Cons)
qed simp

lemma view_meta_iff:
  assumes "view_ok gs" "g \<in> set gs"
  shows "(meta_key (skey g), v) \<in> set (view_entries gs) \<longleftrightarrow> smeta g = Some v"
    "(ver_key (skey g) t, v) \<in> set (view_entries gs) \<longleftrightarrow> (t, v) \<in> set (svers g)"
proof -
  have ok: "seg_ok h" if "h \<in> set gs" for h using assms(1) that by (auto simp: view_ok_def list_all_iff)
  have in_seg: "(x, v) \<in> set (view_entries gs) \<longleftrightarrow> (x, v) \<in> set (seg_entries g)" if "keyPrefixOf x (meta_key (skey g))" for x
  proof
    assume "(x, v) \<in> set (view_entries gs)"
    then obtain h where h: "h \<in> set gs" "(x, v) \<in> set (seg_entries h)" by (auto simp: view_entries_def)
    then have "skey h = skey g" using seg_entries_keys(1) [OF ok h(2)] that by simp
    then show "(x, v) \<in> set (seg_entries g)" using view_unique [OF assms(1) h(1) assms(2)] h(2) by simp
  qed (use assms(2) in \<open>auto simp: view_entries_def\<close>)
  show "(meta_key (skey g), v) \<in> set (view_entries gs) \<longleftrightarrow> smeta g = Some v"
    by (subst in_seg) (cases "smeta g"; auto simp: seg_entries_def set_ver_entries)+
  show "(ver_key (skey g) t, v) \<in> set (view_entries gs) \<longleftrightarrow> (t, v) \<in> set (svers g)"
    by (subst in_seg) (cases "smeta g"; auto simp: seg_entries_def set_ver_entries)+
qed

lemma view_span_segs:
  assumes v: "view_ok gs" and iff: "\<And>x v. (x, v) \<in> set (view_entries gs) \<longleftrightarrow> meta_key start \<le> x \<and> x < meta_key end' \<and> m x = Some v"
  shows "span_segs m start end' gs"
proof -
  have ok: "seg_ok g" if "g \<in> set gs" for g using v that by (auto simp: view_ok_def list_all_iff)
  have in_keys: "start \<le> skey g \<and> skey g < end' \<and> (m (meta_key (skey g)) \<noteq> None \<or> (\<exists>t. version_at m (skey g) t \<noteq> None))"
    if g: "g \<in> set gs" for g
  proof -
    obtain e where e: "e \<in> set (seg_entries g)" using ok [OF g] by (cases "seg_entries g") (auto simp: seg_ok_def)
    then have "(fst e, snd e) \<in> set (view_entries gs)" using g by (auto simp: view_entries_def)
    then have b: "meta_key start \<le> fst e \<and> fst e < meta_key end'" "m (fst e) = Some (snd e)" unfolding iff by auto
    from e ok [OF g] show ?thesis
    proof (cases rule: seg_entries_cases)
      case 1
      then show ?thesis using b in_span_meta by auto
    next
      case (2 t)
      then show ?thesis using b in_span_ver by (auto simp: version_at_def)
    qed
  qed
  have content: "smeta g = m (meta_key (skey g)) \<and> versions_of m (skey g) (svers g)" if g: "g \<in> set gs" for g
  proof
    have "smeta g = Some v \<longleftrightarrow> m (meta_key (skey g)) = Some v" for v
      using view_meta_iff(1) [OF v g] iff [of "meta_key (skey g)" v] in_span_meta in_keys [OF g] by blast
    then show "smeta g = m (meta_key (skey g))" by (metis option.exhaust)
    have vo: "vers_ok (svers g)" using ok [OF g] by (simp add: seg_ok_def)
    have mem: "(t, v) \<in> set (svers g) \<longleftrightarrow> m (ver_key (skey g) t) = Some v" for t v
      using view_meta_iff(2) [OF v g] iff [of "ver_key (skey g) t" v] in_span_ver in_keys [OF g] by blast
    have "(t, v) \<in> set (svers g) \<longleftrightarrow> version_at m (skey g) t = Some v" for t v
      using mem [of t v] vo by (auto simp: version_at_def vers_ok_def)
    then show "versions_of m (skey g) (svers g)" using vo by (simp add: versions_of_def)
  qed
  have "k \<in> skey ` set gs" if k: "start \<le> k" "k < end'" "m (meta_key k) \<noteq> None \<or> (\<exists>t. version_at m k t \<noteq> None)" for k
  proof -
    obtain x w where x: "m x = Some w" "x = meta_key k \<or> (\<exists>t. x = ver_key k t)"
      using k(3) by (auto simp: version_at_def split: if_splits)
    then have "(x, w) \<in> set (view_entries gs)" using iff in_span_meta in_span_ver k(1,2) by blast
    then obtain h where h: "h \<in> set gs" "(x, w) \<in> set (seg_entries h)" by (auto simp: view_entries_def)
    have "skey h = k" using seg_entries_keys(1) [OF ok [OF h(1)] h(2), of k] x(2) by auto
    then show ?thesis using h(1) by auto
  qed
  then have "k \<in> skey ` set gs \<longleftrightarrow> start \<le> k \<and> k < end' \<and> (m (meta_key k) \<noteq> None \<or> (\<exists>t. version_at m k t \<noteq> None))" for k
    using in_keys by blast
  then show ?thesis using content v by (simp add: span_segs_def view_ok_def)
qed

lemma span_iter:
  assumes "healthy E c" "clean_span (c s) start end'"
  obtains gs where "view_ok gs" "span_segs (c s) start end' gs"
    "NewIter E s (EncodeMVCCKey start zero_ts) (EncodeMVCCKey end' zero_ts) = iter_over (prefixBloom E) (view_entries gs)"
proof -
  obtain es where es: "pIter E s (meta_key start) (meta_key end') = Inr es" "sorted_wrt (<) (map fst es)"
    "\<And>x v. (x, v) \<in> set es \<longleftrightarrow> meta_key start \<le> x \<and> x < meta_key end' \<and> c s x = Some v"
    by (rule pebble_iter [OF healthy_pebble [OF assms(1)], of s "meta_key start" "meta_key end'"]) (rule that)
  have "\<forall>e \<in> set es. engine_key (fst e)"
    using es(3) assms(2) unfolding clean_span_def by (metis option.discI prod.collapse)
  from view_exists [OF es(2) this] obtain gs where gs: "view_ok gs" "es = view_entries gs" by blast
  show thesis
  proof (rule that [OF gs(1)])
    show "span_segs (c s) start end' gs" by (rule view_span_segs [OF gs(1)]) (use es(3) gs(2) in simp)
    show "NewIter E s (EncodeMVCCKey start zero_ts) (EncodeMVCCKey end' zero_ts) = iter_over (prefixBloom E) (view_entries gs)"
      using es(1) gs(2) by (simp add: NewIter_def EncodeMVCCKey_simps)
  qed
qed

lemma view_length: "view_ok gs \<Longrightarrow> length gs < length (view_entries gs) + 1"
proof (induction gs)
  case (Cons g gs)
  then have "seg_entries g \<noteq> []" by (simp add: view_ok_Cons seg_ok_def)
  then show ?case using Cons by (cases "seg_entries g") (auto simp: view_ok_Cons)
qed simp

section \<open>The range reads\<close>

lemma span_metas_ok:
  assumes "healthy E c" "store_inv E (c s)" "clean_span (c s) start end'" "span_segs (c s) start end' gs"
  shows "metas_ok E gs"
  unfolding metas_ok_def
proof (intro ballI allI impI)
  fix g raw meta
  assume g: "g \<in> set gs" and raw: "smeta g = Some raw" and dec: "decodeMeta E raw = Inr meta"
  have "start \<le> skey g" "skey g < end'" "smeta g = c s (meta_key (skey g))"
    using assms(4) g unfolding span_segs_def by blast+
  then have "key_inv E (c s) (skey g)" using assms(2,3) by (simp add: store_inv_def clean_span_def)
  then have "meta_ok E (c s) (skey g)" by (simp add: key_inv_def)
  moreover have "intent_of E (c s) (skey g) = Some meta"
    using raw dec \<open>smeta g = c s (meta_key (skey g))\<close> by (simp add: intent_of_def)
  ultimately show "ts_ok (mTimestamp meta)" using intent_of_Some(5) [OF healthy_codec [OF assms(1)]] by blast
qed

lemma MVCCScan_segs:
  assumes "view_ok gs" "metas_ok E gs" "ts_ok ts" "ts \<noteq> zero_ts"
    and it: "NewIter E s (EncodeMVCCKey start zero_ts) (EncodeMVCCKey end' zero_ts) = iter_over b (view_entries gs)"
    and lo: "\<forall>e \<in> set (view_entries gs). meta_key start \<le> fst e"
  shows "MVCCScan E s start end' ts maxRows opts = scan_keys E Key_Next ts maxRows opts [] 0 [] gs"
    "ts_ok endTS \<Longrightarrow> endTS \<noteq> zero_ts \<Longrightarrow> MVCCExport E s start end' startTS endTS n = export_keys E startTS endTS n [] [] gs"
    "ts_ok toTS \<Longrightarrow> toTS \<noteq> zero_ts \<Longrightarrow> MVCCCheckForWrites E s start end' fromTS toTS own = check_keys E fromTS toTS own gs"
proof -
  let ?it = "iter_over b (view_entries gs)"
  have "view_entries gs = [] \<or> \<not> fst (hd (view_entries gs)) < meta_key start" using lo by (cases "view_entries gs") auto
  then have s: "fst (SeekGE (meta_key start) ?it) = (view_entries gs \<noteq> [])" "iat (snd (SeekGE (meta_key start) ?it)) (view_entries []) (view_entries gs)"
    using iat_seek [of ?it "[]" "view_entries gs" "meta_key start"] by (simp_all add: iter_over_def)
  then have eq: "SeekGE (meta_key start) ?it = (view_entries gs \<noteq> [], snd (SeekGE (meta_key start) ?it))" by (simp add: prod_eq_iff)
  have v: "view_ok ([] @ gs)" and len: "length gs < length (entries ?it) + 1"
    using assms(1) view_length [OF assms(1)] by (simp_all add: iter_over_def)
  show "MVCCScan E s start end' ts maxRows opts = scan_keys E Key_Next ts maxRows opts [] 0 [] gs"
    unfolding MVCCScan_def Let_def EncodeMVCCKey_simps it [unfolded EncodeMVCCKey_simps]
    by (subst eq) (rule scan_loop_at [OF assms(3,4) v assms(2) s(2) len])
  show "MVCCExport E s start end' startTS endTS n = export_keys E startTS endTS n [] [] gs" if "ts_ok endTS" "endTS \<noteq> zero_ts"
    unfolding MVCCExport_def Let_def EncodeMVCCKey_simps it [unfolded EncodeMVCCKey_simps]
    by (subst eq) (rule export_loop_at [OF that v s(2) len])
  show "MVCCCheckForWrites E s start end' fromTS toTS own = check_keys E fromTS toTS own gs" if "ts_ok toTS" "toTS \<noteq> zero_ts"
    unfolding MVCCCheckForWrites_def Let_def EncodeMVCCKey_simps it [unfolded EncodeMVCCKey_simps]
    by (subst eq) (rule check_loop_at [OF that v s(2) len])
qed

lemma MVCCReverseScan_segs:
  assumes "view_ok gs" "metas_ok E gs" "ts_ok ts" "ts \<noteq> zero_ts"
    and it: "NewIter E s (EncodeMVCCKey start zero_ts) (EncodeMVCCKey end' zero_ts) = iter_over b (view_entries gs)"
    and hi: "\<forall>e \<in> set (view_entries gs). fst e < meta_key end'"
  shows "MVCCReverseScan E s start end' ts maxRows opts = scan_keys E id ts maxRows opts [] 0 [] (rev gs)"
proof -
  let ?it = "iter_over b (view_entries gs)"
  note s = seek_lt [of ?it "view_entries gs" "[]" "meta_key end'"]
  have ne: "view_entries gs \<noteq> [] \<longleftrightarrow> gs \<noteq> []" using assms(1) by (cases gs) (auto simp: view_ok_Cons seg_ok_def)
  then have eq: "SeekLT (meta_key end') ?it = (gs \<noteq> [], snd (SeekLT (meta_key end') ?it))"
    using s(1) hi by (simp add: prod_eq_iff iter_over_def)
  have at: "iat (snd (SeekLT (meta_key end') ?it)) (butlast (view_entries gs)) (List.last (view_entries gs) # view_entries [])"
    if "gs \<noteq> []" using s(2) hi ne that by (simp add: iter_over_def)
  have v: "view_ok (gs @ [])" and len: "length gs < length (entries ?it) + 1"
    using assms(1) view_length [OF assms(1)] by (simp_all add: iter_over_def)
  show ?thesis
    unfolding MVCCReverseScan_def Let_def EncodeMVCCKey_simps it [unfolded EncodeMVCCKey_simps]
    by (subst eq) (rule reverse_loop_at [OF assms(3,4) v assms(2) len at])
qed

lemma span_bounds:
  assumes "span_segs m start end' gs" "view_ok gs" "e \<in> set (view_entries gs)"
  shows "meta_key start \<le> fst e" "fst e < meta_key end'"
proof -
  obtain g where g: "g \<in> set gs" "e \<in> set (seg_entries g)" using assms(3) by (auto simp: view_entries_def)
  then have "seg_ok g" using assms(2) by (auto simp: view_ok_def list_all_iff)
  moreover have "start \<le> skey g" "skey g < end'" using assms(1) g(1) unfolding span_segs_def by blast+
  ultimately show "meta_key start \<le> fst e" "fst e < meta_key end'"
    using seg_entries_keys(2) [OF _ g(2)] by (auto simp: not_less [symmetric])
qed

text \<open>A point read of the key, from its row.\<close>

definition get_of_row :: "key \<Rightarrow> mvcc_error + (TxnMeta + nbytes \<times> bool) \<Rightarrow> mvcc_error + nbytes" where
  "get_of_row k row =
     (case row of Inl e \<Rightarrow> Inl e
      | Inr (Inl txn) \<Rightarrow> Inl (WriteIntentError [\<lparr>intKey = k, intTxn = txn\<rparr>])
      | Inr (Inr (v, _)) \<Rightarrow> Inr v)"

lemma row_of_value: "row_of raw = Inr (v, found) \<Longrightarrow> read_value raw = Inr v" "row_of raw = Inl e \<Longrightarrow> read_value raw = Inl e"
  by (auto simp: row_of_def read_value_def split: sum.splits if_splits)

lemma get_row_visible:
  "get_of_row k (case uncertain_at skipAt ts lim vs of Some u \<Rightarrow> Inl (UncertaintyError ts u)
     | None \<Rightarrow> map_sum id Inr (visible_row skipAt ts vs)) = visible_spec skipAt ts lim vs"
proof (cases "newest_at skipAt ts vs")
  case (Some tv)
  then show ?thesis
    by (cases tv; cases "row_of (snd tv)")
      (auto simp: get_of_row_def visible_spec_def visible_row_def row_of_value split: option.splits)
qed (auto simp: get_of_row_def visible_spec_def visible_row_def split: option.splits)

lemma get_row_own: "map_of vs readAt = Some w \<Longrightarrow> get_of_row k (map_sum id Inr (own_row readAt vs)) = own_spec k readAt vs"
  by (cases "row_of w") (auto simp: get_of_row_def own_row_def own_spec_def row_of_value)

lemma get_row_conflict: "get_of_row k (Inr (Inl txn)) = Inl (WriteIntentError [\<lparr>intKey = k, intTxn = txn\<rparr>])"
  by (simp add: get_of_row_def)

lemma vers_ok_unique: "vers_ok vs \<Longrightarrow> vers_ok ws \<Longrightarrow> set vs = set ws \<Longrightarrow> vs = ws"
proof (induction vs arbitrary: ws)
  case (Cons x vs)
  obtain t v where x: "x = (t, v)" by (cases x)
  obtain y ws' where ws: "ws = y # ws'" using Cons.prems(3) by (cases ws) auto
  obtain u w where y: "y = (u, w)" by (cases y)
  have below: "a < t" if "(a, b) \<in> set vs" for a b using Cons.prems(1) x that by (auto simp: vers_ok_Cons)
  have below': "a < u" if "(a, b) \<in> set ws'" for a b using Cons.prems(2) ws y that by (auto simp: vers_ok_Cons)
  have "(t, v) \<in> set ws" "(u, w) \<in> set (x # vs)" using Cons.prems(3) x y ws by auto
  then have "x = y" using below [of u w] below' [of t v] x y ws by auto
  moreover from this have "set vs = set ws'"
    using Cons.prems(3) below [of t v] below' [of t v] x y ws insert_ident [of x "set vs" "set ws'"] by auto
  ultimately show ?case using Cons x ws y by (simp add: vers_ok_Cons)
qed simp

lemma versions_of_unique: "versions_of m k vs \<Longrightarrow> versions_of m k ws \<Longrightarrow> vs = ws"
  by (rule vers_ok_unique) (auto simp: versions_of_def)

lemma key_row_get:
  assumes env: "healthy E c" and k: "\<not> Keys.IsLocal (skey g)" "key_inv E (c s) (skey g)"
    and g: "smeta g = c s (meta_key (skey g))" "versions_of (c s) (skey g) (svers g)"
    and ts: "ts_ok ts" "ts_ok (UncertaintyLimit opts)"
  shows "MVCCGet E s (skey g) ts opts = get_of_row (skey g) (key_row E g ts opts False)"
proof -
  let ?k = "skey g"
  have inv: "key_ok (c s) ?k" "meta_ok E (c s) ?k" using k(2) by (simp_all add: key_inv_def)
  obtain vs where vs: "versions_of (c s) ?k vs" "MVCCGet E s ?k ts opts = read_spec E (c s) ?k vs ts opts"
    by (rule MVCCGet_spec [OF env nonlocal_addressable [OF k(1)] inv ts])
  have eq: "vs = svers g" by (rule versions_of_unique [OF vs(1) g(2)])
  show ?thesis
  proof (cases "intent_of E (c s) ?k")
    case None
    then have "smeta g = None" using intent_of_None [OF healthy_codec [OF env] inv(2)] g(1) by simp
    then show ?thesis using vs(2) None eq by (simp add: read_spec_def key_row_def Let_def get_row_visible)
  next
    case (Some meta)
    note m = intent_of_Some [OF healthy_codec [OF env] inv(2) Some]
    have "version_at (c s) ?k (mTimestamp meta) \<noteq> None" using k(2) Some by (simp add: key_inv_def)
    then obtain v where "(mTimestamp meta, v) \<in> set vs" using vs(1) by (auto simp: versions_of_def)
    then obtain w where own: "map_of (svers g) (mTimestamp meta) = Some w"
      using eq by (cases "map_of (svers g) (mTimestamp meta)") (force simp: map_of_eq_None_iff)+
    have "readAt = zero_ts \<or> readAt = mTimestamp meta" if "intent_switch opts ts meta = Some (readAt, skipAt)" for readAt skipAt
      using that by (auto simp: intent_switch_def split: if_splits)
    then show ?thesis
      using vs(2) Some eq m g(1) get_row_own [OF own]
      by (cases "intent_switch opts ts meta")
        (auto simp: read_spec_def key_row_def Let_def get_row_visible get_row_conflict)
  qed
qed

section \<open>What the references return\<close>

lemma decodeMeta_total: "decodeMeta E raw \<noteq> Inl Diverges"
  by (auto simp: decodeMeta_def split: sum.splits)

lemma row_of_total: "row_of raw \<noteq> Inl Diverges"
  by (auto simp: row_of_def split: sum.splits)

lemma key_row_total: "key_row E g ts opts conflicts \<noteq> Inl Diverges"
proof -
  have m: "map_sum id Inr x = Inl Diverges \<longleftrightarrow> x = Inl Diverges" for x :: "mvcc_error + nbytes \<times> bool" by (cases x) auto
  have "rest_row ts opts conflicts readAt skipAt vs \<noteq> Inl Diverges" for readAt skipAt vs
    using row_of_total by (auto simp: rest_row_def own_row_def visible_row_def split: option.splits)
  then show ?thesis using decodeMeta_total [of E]
    by (auto simp: key_row_rest m res_bind_def split: option.splits sum.splits prod.splits)
qed

lemma scan_keys_total: "scan_keys E resume ts maxRows opts kvs nb intents gs \<noteq> Inl Diverges"
  by (induction E resume ts maxRows opts kvs nb intents gs rule: scan_keys.induct)
    (auto simp: Let_def key_row_total split: sum.splits if_splits)

lemma check_keys_total: "check_keys E fromTS toTS own gs \<noteq> Inl Diverges"
proof (induction gs)
  case (Cons g gs)
  have "check_key E fromTS toTS own g \<noteq> Inl Diverges"
    using decodeMeta_total [of E] by (auto simp: check_key_def Let_def res_bind_def split: option.splits sum.splits)
  with Cons show ?case by (cases "check_key E fromTS toTS own g") auto
qed simp

lemma export_key_total: "export_key E startTS endTS g \<noteq> Inl Diverges"
  using decodeMeta_total [of E]
  by (auto simp: export_key_def Let_def res_bind_def split: option.splits sum.splits)

lemma export_keys_total: "export_keys E startTS endTS n recs intents gs \<noteq> Inl Diverges"
  by (induction E startTS endTS n recs intents gs rule: export_keys.induct)
    (auto simp: Let_def export_key_total split: sum.splits option.splits if_splits)

text \<open>A key unchanged for a refresh.\<close>

definition unchanged :: "'s deps \<Rightarrow> contents \<Rightarrow> timestamp \<Rightarrow> timestamp \<Rightarrow> uuid \<Rightarrow> key \<Rightarrow> bool" where
  "unchanged E m fromTS toTS own k \<longleftrightarrow>
     (case intent_of E m k of None \<Rightarrow> True | Some meta \<Rightarrow> ID (mTxn meta) = own) \<and>
     (\<forall>t. fromTS < t \<longrightarrow> t \<le> toTS \<longrightarrow> map_option mTimestamp (intent_of E m k) \<noteq> Some t \<longrightarrow> version_at m k t = None)"

lemma newest_none_between:
  assumes "versions_of m k vs"
  shows "(case newest_at skipAt toTS vs of None \<Rightarrow> True | Some (u, _) \<Rightarrow> \<not> fromTS < u) \<longleftrightarrow>
    (\<forall>t. fromTS < t \<longrightarrow> t \<le> toTS \<longrightarrow> \<not> skipped skipAt t \<longrightarrow> version_at m k t = None)"
proof (cases "newest_at skipAt toTS vs")
  case None
  then show ?thesis using versions_of_newest [OF assms, of skipAt toTS] by (auto simp: is_newest_def)
next
  case (Some uv)
  obtain u v where uv: "uv = (u, v)" by (cases uv)
  have n: "u \<le> toTS" "\<not> skipped skipAt u" "version_at m k u = Some v"
    "\<And>t. u < t \<Longrightarrow> t \<le> toTS \<Longrightarrow> \<not> skipped skipAt t \<Longrightarrow> version_at m k t = None"
    using versions_of_newest [OF assms, of skipAt toTS] Some uv by (auto simp: is_newest_def)
  show ?thesis
  proof (cases "fromTS < u")
    case True
    then show ?thesis using Some uv n(1-3) by (metis (mono_tags, lifting) case_prod_conv option.distinct(1) option.simps(5))
  next
    case False
    then show ?thesis using Some uv n(4) by (auto dest: le_less_trans)
  qed
qed

lemma check_key_spec:
  assumes "healthy E c" "key_inv E (c s) (skey g)" "smeta g = c s (meta_key (skey g))" "versions_of (c s) (skey g) (svers g)"
  shows "check_key E fromTS toTS own g = Inr () \<longleftrightarrow> unchanged E (c s) fromTS toTS own (skey g)"
proof -
  have mo: "meta_ok E (c s) (skey g)" using assms(2) by (simp add: key_inv_def)
  note btw = newest_none_between [OF assms(4), where toTS = toTS and fromTS = fromTS]
  have iff: "(case newest_at skipAt toTS (svers g) of None \<Rightarrow> Inr () | Some (u, _) \<Rightarrow> if fromTS < u then Inl (RefreshFailed (skey g) u) else Inr ()) = Inr () \<longleftrightarrow>
      (case newest_at skipAt toTS (svers g) of None \<Rightarrow> True | Some (u, _) \<Rightarrow> \<not> fromTS < u)" for skipAt
    by (auto split: option.splits)
  show ?thesis
  proof (cases "intent_of E (c s) (skey g)")
    case None
    then have "smeta g = None" using intent_of_None [OF healthy_codec [OF assms(1)] mo] assms(3) by simp
    then show ?thesis using None iff btw [of zero_ts] by (simp add: check_key_def Let_def unchanged_def skipped_def)
  next
    case (Some meta)
    note m = intent_of_Some [OF healthy_codec [OF assms(1)] mo Some]
    have sk: "skipped (mTimestamp meta) t \<longleftrightarrow> mTimestamp meta = t" for t using m(6) by (auto simp: skipped_def)
    then show ?thesis using Some m iff btw [of "mTimestamp meta"] assms(3)
      by (simp add: check_key_def Let_def unchanged_def)
  qed
qed

lemma check_keys_Inr: "check_keys E fromTS toTS own gs = Inr () \<longleftrightarrow> (\<forall>g \<in> set gs. check_key E fromTS toTS own g = Inr ())"
proof (induction gs)
  case (Cons g gs)
  then show ?case by (cases "check_key E fromTS toTS own g") auto
qed simp

lemma check_keys_spec:
  assumes "healthy E c" "store_inv E (c s)" "clean_span (c s) start end'" "span_segs (c s) start end' gs"
  shows "check_keys E fromTS toTS own gs = Inr () \<longleftrightarrow> (\<forall>k. start \<le> k \<longrightarrow> k < end' \<longrightarrow> unchanged E (c s) fromTS toTS own k)"
proof -
  have inv: "key_inv E (c s) k" if "start \<le> k" "k < end'" for k
    using assms(2,3) that by (simp add: store_inv_def clean_span_def)
  have seg: "check_key E fromTS toTS own g = Inr () \<longleftrightarrow> unchanged E (c s) fromTS toTS own (skey g)" if g: "g \<in> set gs" for g
  proof (rule check_key_spec [OF assms(1)])
    have "start \<le> skey g" "skey g < end'" using assms(4) g unfolding span_segs_def by blast+
    then show "key_inv E (c s) (skey g)" by (rule inv)
    show "smeta g = c s (meta_key (skey g))" "versions_of (c s) (skey g) (svers g)"
      using assms(4) g unfolding span_segs_def by blast+
  qed
  have rest: "unchanged E (c s) fromTS toTS own k" if k: "start \<le> k" "k < end'" "k \<notin> skey ` set gs" for k
  proof -
    have "c s (meta_key k) = None" "version_at (c s) k t = None" for t using assms(4) k unfolding span_segs_def by blast+
    then show ?thesis by (simp add: unchanged_def intent_of_def)
  qed
  have "k \<in> skey ` set gs \<Longrightarrow> start \<le> k \<and> k < end'" for k using assms(4) unfolding span_segs_def by blast
  then show ?thesis unfolding check_keys_Inr using seg rest by blast
qed

text \<open>
  C35: a scan computes what reading the keys one by one computes. For a span of the store with
  the ordered keys \<open>gs\<close> that have an intent or a version, the forward scan and the reverse scan,
  which walk one iterator with bounded steps and seeks, return exactly the rows, the page limits,
  the resume key and the errors of the key-by-key reference \<open>scan_keys\<close>, in ascending and in
  descending order, and the row of each key is what \<open>MVCCGet\<close> returns for it.
\<close>

theorem scan_equiv_get:
  assumes "healthy E c" "store_inv E (c s)" "clean_span (c s) start end'"
    and "ts_ok ts" "ts \<noteq> zero_ts" "ts_ok (UncertaintyLimit opts)"
  shows "\<exists>gs. span_segs (c s) start end' gs \<and>
    MVCCScan E s start end' ts maxRows opts = scan_keys E Key_Next ts maxRows opts [] 0 [] gs \<and>
    MVCCReverseScan E s start end' ts maxRows opts = scan_keys E id ts maxRows opts [] 0 [] (rev gs) \<and>
    list_all (\<lambda>g. MVCCGet E s (skey g) ts opts = get_of_row (skey g) (key_row E g ts opts False)) gs"
proof -
  obtain gs where gs: "view_ok gs" "span_segs (c s) start end' gs"
    "NewIter E s (EncodeMVCCKey start zero_ts) (EncodeMVCCKey end' zero_ts) = iter_over (prefixBloom E) (view_entries gs)"
    by (rule span_iter [OF assms(1,3)])
  note b = span_bounds [OF gs(2,1)]
  note m = span_metas_ok [OF assms(1-3) gs(2)]
  have "MVCCGet E s (skey g) ts opts = get_of_row (skey g) (key_row E g ts opts False)" if g: "g \<in> set gs" for g
  proof (rule key_row_get [OF assms(1)])
    have k: "start \<le> skey g" "skey g < end'" using gs(2) g unfolding span_segs_def by blast+
    then show "\<not> Keys.IsLocal (skey g)" using assms(3) by (simp add: clean_span_def)
    then show "key_inv E (c s) (skey g)" by (rule store_inv_key [OF assms(2)])
    show "smeta g = c s (meta_key (skey g))" "versions_of (c s) (skey g) (svers g)"
      using gs(2) g unfolding span_segs_def by blast+
  qed (rule assms)+
  then show ?thesis
    using gs(2) MVCCScan_segs(1) [OF gs(1) m assms(4,5) gs(3)] MVCCReverseScan_segs [OF gs(1) m assms(4,5) gs(3)] b
    by (intro exI [of _ gs]) (auto simp: list_all_iff)
qed



section \<open>A span with one key\<close>

lemma demo_span_local: "[5] \<le> k \<Longrightarrow> k < [9] \<Longrightarrow> \<not> Keys.IsLocal (k :: key)"
  by (cases k) (auto simp: Keys.IsLocal_def word_less_nat_alt)

lemma demo_clean: "clean_span (map_of demo_store) [5] [9]"
proof -
  have "engine_key (ver_key [7] (Timestamp 5 0))"
    unfolding engine_key_def using demo_ts(1) by (intro exI [of _ "[7]"]) (auto simp: ts_proper_def)
  then show ?thesis by (auto simp: clean_span_def demo_store_def demo_span_local split: if_splits)
qed

definition demo_seg :: seg where
  "demo_seg = \<lparr>skey = [7], smeta = None, svers = [(Timestamp 5 0, encodeMVCCValue (Some [1]) False)]\<rparr>"

lemma demo_segs:
  assumes "span_segs (map_of demo_store) [5] [9] gs"
  shows "gs = [demo_seg]"
proof -
  have 1: "sorted_wrt (<) (map skey gs)" and
    2: "\<And>k. k \<in> skey ` set gs \<longleftrightarrow> [5] \<le> k \<and> k < [9] \<and> (map_of demo_store (meta_key k) \<noteq> None \<or> (\<exists>t. version_at (map_of demo_store) k t \<noteq> None))"
    and 3: "\<And>g. g \<in> set gs \<Longrightarrow> smeta g = map_of demo_store (meta_key (skey g)) \<and> versions_of (map_of demo_store) (skey g) (svers g)"
    using assms unfolding span_segs_def by blast+
  have key: "skey g = [7]" if "g \<in> set gs" for g
    using 2 [of "skey g"] that by (auto simp: demo_store_def version_at_def split: if_splits)
  have "[7] \<in> skey ` set gs" using 2 [of "[7]"] demo_read(1) by (auto simp: word_less_nat_alt)
  then obtain g where g: "g \<in> set gs" by auto
  have "smeta g = None" "versions_of (map_of demo_store) [7] (svers g)" using 3 [OF g] key [OF g] by (auto simp: demo_store_def)
  moreover have "versions_of (map_of demo_store) [7] [(Timestamp 5 0, encodeMVCCValue (Some [1]) False)]"
    using demo_ts(1) by (auto simp: versions_of_def vers_ok_def demo_read ts_proper_def split: if_splits)
  ultimately have "g = demo_seg" using key [OF g] versions_of_unique by (cases g) (auto simp: demo_seg_def)
  moreover have "gs = [g]"
  proof (cases gs)
    case (Cons x xs)
    have "xs = []"
    proof (rule ccontr)
      assume "xs \<noteq> []"
      then have "skey x < skey (hd xs)" "hd xs \<in> set gs" using 1 Cons by auto
      then show False using key [of x] key [of "hd xs"] Cons by simp
    qed
    then show ?thesis using g Cons by simp
  qed (use g in simp)
  ultimately show ?thesis by simp
qed

theorem scan_equiv_get_witness:
  "MVCCScan (mem_deps True) demo_store [5] [9] (Timestamp 6 0) 1 (demo_opts None) =
     Inr \<lparr>KVs = [\<lparr>kvKey = [7], kvValue = Some [1]\<rparr>], Resume = Some [7, 0]\<rparr> \<and>
   MVCCReverseScan (mem_deps True) demo_store [5] [9] (Timestamp 6 0) 0 (demo_opts None) =
     Inr \<lparr>KVs = [\<lparr>kvKey = [7], kvValue = Some [1]\<rparr>], Resume = None\<rparr>"
proof -
  have ts: "Timestamp 6 0 \<noteq> zero_ts" "Timestamp 5 0 \<le> Timestamp 6 0" by (simp_all add: zero_ts_def not_less [symmetric] ts_less_sint)
  have row: "key_row (mem_deps True) demo_seg (Timestamp 6 0) (demo_opts None) False = Inr (Inr (Some [1], True))"
    using ts by (simp add: key_row_def demo_seg_def uncertain_at_def visible_row_def newest_at_def skipped_def row_of_def
      encodeMVCCValue_def decodeMVCCValue_def clone_nil_def)
  have lim: "ts_ok (UncertaintyLimit (demo_opts None))" by simp
  have "MVCCScan (mem_deps True) demo_store [5] [9] (Timestamp 6 0) 1 (demo_opts None) =
      scan_keys (mem_deps True) Key_Next (Timestamp 6 0) 1 (demo_opts None) [] 0 [] [demo_seg]"
    using scan_equiv_get [OF mem_healthy demo_inv demo_clean demo_ts(5) ts(1) lim, of True 1] demo_segs by blast
  moreover have "MVCCReverseScan (mem_deps True) demo_store [5] [9] (Timestamp 6 0) 0 (demo_opts None) =
      scan_keys (mem_deps True) id (Timestamp 6 0) 0 (demo_opts None) [] 0 [] (rev [demo_seg])"
    using scan_equiv_get [OF mem_healthy demo_inv demo_clean demo_ts(5) ts(1) lim, of True 0] demo_segs by blast
  ultimately show ?thesis
    using row by (simp add: page_full_def demo_opts_def demo_seg_def Key_Next_def)
qed



end
