(* ===== verification/Latch.thy ===== *)
theory Latch
  imports Keys
begin

text \<open>
  Span latches (\<^verbatim>\<open>src/pkg/kvserver/latch.go\<close>): the manager of held latches with its index of
  point spans and its set of ranged holders. A latch pointer is a latch with an identity
  \<open>lid\<close>; Go's maps keyed by pointers are lists whose order stands for the iteration order,
  on which no theorem depends. One turn of the loop of \<^verbatim>\<open>Acquire\<close> is \<open>try_acquire\<close>; blocking on a
  holder's channel is its result \<open>Some holder\<close>.
\<close>

section \<open>Spans and latches\<close>

datatype latchMode = latchShared | latchExclusive

record latchSpan =
  Start :: key
  End :: "key option"

definition overlaps :: "latchSpan \<Rightarrow> latchSpan \<Rightarrow> bool" where
  "overlaps s t =
     (case (End s, End t) of
        (None, None) \<Rightarrow> Key_Equal (Start s) (Start t)
      | (None, Some e) \<Rightarrow> Key_Compare (Start t) (Start s) \<le> 0 \<and> Key_Compare (Start s) e < 0
      | (Some e, None) \<Rightarrow> Key_Compare (Start s) (Start t) \<le> 0 \<and> Key_Compare (Start t) e < 0
      | (Some d, Some e) \<Rightarrow> Key_Compare (Start s) e < 0 \<and> Key_Compare (Start t) d < 0)"

record latch =
  lid :: nat
  spans :: "latchSpan list"
  mode :: latchMode
  ranged :: bool

record latchManager =
  held :: "latch list"
  points :: "key \<rightharpoonup> latch list"
  rangedHeld :: "latch list"

definition newLatchManager :: latchManager where
  "newLatchManager = \<lparr>held = [], points = Map.empty, rangedHeld = []\<rparr>"

definition wholeRangeSpan :: latchSpan where
  "wholeRangeSpan = \<lparr>Start = MinKey, End = Some MaxKey\<rparr>"

section \<open>Operations\<close>

definition conflicts :: "latch \<Rightarrow> latch \<Rightarrow> bool" where
  "conflicts l h \<longleftrightarrow> mode l = latchExclusive \<or> mode h = latchExclusive"

definition point_holders :: "latchManager \<Rightarrow> key \<Rightarrow> latch list" where
  "point_holders m k = (case points m k of None \<Rightarrow> [] | Some hs \<Rightarrow> hs)"

definition insert_span :: "latch \<Rightarrow> latchSpan \<Rightarrow> latchManager \<Rightarrow> latchManager" where
  "insert_span l sp m =
     (if End sp = None then m\<lparr>points := (points m)(Start sp \<mapsto> point_holders m (Start sp) @ [l])\<rparr> else m)"

definition latch_insert :: "latch \<Rightarrow> latchManager \<Rightarrow> latchManager" where
  "latch_insert l m =
     fold (insert_span l) (spans l)
       (m\<lparr>held := l # held m, rangedHeld := (if ranged l then l # rangedHeld m else rangedHeld m)\<rparr>)"

definition remove_span :: "latch \<Rightarrow> latchSpan \<Rightarrow> latchManager \<Rightarrow> latchManager" where
  "remove_span l sp m =
     (if End sp \<noteq> None then m
      else let n = filter (\<lambda>h. lid h \<noteq> lid l) (point_holders m (Start sp))
           in if n = [] then m\<lparr>points := (points m)(Start sp := None)\<rparr>
              else m\<lparr>points := (points m)(Start sp \<mapsto> n)\<rparr>)"

definition latch_remove :: "latch \<Rightarrow> latchManager \<Rightarrow> latchManager" where
  "latch_remove l m =
     fold (remove_span l) (spans l)
       (m\<lparr>held := filter (\<lambda>h. lid h \<noteq> lid l) (held m),
          rangedHeld := filter (\<lambda>h. lid h \<noteq> lid l) (rangedHeld m)\<rparr>)"

definition find_ranged_conflict :: "latchManager \<Rightarrow> latch \<Rightarrow> latchSpan \<Rightarrow> latch option" where
  "find_ranged_conflict m l ls =
     find (\<lambda>h. conflicts l h \<and> (\<exists>hs \<in> set (spans h). overlaps hs ls)) (held m)"

definition find_point_conflict :: "latchManager \<Rightarrow> latch \<Rightarrow> latchSpan \<Rightarrow> latch option" where
  "find_point_conflict m l ls =
     (case find (conflicts l) (point_holders m (Start ls)) of
        Some h \<Rightarrow> Some h
      | None \<Rightarrow>
          find (\<lambda>h. conflicts l h \<and> (\<exists>hs \<in> set (spans h). End hs \<noteq> None \<and> overlaps hs ls)) (rangedHeld m))"

fun find_conflict_spans :: "latchManager \<Rightarrow> latch \<Rightarrow> latchSpan list \<Rightarrow> latch option" where
  "find_conflict_spans m l [] = None"
| "find_conflict_spans m l (ls # rest) =
     (case (if End ls \<noteq> None then find_ranged_conflict m l ls else find_point_conflict m l ls) of
        Some h \<Rightarrow> Some h
      | None \<Rightarrow> find_conflict_spans m l rest)"

definition findConflict :: "latchManager \<Rightarrow> latch \<Rightarrow> latch option" where
  "findConflict m l = find_conflict_spans m l (spans l)"

definition new_latch :: "nat \<Rightarrow> latchSpan list \<Rightarrow> latchMode \<Rightarrow> latch" where
  "new_latch i sps md = \<lparr>lid = i, spans = sps, mode = md, ranged = (\<exists>sp \<in> set sps. End sp \<noteq> None)\<rparr>"

text \<open>One turn of the loop of \<^verbatim>\<open>Acquire\<close>: the latch is held, or the holder to wait for.\<close>

definition try_acquire :: "latch \<Rightarrow> latchManager \<Rightarrow> latch option \<times> latchManager" where
  "try_acquire l m =
     (case findConflict m l of None \<Rightarrow> (None, latch_insert l m) | Some h \<Rightarrow> (Some h, m))"

text \<open>
  The loop of \<^verbatim>\<open>Acquire\<close> when each latch waited for is released in turn: the context is not
  cancelled and no new latch is acquired meanwhile. The fuel bounds the number of turns.
\<close>

primrec acquire_loop :: "nat \<Rightarrow> latch \<Rightarrow> latchManager \<Rightarrow> latchManager option" where
  "acquire_loop 0 l m = None"
| "acquire_loop (Suc n) l m =
     (case try_acquire l m of (None, m') \<Rightarrow> Some m'
      | (Some h, m') \<Rightarrow> acquire_loop n l (latch_remove h m'))"

record latchGuard =
  gl :: latch
  once :: bool

definition Release :: "latchGuard \<Rightarrow> latchManager \<Rightarrow> latchGuard \<times> latchManager" where
  "Release g m = (if once g then (g, m) else (g\<lparr>once := True\<rparr>, latch_remove (gl g) m))"

text \<open>
  The manager's life: latches with fresh identities are acquired when no conflict is found,
  and held latches are released, in any order.
\<close>

inductive latch_reach :: "latchManager \<Rightarrow> bool" where
  start: "latch_reach newLatchManager"
| acquire: "latch_reach m \<Longrightarrow> i \<notin> lid ` set (held m) \<Longrightarrow> try_acquire (new_latch i sps md) m = (None, m') \<Longrightarrow>
    latch_reach m'"
| release: "latch_reach m \<Longrightarrow> l \<in> set (held m) \<Longrightarrow> latch_reach (latch_remove l m)"

section \<open>Specifications\<close>

text \<open>The keys of a span, and the conflict as a scan of every holder.\<close>

definition span_keys :: "latchSpan \<Rightarrow> key set" where
  "span_keys s = (case End s of None \<Rightarrow> {Start s} | Some e \<Rightarrow> {k. Start s \<le> k \<and> k < e})"

definition span_proper :: "latchSpan \<Rightarrow> bool" where
  "span_proper s \<longleftrightarrow> (case End s of None \<Rightarrow> True | Some e \<Rightarrow> Start s < e)"

definition latch_overlap :: "latch \<Rightarrow> latch \<Rightarrow> bool" where
  "latch_overlap l h \<longleftrightarrow> (\<exists>ls \<in> set (spans l). \<exists>hs \<in> set (spans h). overlaps hs ls)"

definition scan_holders :: "latchManager \<Rightarrow> latch \<Rightarrow> latch list" where
  "scan_holders m l = filter (\<lambda>h. conflicts l h \<and> latch_overlap l h) (held m)"

text \<open>The indexes agree with the held latches.\<close>

definition index_ok :: "latchManager \<Rightarrow> bool" where
  "index_ok m \<longleftrightarrow>
     distinct (map lid (held m)) \<and>
     (\<forall>h \<in> set (held m). ranged h \<longleftrightarrow> (\<exists>sp \<in> set (spans h). End sp \<noteq> None)) \<and>
     set (rangedHeld m) = {h \<in> set (held m). ranged h} \<and>
     (\<forall>k. set (point_holders m k) = {h \<in> set (held m). \<exists>sp \<in> set (spans h). End sp = None \<and> Start sp = k})"

definition latches_ok :: "latchManager \<Rightarrow> bool" where
  "latches_ok m \<longleftrightarrow> index_ok m \<and>
     (\<forall>g \<in> set (held m). \<forall>h \<in> set (held m). lid g \<noteq> lid h \<longrightarrow> latch_overlap g h \<longrightarrow> \<not> conflicts g h)"

section \<open>Overlap\<close>

lemma Key_Compare_simps [simp]:
  "Key_Compare a b < 0 \<longleftrightarrow> a < b" "Key_Compare a b \<le> 0 \<longleftrightarrow> a \<le> b"
  by (auto simp: Key_Compare_def)

lemma overlaps_cases:
  "overlaps s t \<longleftrightarrow>
     (case (End s, End t) of
        (None, None) \<Rightarrow> Start s = Start t
      | (None, Some e) \<Rightarrow> Start t \<le> Start s \<and> Start s < e
      | (Some e, None) \<Rightarrow> Start s \<le> Start t \<and> Start t < e
      | (Some d, Some e) \<Rightarrow> Start s < e \<and> Start t < d)"
  by (auto simp: overlaps_def Key_Equal_def split: option.splits)

lemma overlaps_sym: "overlaps s t = overlaps t s"
  by (auto simp: overlaps_cases split: option.splits)

lemma latch_overlap_sym: "latch_overlap l h = latch_overlap h l"
  unfolding latch_overlap_def using overlaps_sym by blast

lemma conflicts_sym: "conflicts l h = conflicts h l"
  by (auto simp: conflicts_def)

lemma overlaps_iff_keys:
  assumes "span_proper s" "span_proper t"
  shows "overlaps s t \<longleftrightarrow> span_keys s \<inter> span_keys t \<noteq> {}"
proof (cases "End s"; cases "End t")
  fix d e assume e: "End s = Some d" "End t = Some e"
  have "max (Start s) (Start t) \<in> span_keys s \<inter> span_keys t" if "overlaps s t"
    using that e assms by (auto simp: overlaps_cases span_keys_def span_proper_def max_def)
  moreover have "overlaps s t" if "k \<in> span_keys s \<inter> span_keys t" for k
    using that e by (auto simp: overlaps_cases span_keys_def)
  ultimately show ?thesis by blast
qed (auto simp: overlaps_cases span_keys_def)

section \<open>The index invariant\<close>

lemma insert_span_simps [simp]:
  "held (insert_span l sp m) = held m" "rangedHeld (insert_span l sp m) = rangedHeld m"
  by (simp_all add: insert_span_def)

lemma insert_spans_simps [simp]:
  "held (fold (insert_span l) sps m) = held m" "rangedHeld (fold (insert_span l) sps m) = rangedHeld m"
  by (induction sps arbitrary: m) simp_all

lemma insert_spans_points:
  "set (point_holders (fold (insert_span l) sps m) k) =
     set (point_holders m k) \<union> (if \<exists>sp \<in> set sps. End sp = None \<and> Start sp = k then {l} else {})"
proof (induction sps arbitrary: m)
  case (Cons sp sps)
  have "set (point_holders (insert_span l sp m) k) =
      set (point_holders m k) \<union> (if End sp = None \<and> Start sp = k then {l} else {})"
    by (auto simp: insert_span_def point_holders_def)
  with Cons.IH [of "insert_span l sp m"] show ?case by auto
qed simp

lemma remove_span_simps [simp]:
  "held (remove_span l sp m) = held m" "rangedHeld (remove_span l sp m) = rangedHeld m"
  by (simp_all add: remove_span_def Let_def)

lemma remove_spans_simps [simp]:
  "held (fold (remove_span l) sps m) = held m" "rangedHeld (fold (remove_span l) sps m) = rangedHeld m"
  by (induction sps arbitrary: m) simp_all

lemma remove_spans_points:
  "set (point_holders (fold (remove_span l) sps m) k) =
     (if \<exists>sp \<in> set sps. End sp = None \<and> Start sp = k then {h \<in> set (point_holders m k). lid h \<noteq> lid l}
      else set (point_holders m k))"
proof (induction sps arbitrary: m)
  case (Cons sp sps)
  have "set (point_holders (remove_span l sp m) k) =
      (if End sp = None \<and> Start sp = k then {h \<in> set (point_holders m k). lid h \<noteq> lid l}
       else set (point_holders m k))"
    by (auto simp: remove_span_def point_holders_def Let_def filter_empty_conv)
  with Cons.IH [of "remove_span l sp m"] show ?case by auto
qed simp

lemma latch_insert_held [simp]: "held (latch_insert l m) = l # held m"
  by (simp add: latch_insert_def)

lemma latch_remove_held [simp]: "held (latch_remove l m) = filter (\<lambda>h. lid h \<noteq> lid l) (held m)"
  by (simp add: latch_remove_def)

lemma point_holders_update [simp]:
  "point_holders (m\<lparr>held := hs, rangedHeld := rs\<rparr>) k = point_holders m k"
  by (simp add: point_holders_def)

lemma latch_insert_points:
  "set (point_holders (latch_insert l m) k) =
     set (point_holders m k) \<union> (if \<exists>sp \<in> set (spans l). End sp = None \<and> Start sp = k then {l} else {})"
  unfolding latch_insert_def insert_spans_points point_holders_update ..

lemma latch_remove_points:
  "set (point_holders (latch_remove l m) k) =
     (if \<exists>sp \<in> set (spans l). End sp = None \<and> Start sp = k then {h \<in> set (point_holders m k). lid h \<noteq> lid l}
      else set (point_holders m k))"
  unfolding latch_remove_def remove_spans_points point_holders_update ..

lemma index_ok_insert:
  assumes "index_ok m" "lid l \<notin> lid ` set (held m)" "ranged l \<longleftrightarrow> (\<exists>sp \<in> set (spans l). End sp \<noteq> None)"
  shows "index_ok (latch_insert l m)"
proof -
  have "set (rangedHeld (latch_insert l m)) = {h \<in> set (held (latch_insert l m)). ranged h}"
    using assms(1) by (auto simp: latch_insert_def index_ok_def)
  then show ?thesis
    using assms unfolding index_ok_def latch_insert_points by auto
qed

lemma lid_eq: "index_ok m \<Longrightarrow> g \<in> set (held m) \<Longrightarrow> h \<in> set (held m) \<Longrightarrow> lid g = lid h \<Longrightarrow> g = h"
  by (auto simp: index_ok_def distinct_map dest: inj_onD)

lemma index_ok_remove:
  assumes "index_ok m" "l \<in> set (held m)"
  shows "index_ok (latch_remove l m)"
proof -
  have "set (rangedHeld (latch_remove l m)) = {h \<in> set (held (latch_remove l m)). ranged h}"
    using assms(1) by (auto simp: latch_remove_def index_ok_def)
  moreover have "set (point_holders (latch_remove l m) k) =
      {h \<in> set (held (latch_remove l m)). \<exists>sp \<in> set (spans h). End sp = None \<and> Start sp = k}" for k
  proof -
    have pts: "set (point_holders m k) = {h \<in> set (held m). \<exists>sp \<in> set (spans h). End sp = None \<and> Start sp = k}"
      using assms(1) unfolding index_ok_def by blast
    have "lid h \<noteq> lid l" if "h \<in> set (held m)" "\<exists>sp \<in> set (spans h). End sp = None \<and> Start sp = k"
      "\<not> (\<exists>sp \<in> set (spans l). End sp = None \<and> Start sp = k)" for h
      using lid_eq [OF assms(1) that(1) assms(2)] that(2,3) by blast
    then show ?thesis unfolding latch_remove_points pts by auto
  qed
  moreover have "distinct (map lid (filter (\<lambda>h. lid h \<noteq> lid l) (held m)))"
    using assms(1) by (simp add: index_ok_def distinct_map_filter)
  ultimately show ?thesis
    using assms(1) by (simp add: index_ok_def)
qed

section \<open>Conflict detection\<close>

lemma find_eq_None: "find P xs = None \<longleftrightarrow> (\<forall>x \<in> set xs. \<not> P x)"
  by (induction xs) auto

lemma find_eq_Some: "find P xs = Some x \<Longrightarrow> x \<in> set xs \<and> P x"
  by (induction xs) (auto split: if_splits)

lemma find_point_conflict_None:
  assumes "index_ok m" "End ls = None"
  shows "find_point_conflict m l ls = None \<longleftrightarrow>
    \<not> (\<exists>h \<in> set (held m). conflicts l h \<and> (\<exists>hs \<in> set (spans h). overlaps hs ls))"
proof -
  have pts: "set (point_holders m (Start ls)) =
      {h \<in> set (held m). \<exists>sp \<in> set (spans h). End sp = None \<and> overlaps sp ls}"
    using assms by (auto simp: index_ok_def overlaps_cases)
  have rng: "set (rangedHeld m) = {h \<in> set (held m). \<exists>sp \<in> set (spans h). End sp \<noteq> None}"
    using assms(1) by (auto simp: index_ok_def)
  have "find_point_conflict m l ls = None \<longleftrightarrow>
      (\<forall>h \<in> set (point_holders m (Start ls)). \<not> conflicts l h) \<and>
      (\<forall>h \<in> set (rangedHeld m). \<not> (conflicts l h \<and> (\<exists>hs \<in> set (spans h). End hs \<noteq> None \<and> overlaps hs ls)))"
  proof (cases "find (conflicts l) (point_holders m (Start ls))")
    case None
    show ?thesis
      unfolding find_point_conflict_def None option.case find_eq_None
      using None [unfolded find_eq_None] by blast
  next
    case (Some h)
    then show ?thesis using find_eq_Some [OF Some] by (auto simp: find_point_conflict_def)
  qed
  then show ?thesis unfolding pts rng by blast
qed

lemma find_point_conflict_Some:
  assumes "index_ok m" "End ls = None" "find_point_conflict m l ls = Some h"
  shows "h \<in> set (held m)" "conflicts l h" "\<exists>hs \<in> set (spans h). overlaps hs ls"
proof -
  have pts: "set (point_holders m (Start ls)) =
      {h \<in> set (held m). \<exists>sp \<in> set (spans h). End sp = None \<and> overlaps sp ls}"
    using assms(1,2) by (auto simp: index_ok_def overlaps_cases)
  have rng: "set (rangedHeld m) \<subseteq> set (held m)" using assms(1) by (auto simp: index_ok_def)
  have "h \<in> set (held m) \<and> conflicts l h \<and> (\<exists>hs \<in> set (spans h). overlaps hs ls)"
  proof (cases "find (conflicts l) (point_holders m (Start ls))")
    case None
    then have "find (\<lambda>h. conflicts l h \<and> (\<exists>hs \<in> set (spans h). End hs \<noteq> None \<and> overlaps hs ls)) (rangedHeld m) = Some h"
      using assms(3) by (simp add: find_point_conflict_def)
    from find_eq_Some [OF this] rng show ?thesis by blast
  next
    case (Some g)
    with assms(3) have "g = h" by (simp add: find_point_conflict_def)
    with find_eq_Some [OF Some] pts show ?thesis by blast
  qed
  then show "h \<in> set (held m)" "conflicts l h" "\<exists>hs \<in> set (spans h). overlaps hs ls" by blast+
qed

lemma find_conflict_spans_None:
  "index_ok m \<Longrightarrow> find_conflict_spans m l sps = None \<longleftrightarrow>
    \<not> (\<exists>h \<in> set (held m). conflicts l h \<and> (\<exists>ls \<in> set sps. \<exists>hs \<in> set (spans h). overlaps hs ls))"
proof (induction sps)
  case (Cons ls sps)
  have "(if End ls \<noteq> None then find_ranged_conflict m l ls else find_point_conflict m l ls) = None \<longleftrightarrow>
      \<not> (\<exists>h \<in> set (held m). conflicts l h \<and> (\<exists>hs \<in> set (spans h). overlaps hs ls))"
    using find_point_conflict_None [OF Cons.prems] by (auto simp: find_ranged_conflict_def find_eq_None)
  with Cons show ?case by (auto split: option.splits)
qed simp

lemma find_conflict_spans_Some:
  assumes "index_ok m" "find_conflict_spans m l sps = Some h"
  shows "h \<in> set (held m) \<and> conflicts l h \<and> (\<exists>ls \<in> set sps. \<exists>hs \<in> set (spans h). overlaps hs ls)"
  using assms(2)
proof (induction sps)
  case (Cons ls sps)
  then show ?case
    using find_point_conflict_Some [OF assms(1), of ls l h]
    by (auto simp: find_ranged_conflict_def split: option.splits if_splits dest!: find_eq_Some)
qed simp

lemma findConflict_None: "index_ok m \<Longrightarrow> findConflict m l = None \<longleftrightarrow> scan_holders m l = []"
  using find_conflict_spans_None [of m l "spans l"]
  by (auto simp: findConflict_def scan_holders_def latch_overlap_def filter_empty_conv)

lemma findConflict_Some: "index_ok m \<Longrightarrow> findConflict m l = Some h \<Longrightarrow> h \<in> set (scan_holders m l)"
  using find_conflict_spans_Some [of m l "spans l" h]
  by (auto simp: findConflict_def scan_holders_def latch_overlap_def)

lemma latches_ok_insert:
  assumes "latches_ok m" "lid l \<notin> lid ` set (held m)" "ranged l \<longleftrightarrow> (\<exists>sp \<in> set (spans l). End sp \<noteq> None)"
    and "findConflict m l = None"
  shows "latches_ok (latch_insert l m)"
proof -
  have ix: "index_ok m" using assms(1) by (simp add: latches_ok_def)
  have "\<not> (conflicts l h \<and> latch_overlap l h)" if "h \<in> set (held m)" for h
    using findConflict_None [OF ix, of l] assms(4) that by (auto simp: scan_holders_def filter_empty_conv)
  then have no: "\<not> conflicts l h \<or> \<not> latch_overlap l h" if "h \<in> set (held m)" for h
    using that by blast
  show ?thesis
    unfolding latches_ok_def
  proof (intro conjI ballI impI)
    show "index_ok (latch_insert l m)" by (rule index_ok_insert [OF ix assms(2,3)])
    fix g h assume "g \<in> set (held (latch_insert l m))" "h \<in> set (held (latch_insert l m))" "lid g \<noteq> lid h" "latch_overlap g h"
    then show "\<not> conflicts g h"
      using no assms(1) latch_overlap_sym conflicts_sym by (auto simp: latches_ok_def)
  qed
qed

lemma latches_ok_remove: "latches_ok m \<Longrightarrow> l \<in> set (held m) \<Longrightarrow> latches_ok (latch_remove l m)"
  by (simp add: latches_ok_def index_ok_remove)

lemma new_latch_ranged: "ranged (new_latch i sps md) \<longleftrightarrow> (\<exists>sp \<in> set (spans (new_latch i sps md)). End sp \<noteq> None)"
  by (simp add: new_latch_def)

lemma latch_reach_ok: "latch_reach m \<Longrightarrow> latches_ok m"
proof (induction rule: latch_reach.induct)
  case start
  show ?case by (simp add: latches_ok_def index_ok_def newLatchManager_def point_holders_def)
next
  case (acquire m i sps md m')
  then have "findConflict m (new_latch i sps md) = None" "m' = latch_insert (new_latch i sps md) m"
    by (auto simp: try_acquire_def split: option.splits)
  then show ?case
    using latches_ok_insert [OF acquire.IH _ new_latch_ranged] acquire.hyps(2) by (simp add: new_latch_def)
next
  case (release m l)
  then show ?case by (simp add: latches_ok_remove)
qed

section \<open>Properties\<close>

text \<open>
  C21: the indexed conflict check is equivalent to a scan of every holder: in every reachable
  state it reports no conflict exactly when no held latch has an overlapping span with one of
  the two writing, and what it reports is such a holder.
\<close>

theorem findConflict_equiv:
  assumes "latch_reach m"
  shows "case findConflict m l of None \<Rightarrow> scan_holders m l = [] | Some h \<Rightarrow> h \<in> set (scan_holders m l)"
proof -
  have "index_ok m" using latch_reach_ok [OF assms] by (simp add: latches_ok_def)
  then show ?thesis by (auto simp: findConflict_None findConflict_Some split: option.splits)
qed

text \<open>
  C22: mutual exclusion (invariant L1): in every reachable state two different held latches
  that share a key of proper spans are both shared, never exclusive.
\<close>

theorem latch_mutual_exclusion:
  assumes "latch_reach m" "g \<in> set (held m)" "h \<in> set (held m)" "lid g \<noteq> lid h"
    and "gs \<in> set (spans g)" "hs \<in> set (spans h)" "span_proper gs" "span_proper hs"
    and "k \<in> span_keys gs" "k \<in> span_keys hs"
  shows "mode g = latchShared \<and> mode h = latchShared"
proof -
  have "overlaps hs gs" using overlaps_iff_keys [OF assms(8,7)] assms(9,10) by blast
  then have "latch_overlap g h" using assms(5,6) by (auto simp: latch_overlap_def)
  then have "\<not> conflicts g h" using latch_reach_ok [OF assms(1)] assms(2-4) by (auto simp: latches_ok_def)
  then show ?thesis by (cases "mode g"; cases "mode h") (simp_all add: conflicts_def)
qed

lemma acquire_loop_succeeds:
  assumes "index_ok m" "length (scan_holders m l) < n"
  shows "\<exists>m'. acquire_loop n l m = Some m' \<and> l \<in> set (held m')"
  using assms
proof (induction n arbitrary: m)
  case (Suc n)
  show ?case
  proof (cases "findConflict m l")
    case None
    then show ?thesis by (simp add: try_acquire_def)
  next
    case (Some h)
    have h: "h \<in> set (scan_holders m l)" by (rule findConflict_Some [OF Suc.prems(1) Some])
    have sub: "scan_holders (latch_remove h m) l = filter (\<lambda>g. lid g \<noteq> lid h) (scan_holders m l)"
      by (simp add: scan_holders_def conj_commute conj_left_commute)
    have "length (scan_holders (latch_remove h m) l) < length (scan_holders m l)"
      unfolding sub by (rule length_filter_less [OF h]) simp
    moreover have "index_ok (latch_remove h m)"
      using index_ok_remove [OF Suc.prems(1)] h by (simp add: scan_holders_def)
    ultimately have "\<exists>m'. acquire_loop n l (latch_remove h m) = Some m' \<and> l \<in> set (held m')"
      using Suc.IH Suc.prems(2) by simp
    then show ?thesis using Some by (simp add: try_acquire_def)
  qed
qed simp


section \<open>Witnesses\<close>

definition demo_manager :: latchManager where
  "demo_manager = latch_insert (new_latch 1 [\<lparr>Start = [4, 1], End = None\<rparr>] latchExclusive)
     (latch_insert (new_latch 0 [\<lparr>Start = [4, 5], End = Some [4, 9]\<rparr>] latchShared) newLatchManager)"

lemma demo_manager_reach: "latch_reach demo_manager"
proof -
  have "latch_reach (latch_insert (new_latch 0 [\<lparr>Start = [4, 5], End = Some [4, 9]\<rparr>] latchShared) newLatchManager)"
    by (rule latch_reach.acquire [OF latch_reach.start, of 0 "[\<lparr>Start = [4, 5], End = Some [4, 9]\<rparr>]" latchShared])
      (auto simp: newLatchManager_def try_acquire_def findConflict_def new_latch_def find_ranged_conflict_def)
  then show ?thesis
    unfolding demo_manager_def
    by (rule latch_reach.acquire [of _ 1 "[\<lparr>Start = [4, 1], End = None\<rparr>]" latchExclusive])
      (auto simp: latch_insert_def newLatchManager_def try_acquire_def findConflict_def new_latch_def
        find_point_conflict_def point_holders_def insert_span_def overlaps_cases conflicts_def)
qed

theorem findConflict_equiv_witness:
  "findConflict demo_manager (new_latch 2 [\<lparr>Start = [4, 6], End = None\<rparr>] latchExclusive) \<noteq> None \<and>
   scan_holders demo_manager (new_latch 2 [\<lparr>Start = [4, 6], End = None\<rparr>] latchShared) = []"
proof -
  have "findConflict demo_manager (new_latch 2 [\<lparr>Start = [4, 6], End = None\<rparr>] latchShared) = None"
    by (simp add: demo_manager_def latch_insert_def newLatchManager_def findConflict_def new_latch_def
        find_point_conflict_def point_holders_def insert_span_def overlaps_cases conflicts_def)
  moreover have "scan_holders demo_manager (new_latch 2 [\<lparr>Start = [4, 6], End = None\<rparr>] latchExclusive) \<noteq> []"
    by (simp add: demo_manager_def scan_holders_def conflicts_def latch_overlap_def new_latch_def overlaps_cases)
  ultimately show ?thesis
    using findConflict_equiv [OF demo_manager_reach, of "new_latch 2 [\<lparr>Start = [4, 6], End = None\<rparr>] latchExclusive"]
      findConflict_equiv [OF demo_manager_reach, of "new_latch 2 [\<lparr>Start = [4, 6], End = None\<rparr>] latchShared"]
    by (auto split: option.splits)
qed

theorem latch_mutual_exclusion_witness:
  "latch_reach (latch_insert (new_latch 2 [\<lparr>Start = [4, 6], End = None\<rparr>] latchShared) demo_manager) \<and>
   mode (new_latch 2 [\<lparr>Start = [4, 6], End = None\<rparr>] latchShared) = latchShared"
proof -
  have r: "latch_reach (latch_insert (new_latch 2 [\<lparr>Start = [4, 6], End = None\<rparr>] latchShared) demo_manager)"
    by (rule latch_reach.acquire [OF demo_manager_reach, of 2 "[\<lparr>Start = [4, 6], End = None\<rparr>]" latchShared])
      (auto simp: demo_manager_def latch_insert_def newLatchManager_def try_acquire_def findConflict_def new_latch_def
        find_point_conflict_def point_holders_def insert_span_def overlaps_cases conflicts_def)
  have "mode (new_latch 2 [\<lparr>Start = [4, 6], End = None\<rparr>] latchShared) = latchShared \<and>
      mode (new_latch 0 [\<lparr>Start = [4, 5], End = Some [4, 9]\<rparr>] latchShared) = latchShared"
    by (rule latch_mutual_exclusion [OF r, where gs = "\<lparr>Start = [4, 6], End = None\<rparr>"
          and hs = "\<lparr>Start = [4, 5], End = Some [4, 9]\<rparr>" and k = "[4, 6]"])
      (simp_all add: demo_manager_def new_latch_def span_proper_def span_keys_def)
  with r show ?thesis by simp
qed


end
