(* ===== verification/TsCache.thy ===== *)
theory TsCache
  imports Latch Enginepb "HOL-Library.AList"
begin

text \<open>
  The range's read timestamp cache (\<^verbatim>\<open>src/pkg/kvserver/tscache.go\<close>): a floor and two generations
  of point and ranged reads. A map from keys to reads is an association list whose order
  stands for the iteration order; the readers' identities are UUIDs, \<open>uuid_nil\<close> for none.
\<close>

section \<open>State\<close>

record tsCacheRead =
  rTs :: timestamp
  rTxn :: uuid

record tsCacheEntry =
  eSpan :: latchSpan
  eTs :: timestamp
  eTxn :: uuid

record tsCacheGen =
  gPoints :: "(key \<times> tsCacheRead) list"
  gRanged :: "tsCacheEntry list"
  gN :: nat

record tsCache =
  floor :: timestamp
  cur :: tsCacheGen
  prev :: tsCacheGen

definition empty_gen :: tsCacheGen where
  "empty_gen = \<lparr>gPoints = [], gRanged = [], gN = 0\<rparr>"

definition empty_cache :: tsCache where
  "empty_cache = \<lparr>floor = zero_ts, cur = empty_gen, prev = empty_gen\<rparr>"

abbreviation tsCacheGenerationSize :: nat where
  "tsCacheGenerationSize \<equiv> 4096"

section \<open>Operations\<close>

definition gen_record :: "key \<Rightarrow> timestamp \<Rightarrow> uuid \<Rightarrow> tsCacheGen \<Rightarrow> tsCacheGen" where
  "gen_record k ts txnID g =
     (case map_of (gPoints g) k of
        None \<Rightarrow> g\<lparr>gPoints := AList.update k \<lparr>rTs = ts, rTxn = txnID\<rparr> (gPoints g), gN := gN g + 1\<rparr>
      | Some old \<Rightarrow>
          if Less (rTs old) ts then g\<lparr>gPoints := AList.update k \<lparr>rTs = ts, rTxn = txnID\<rparr> (gPoints g)\<rparr>
          else if Equal (rTs old) ts \<and> rTxn old \<noteq> txnID
          then g\<lparr>gPoints := AList.update k \<lparr>rTs = ts, rTxn = uuid_nil\<rparr> (gPoints g)\<rparr>
          else g)"

definition bump_span :: "timestamp \<Rightarrow> uuid \<Rightarrow> latchSpan \<Rightarrow> tsCache \<Rightarrow> tsCache" where
  "bump_span ts txnID sp c =
     (case End sp of
        None \<Rightarrow> c\<lparr>cur := gen_record (Start sp) ts txnID (cur c)\<rparr>
      | Some e \<Rightarrow>
          if Key_Compare (Start sp) (Start wholeRangeSpan) \<le> 0 \<and> Key_Compare MaxKey e \<le> 0
          then c\<lparr>floor := ts\<rparr>
          else c\<lparr>cur := (cur c)\<lparr>gRanged := gRanged (cur c) @ [\<lparr>eSpan = sp, eTs = ts, eTxn = txnID\<rparr>],
                              gN := gN (cur c) + 1\<rparr>\<rparr>)"

definition raise_floor :: "timestamp \<Rightarrow> timestamp \<Rightarrow> timestamp" where
  "raise_floor f ts = (if Less f ts then ts else f)"

definition bump_rotate :: "tsCache \<Rightarrow> tsCache" where
  "bump_rotate c =
     (if tsCacheGenerationSize \<le> gN (cur c) then
        (let f1 = foldl (\<lambda>f e. raise_floor f (rTs (snd e))) (floor c) (gPoints (prev c));
             f2 = foldl (\<lambda>f e. raise_floor f (eTs e)) f1 (gRanged (prev c))
         in \<lparr>floor = f2, cur = empty_gen, prev = cur c\<rparr>)
      else c)"

definition Bump :: "latchSpan list \<Rightarrow> timestamp \<Rightarrow> uuid \<Rightarrow> tsCache \<Rightarrow> tsCache" where
  "Bump sps ts txnID c =
     (if \<not> Less (floor c) ts then c else bump_rotate (fold (bump_span ts txnID) sps c))"

definition spansOverlap :: "latchSpan \<Rightarrow> latchSpan \<Rightarrow> bool" where
  "spansOverlap a b =
     (case (End a, End b) of
        (None, None) \<Rightarrow> Key_Equal (Start a) (Start b)
      | (None, Some e) \<Rightarrow> Key_Compare (Start b) (Start a) \<le> 0 \<and> Key_Compare (Start a) e < 0
      | (Some e, None) \<Rightarrow> Key_Compare (Start a) (Start b) \<le> 0 \<and> Key_Compare (Start b) e < 0
      | (Some d, Some e) \<Rightarrow> Key_Compare (Start a) e < 0 \<and> Key_Compare (Start b) d < 0)"

definition overlapsAny :: "latchSpan \<Rightarrow> latchSpan list \<Rightarrow> bool" where
  "overlapsAny s sps = list_ex (spansOverlap s) sps"

definition note_read :: "timestamp \<Rightarrow> uuid \<Rightarrow> timestamp \<Rightarrow> uuid \<Rightarrow> bool \<times> timestamp \<Rightarrow> bool \<times> timestamp" where
  "note_read ts txnID rts rtxn r =
     (let (ok, low) = r
      in (if Less ts rts \<or> (Equal ts rts \<and> (txnID = uuid_nil \<or> txnID \<noteq> rtxn)) then False else ok,
          if Less low rts then rts else low))"

definition allows_ranged ::
  "latchSpan list \<Rightarrow> timestamp \<Rightarrow> uuid \<Rightarrow> tsCacheGen \<Rightarrow> bool \<times> timestamp \<Rightarrow> bool \<times> timestamp" where
  "allows_ranged sps ts txnID g =
     fold (\<lambda>e r. if overlapsAny (eSpan e) sps then note_read ts txnID (eTs e) (eTxn e) r else r) (gRanged g)"

definition allows_points ::
  "timestamp \<Rightarrow> uuid \<Rightarrow> tsCacheGen \<Rightarrow> latchSpan \<Rightarrow> bool \<times> timestamp \<Rightarrow> bool \<times> timestamp" where
  "allows_points ts txnID g w r =
     (if End w = None then
        (case map_of (gPoints g) (Start w) of
           None \<Rightarrow> r | Some rd \<Rightarrow> note_read ts txnID (rTs rd) (rTxn rd) r)
      else
        fold (\<lambda>(k, rd) r. if spansOverlap \<lparr>Start = k, End = None\<rparr> w
                           then note_read ts txnID (rTs rd) (rTxn rd) r else r) (gPoints g) r)"

definition allows_gen ::
  "latchSpan list \<Rightarrow> timestamp \<Rightarrow> uuid \<Rightarrow> tsCacheGen \<Rightarrow> bool \<times> timestamp \<Rightarrow> bool \<times> timestamp" where
  "allows_gen sps ts txnID g r =
     (let r = allows_ranged sps ts txnID g r
      in if gPoints g = [] then r else fold (allows_points ts txnID g) sps r)"

definition AllowsWrite :: "latchSpan list \<Rightarrow> timestamp \<Rightarrow> uuid \<Rightarrow> tsCache \<Rightarrow> bool \<times> timestamp" where
  "AllowsWrite sps ts txnID c =
     allows_gen sps ts txnID (cur c) (allows_gen sps ts txnID (prev c) (Less (floor c) ts, floor c))"

section \<open>Specification\<close>

text \<open>A read served: its spans, timestamp and reader.\<close>

type_synonym served = "latchSpan list \<times> timestamp \<times> uuid"

definition bumps :: "served list \<Rightarrow> tsCache" where
  "bumps h = fold (\<lambda>(sps, ts, txnID). Bump sps ts txnID) h empty_cache"

text \<open>The reads a write must respect: those the cache holds on its spans.\<close>

definition gen_hits :: "latchSpan list \<Rightarrow> tsCacheGen \<Rightarrow> (timestamp \<times> uuid) set" where
  "gen_hits sps g =
     {(eTs e, eTxn e) | e. e \<in> set (gRanged g) \<and> (\<exists>w \<in> set sps. spansOverlap (eSpan e) w)} \<union>
     {(rTs r, rTxn r) | k r. (k, r) \<in> set (gPoints g) \<and> (\<exists>w \<in> set sps. spansOverlap \<lparr>Start = k, End = None\<rparr> w)}"

definition cache_hits :: "latchSpan list \<Rightarrow> tsCache \<Rightarrow> (timestamp \<times> uuid) set" where
  "cache_hits sps c = gen_hits sps (prev c) \<union> gen_hits sps (cur c)"

text \<open>A write at \<open>ts\<close> by \<open>txnID\<close> clears a read at \<open>rts\<close> by \<open>rtxn\<close>.\<close>

definition clears :: "timestamp \<Rightarrow> uuid \<Rightarrow> timestamp \<times> uuid \<Rightarrow> bool" where
  "clears ts txnID rd \<longleftrightarrow> fst rd < ts \<or> (fst rd = ts \<and> txnID \<noteq> uuid_nil \<and> txnID = snd rd)"

text \<open>A generation's points have distinct keys and \<open>gN\<close> counts its entries.\<close>

definition gen_ok :: "tsCacheGen \<Rightarrow> bool" where
  "gen_ok g \<longleftrightarrow> distinct (map fst (gPoints g)) \<and> gN g = length (gPoints g) + length (gRanged g)"

definition cache_ok :: "tsCache \<Rightarrow> bool" where
  "cache_ok c \<longleftrightarrow> gen_ok (cur c) \<and> gen_ok (prev c)"

text \<open>How the cache remembers a read of one span.\<close>

definition remembered_in :: "tsCacheGen \<Rightarrow> latchSpan \<Rightarrow> timestamp \<Rightarrow> uuid \<Rightarrow> bool" where
  "remembered_in g sp ts txnID \<longleftrightarrow>
     (if End sp = None then
        (\<exists>r. map_of (gPoints g) (Start sp) = Some r \<and>
             (ts < rTs r \<or> (ts = rTs r \<and> (rTxn r = txnID \<or> rTxn r = uuid_nil))))
      else \<lparr>eSpan = sp, eTs = ts, eTxn = txnID\<rparr> \<in> set (gRanged g))"

definition remembered :: "tsCache \<Rightarrow> latchSpan \<Rightarrow> timestamp \<Rightarrow> uuid \<Rightarrow> bool" where
  "remembered c sp ts txnID \<longleftrightarrow>
     ts \<le> floor c \<or> remembered_in (cur c) sp ts txnID \<or> remembered_in (prev c) sp ts txnID"

section \<open>The write check\<close>

lemma spansOverlap_overlaps: "spansOverlap = overlaps"
  by (intro ext) (simp add: spansOverlap_def overlaps_def)

text \<open>Noting a set of reads: the check holds of each, the low timestamp is their maximum.\<close>

definition noted :: "timestamp \<Rightarrow> uuid \<Rightarrow> (timestamp \<times> uuid) set \<Rightarrow> bool \<times> timestamp \<Rightarrow> bool \<times> timestamp \<Rightarrow> bool" where
  "noted ts txnID R r r' \<longleftrightarrow>
     fst r' = (fst r \<and> (\<forall>x \<in> R. clears ts txnID x)) \<and>
     snd r \<le> snd r' \<and> (\<forall>x \<in> R. fst x \<le> snd r') \<and> (snd r' = snd r \<or> snd r' \<in> fst ` R)"

lemma noted_empty [simp]: "noted ts txnID {} r r' \<longleftrightarrow> r' = r"
  by (auto simp: noted_def prod_eq_iff)

lemma noted_trans: "noted ts txnID R r r' \<Longrightarrow> noted ts txnID S r' r'' \<Longrightarrow> noted ts txnID (R \<union> S) r r''"
proof -
  assume a: "noted ts txnID R r r'" and b: "noted ts txnID S r' r''"
  have 1: "fst r' = (fst r \<and> (\<forall>x \<in> R. clears ts txnID x))" "snd r \<le> snd r'" "\<forall>x \<in> R. fst x \<le> snd r'"
      "snd r' = snd r \<or> snd r' \<in> fst ` R"
    using a unfolding noted_def by blast+
  have 2: "fst r'' = (fst r' \<and> (\<forall>x \<in> S. clears ts txnID x))" "snd r' \<le> snd r''" "\<forall>x \<in> S. fst x \<le> snd r''"
      "snd r'' = snd r' \<or> snd r'' \<in> fst ` S"
    using b unfolding noted_def by blast+
  have "\<forall>x \<in> R \<union> S. fst x \<le> snd r''" using 1(3) 2(2,3) order_trans by blast
  moreover have "snd r'' = snd r \<or> snd r'' \<in> fst ` (R \<union> S)"
    unfolding image_Un using 1(4) 2(4) by (elim disjE) simp_all
  moreover have "fst r'' = (fst r \<and> (\<forall>x \<in> R \<union> S. clears ts txnID x))" unfolding 2(1) 1(1) by blast
  ultimately show ?thesis unfolding noted_def using order_trans [OF 1(2) 2(2)] by blast
qed

lemma noted_one: "noted ts txnID {(rts, rtxn)} r (note_read ts txnID rts rtxn r)"
  by (cases r) (auto simp: noted_def note_read_def clears_def not_less)

lemma noted_fold:
  assumes "\<And>x r. x \<in> set xs \<Longrightarrow> noted ts txnID (R x) r (f x r)"
  shows "noted ts txnID (\<Union> (R ` set xs)) r (fold f xs r)"
  using assms
proof (induction xs arbitrary: r)
  case (Cons x xs)
  have "noted ts txnID (R x) r (f x r)" using Cons.prems by simp
  moreover have "noted ts txnID (\<Union> (R ` set xs)) (f x r) (fold f xs (f x r))"
    using Cons by simp
  ultimately show ?case using noted_trans by fastforce
qed simp

lemma noted_ranged:
  "noted ts txnID {(eTs e, eTxn e) | e. e \<in> set (gRanged g) \<and> (\<exists>w \<in> set sps. spansOverlap (eSpan e) w)}
     r (allows_ranged sps ts txnID g r)"
proof -
  let ?R = "\<lambda>e. if overlapsAny (eSpan e) sps then {(eTs e, eTxn e)} else {}"
  have "noted ts txnID (\<Union> (?R ` set (gRanged g))) r (allows_ranged sps ts txnID g r)"
    unfolding allows_ranged_def by (rule noted_fold) (simp add: noted_one)
  moreover have "\<Union> (?R ` set (gRanged g)) =
      {(eTs e, eTxn e) | e. e \<in> set (gRanged g) \<and> (\<exists>w \<in> set sps. spansOverlap (eSpan e) w)}"
    by (auto simp: overlapsAny_def list_ex_iff split: if_splits)
  ultimately show ?thesis by simp
qed

lemma noted_points:
  assumes "distinct (map fst (gPoints g))"
  shows "noted ts txnID {(rTs x, rTxn x) | k x. (k, x) \<in> set (gPoints g) \<and> spansOverlap \<lparr>Start = k, End = None\<rparr> w}
    r (allows_points ts txnID g w r)"
proof (cases "End w")
  case None
  have "{(rTs x, rTxn x) | k x. (k, x) \<in> set (gPoints g) \<and> spansOverlap \<lparr>Start = k, End = None\<rparr> w} =
      (case map_of (gPoints g) (Start w) of None \<Rightarrow> {} | Some x \<Rightarrow> {(rTs x, rTxn x)})"
    using None map_of_eq_Some_iff [OF assms, of "Start w", symmetric]
    by (auto simp: spansOverlap_overlaps overlaps_cases split: option.splits)
  then show ?thesis
    using None noted_one by (auto simp: allows_points_def split: option.splits)
next
  case (Some e)
  let ?R = "\<lambda>(k, x). if spansOverlap \<lparr>Start = k, End = None\<rparr> w then {(rTs x, rTxn x)} else {}"
  have "noted ts txnID (\<Union> (?R ` set (gPoints g))) r (allows_points ts txnID g w r)"
    unfolding allows_points_def using Some
    by simp (rule noted_fold, auto simp: noted_one split: prod.splits)
  moreover have "\<Union> (?R ` set (gPoints g)) =
      {(rTs x, rTxn x) | k x. (k, x) \<in> set (gPoints g) \<and> spansOverlap \<lparr>Start = k, End = None\<rparr> w}"
    by (fastforce split: if_splits)
  ultimately show ?thesis by simp
qed

lemma noted_gen:
  assumes "gen_ok g"
  shows "noted ts txnID (gen_hits sps g) r (allows_gen sps ts txnID g r)"
proof -
  let ?S = "\<lambda>w. {(rTs x, rTxn x) | k x. (k, x) \<in> set (gPoints g) \<and> spansOverlap \<lparr>Start = k, End = None\<rparr> w}"
  let ?R = "{(eTs e, eTxn e) | e. e \<in> set (gRanged g) \<and> (\<exists>w \<in> set sps. spansOverlap (eSpan e) w)}"
  let ?r = "allows_ranged sps ts txnID g r"
  have hits: "gen_hits sps g = ?R \<union> \<Union> (?S ` set sps)" by (auto simp: gen_hits_def)
  have "noted ts txnID (\<Union> (?S ` set sps)) ?r (fold (allows_points ts txnID g) sps ?r)"
    by (rule noted_fold) (rule noted_points, use assms in \<open>simp add: gen_ok_def\<close>)
  then have "noted ts txnID (\<Union> (?S ` set sps)) ?r (allows_gen sps ts txnID g r)"
    by (cases "gPoints g = []") (simp_all add: allows_gen_def)
  with noted_ranged show ?thesis unfolding hits by (rule noted_trans)
qed

lemma AllowsWrite_noted:
  "cache_ok c \<Longrightarrow> noted ts txnID (cache_hits sps c) (floor c < ts, floor c) (AllowsWrite sps ts txnID c)"
  unfolding AllowsWrite_def cache_hits_def cache_ok_def
  by (auto intro: noted_trans noted_gen)

section \<open>The cache remembers\<close>

lemma gen_record_ok: "gen_ok g \<Longrightarrow> gen_ok (gen_record k ts txnID g)"
proof -
  assume g: "gen_ok g"
  have len: "length (AList.update k v al) = (if k \<in> fst ` set al then length al else length al + 1)"
    for v and al :: "(key \<times> tsCacheRead) list"
    by (induction al) (auto split: prod.splits)
  have "k \<in> fst ` set (gPoints g) \<longleftrightarrow> map_of (gPoints g) k \<noteq> None"
    by (simp add: map_of_eq_None_iff)
  then show ?thesis
    using g by (auto simp: gen_record_def gen_ok_def len distinct_update split: option.splits)
qed

lemma gen_record_remembers:
  "remembered_in g sp u x \<Longrightarrow> remembered_in (gen_record k ts txnID g) sp u x"
  by (auto simp: remembered_in_def gen_record_def update_conv' split: option.splits if_splits)

lemma gen_record_new: "End sp = None \<Longrightarrow> remembered_in (gen_record (Start sp) ts txnID g) sp ts txnID"
  by (auto simp: remembered_in_def gen_record_def update_conv' split: option.splits)

lemma bump_span_ok: "cache_ok c \<Longrightarrow> cache_ok (bump_span ts txnID sp c)"
proof -
  assume c: "cache_ok c"
  then have "gen_ok (gen_record (Start sp) ts txnID (cur c))" by (simp add: cache_ok_def gen_record_ok)
  with c show ?thesis
    by (cases "End sp") (auto simp: bump_span_def cache_ok_def, auto simp: gen_ok_def)
qed

lemma bump_span_floor: "floor c < ts \<Longrightarrow> floor c \<le> floor (bump_span ts txnID sp c) \<and> floor (bump_span ts txnID sp c) \<le> ts"
  by (auto simp: bump_span_def split: option.splits)

lemma bump_span_remembers:
  assumes "remembered c sp u x" "floor c \<le> ts"
  shows "remembered (bump_span ts txnID sp' c) sp u x"
proof -
  have "remembered_in (cur (bump_span ts txnID sp' c)) sp u x" if "remembered_in (cur c) sp u x"
    using that gen_record_remembers by (auto simp: bump_span_def remembered_in_def split: option.splits)
  then show ?thesis
    using assms by (auto simp: remembered_def bump_span_def split: option.splits)
qed

lemma bump_span_new: "remembered (bump_span ts txnID sp c) sp ts txnID"
proof (cases "End sp")
  case None
  then show ?thesis by (simp add: remembered_def bump_span_def gen_record_new)
next
  case (Some e)
  then show ?thesis by (simp add: remembered_def bump_span_def remembered_in_def)
qed

lemma bump_spans:
  assumes "cache_ok c" "floor c \<le> ts"
  shows "cache_ok (fold (bump_span ts txnID) sps c) \<and> floor (fold (bump_span ts txnID) sps c) \<le> ts \<and>
    (\<forall>sp u x. remembered c sp u x \<longrightarrow> remembered (fold (bump_span ts txnID) sps c) sp u x) \<and>
    (\<forall>sp \<in> set sps. remembered (fold (bump_span ts txnID) sps c) sp ts txnID)"
  using assms
proof (induction sps arbitrary: c)
  case (Cons sp sps)
  let ?c = "bump_span ts txnID sp c"
  have "floor ?c \<le> ts" using Cons.prems(2) by (auto simp: bump_span_def split: option.splits)
  with Cons.IH [OF bump_span_ok [OF Cons.prems(1)]] show ?case
    using bump_span_remembers [OF _ Cons.prems(2)] bump_span_new by (auto simp: fold_simps)
qed simp

lemma raise_floor_max: "raise_floor f ts = max f ts"
  by (auto simp: raise_floor_def max_def)

lemma foldl_raise: "f \<le> foldl (\<lambda>f e. raise_floor f (h e)) f xs \<and>
  (\<forall>e \<in> set xs. h e \<le> foldl (\<lambda>f e. raise_floor f (h e)) f xs)"
proof (induction xs arbitrary: f)
  case (Cons x xs)
  from Cons [of "raise_floor f (h x)"] show ?case
    by (auto simp: raise_floor_max)
qed simp

lemma bump_rotate_ok: "cache_ok c \<Longrightarrow> cache_ok (bump_rotate c)"
  by (auto simp: bump_rotate_def cache_ok_def gen_ok_def empty_gen_def Let_def)

lemma bump_rotate_remembers:
  assumes "cache_ok c" "remembered c sp u x"
  shows "remembered (bump_rotate c) sp u x"
proof (cases "tsCacheGenerationSize \<le> gN (cur c)")
  case True
  define f1 where "f1 = foldl (\<lambda>f e. raise_floor f (rTs (snd e))) (floor c) (gPoints (prev c))"
  define f2 where "f2 = foldl (\<lambda>f e. raise_floor f (eTs e)) f1 (gRanged (prev c))"
  have rot: "bump_rotate c = \<lparr>floor = f2, cur = empty_gen, prev = cur c\<rparr>"
    using True by (simp add: bump_rotate_def Let_def f1_def f2_def)
  have f1: "floor c \<le> f1" "\<forall>e \<in> set (gPoints (prev c)). rTs (snd e) \<le> f1"
    using foldl_raise [of "floor c" "\<lambda>e. rTs (snd e)" "gPoints (prev c)"] by (auto simp: f1_def)
  have f2: "f1 \<le> f2" "\<forall>e \<in> set (gRanged (prev c)). eTs e \<le> f2"
    using foldl_raise [of f1 eTs "gRanged (prev c)"] by (auto simp: f2_def)
  have "u \<le> f2" if "remembered_in (prev c) sp u x"
  proof (cases "End sp")
    case None
    with that obtain r where "map_of (gPoints (prev c)) (Start sp) = Some r" "u \<le> rTs r"
      by (auto simp: remembered_in_def)
    then show ?thesis using f1(2) f2(1) by (fastforce dest: map_of_SomeD)
  next
    case (Some e)
    with that have "\<lparr>eSpan = sp, eTs = u, eTxn = x\<rparr> \<in> set (gRanged (prev c))" by (simp add: remembered_in_def)
    then show ?thesis using f2(2) by fastforce
  qed
  then show ?thesis
    using assms(2) f1(1) f2(1) unfolding remembered_def rot by auto
qed (use assms in \<open>simp add: bump_rotate_def\<close>)

lemma Bump_ok: "cache_ok c \<Longrightarrow> cache_ok (Bump sps ts txnID c)"
  using bump_spans [of c ts txnID sps] by (auto simp: Bump_def bump_rotate_ok)

lemma Bump_remembers:
  assumes "cache_ok c"
  shows "remembered c sp u x \<Longrightarrow> remembered (Bump sps ts txnID c) sp u x"
    "sp' \<in> set sps \<Longrightarrow> remembered (Bump sps ts txnID c) sp' ts txnID"
proof -
  let ?c = "fold (bump_span ts txnID) sps c"
  consider (low) "Bump sps ts txnID c = c" "ts \<le> floor c"
    | (bump) "Bump sps ts txnID c = bump_rotate ?c" "floor c \<le> ts"
    by (cases "floor c < ts") (simp_all add: Bump_def)
  then show "remembered (Bump sps ts txnID c) sp u x" if r: "remembered c sp u x"
  proof cases
    case bump
    note b = bump_spans [OF assms bump(2), of txnID sps]
    show ?thesis unfolding bump(1) by (rule bump_rotate_remembers) (use b r in blast)+
  qed (simp add: r)
  show "remembered (Bump sps ts txnID c) sp' ts txnID" if r: "sp' \<in> set sps"
  proof (cases "floor c < ts")
    case True
    then have c: "Bump sps ts txnID c = bump_rotate ?c" "floor c \<le> ts" by (simp_all add: Bump_def)
    note b = bump_spans [OF assms c(2), of txnID sps]
    show ?thesis unfolding c(1) by (rule bump_rotate_remembers) (use b r in blast)+
  qed (simp add: Bump_def remembered_def not_less)
qed

lemma bumps_ok:
  "cache_ok (bumps h) \<and> (\<forall>(sps, ts, txnID) \<in> set h. \<forall>sp \<in> set sps. remembered (bumps h) sp ts txnID)"
proof (induction h rule: rev_induct)
  case Nil
  show ?case by (simp add: bumps_def empty_cache_def cache_ok_def gen_ok_def empty_gen_def)
next
  case (snoc x h)
  obtain sps ts txnID where x: "x = (sps, ts, txnID)" by (cases x)
  have b: "bumps (h @ [x]) = Bump sps ts txnID (bumps h)" by (simp add: bumps_def x)
  from snoc have ok: "cache_ok (bumps h)" by simp
  show ?case
    unfolding b using snoc Bump_ok [OF ok] Bump_remembers [OF ok] x by fastforce
qed

lemma remembered_hit:
  assumes "cache_ok c" "remembered c sp rts rtxn" "w \<in> set sps" "spansOverlap sp w"
    and "floor c < ts" "\<forall>x \<in> cache_hits sps c. clears ts txnID x"
  shows "rts < ts \<or> (rts = ts \<and> rtxn = txnID \<and> txnID \<noteq> uuid_nil)"
proof -
  have "rts < ts \<or> (rts = ts \<and> rtxn = txnID \<and> txnID \<noteq> uuid_nil)"
    if g: "remembered_in g sp rts rtxn" "\<forall>x \<in> gen_hits sps g. clears ts txnID x" for g
  proof (cases "End sp")
    case None
    with g(1) obtain r where r: "map_of (gPoints g) (Start sp) = Some r"
      "rts < rTs r \<or> (rts = rTs r \<and> (rTxn r = rtxn \<or> rTxn r = uuid_nil))"
      by (auto simp: remembered_in_def)
    have "spansOverlap \<lparr>Start = Start sp, End = None\<rparr> w"
      using assms(4) None by (simp add: spansOverlap_def split: option.splits)
    then have "(rTs r, rTxn r) \<in> gen_hits sps g"
      using r(1) assms(3) by (auto simp: gen_hits_def dest: map_of_SomeD)
    with g(2) have "clears ts txnID (rTs r, rTxn r)" by blast
    with r(2) show ?thesis by (auto simp: clears_def)
  next
    case (Some e)
    then have "(rts, rtxn) \<in> gen_hits sps g"
      using g(1) assms(3,4) by (force simp: gen_hits_def remembered_in_def)
    with g(2) show ?thesis by (auto simp: clears_def)
  qed
  then show ?thesis
    using assms(2,5,6) unfolding remembered_def cache_hits_def by (meson UnCI le_less_trans)
qed

section \<open>Properties\<close>

text \<open>
  C24: no write slips beneath a read: after any history of reads recorded in the cache, a write
  it allows on spans overlapping one of them is above that read's timestamp, or exactly at it
  and by the transaction that read.
\<close>

theorem tscache_safe:
  assumes "AllowsWrite sps ts txnID (bumps h) = (True, low)"
    and "(rsps, rts, rtxn) \<in> set h" "sp \<in> set rsps" "w \<in> set sps" "overlaps sp w"
  shows "rts < ts \<or> (rts = ts \<and> rtxn = txnID \<and> txnID \<noteq> uuid_nil)"
proof -
  have ok: "cache_ok (bumps h)" and rem: "remembered (bumps h) sp rts rtxn"
    using bumps_ok [of h] assms(2,3) by auto
  have "noted ts txnID (cache_hits sps (bumps h)) (floor (bumps h) < ts, floor (bumps h)) (True, low)"
    using AllowsWrite_noted [OF ok, of ts txnID sps] assms(1) by simp
  then have "floor (bumps h) < ts" "\<forall>x \<in> cache_hits sps (bumps h). clears ts txnID x"
    by (auto simp: noted_def)
  then show ?thesis
    using remembered_hit [OF ok rem assms(4)] assms(5) by (simp add: spansOverlap_overlaps)
qed


lemma bump_span_count:
  "gN (cur (bump_span ts txnID sp c)) \<le> Suc (gN (cur c))" "prev (bump_span ts txnID sp c) = prev c"
  by (auto simp: bump_span_def gen_record_def split: option.splits)

lemma bump_spans_count:
  "gN (cur (fold (bump_span ts txnID) sps c)) \<le> gN (cur c) + length sps \<and> prev (fold (bump_span ts txnID) sps c) = prev c"
proof (induction sps arbitrary: c)
  case (Cons sp sps)
  from Cons [of "bump_span ts txnID sp c"] show ?case
    using bump_span_count [of ts txnID sp c] by simp
qed simp

text \<open>
  C26: the cache's memory is bounded: after any history the current generation holds fewer
  entries than a generation's size, and the previous one at most that plus the spans of one
  read.
\<close>

theorem tscache_bounded:
  assumes "\<forall>(sps, ts, txnID) \<in> set h. length sps \<le> B"
  shows "length (gPoints (cur (bumps h))) + length (gRanged (cur (bumps h))) < tsCacheGenerationSize \<and>
    length (gPoints (prev (bumps h))) + length (gRanged (prev (bumps h))) < tsCacheGenerationSize + B"
proof -
  have "gN (cur (bumps h)) < tsCacheGenerationSize \<and> gN (prev (bumps h)) < tsCacheGenerationSize + B"
    using assms
  proof (induction h rule: rev_induct)
    case Nil
    show ?case by (simp add: bumps_def empty_cache_def empty_gen_def)
  next
    case (snoc x h)
    obtain sps ts txnID where x: "x = (sps, ts, txnID)" by (cases x)
    have b: "bumps (h @ [x]) = Bump sps ts txnID (bumps h)" by (simp add: bumps_def x)
    show ?case
      using snoc bump_spans_count [of ts txnID sps "bumps h"]
      unfolding b by (auto simp: x Bump_def bump_rotate_def Let_def empty_gen_def)
  qed
  then show ?thesis using bumps_ok [of h] by (auto simp: cache_ok_def gen_ok_def)
qed

section \<open>Witnesses\<close>

definition demo_reads :: "served list" where
  "demo_reads = [([\<lparr>Start = [4, 1], End = None\<rparr>], Timestamp 5 0, replicate 16 1),
     ([\<lparr>Start = [4, 2], End = Some [4, 8]\<rparr>], Timestamp 7 0, uuid_nil)]"

lemma demo_reads_cache:
  "bumps demo_reads = \<lparr>floor = zero_ts,
     cur = \<lparr>gPoints = [([4, 1], \<lparr>rTs = Timestamp 5 0, rTxn = replicate 16 1\<rparr>)],
            gRanged = [\<lparr>eSpan = \<lparr>Start = [4, 2], End = Some [4, 8]\<rparr>, eTs = Timestamp 7 0, eTxn = uuid_nil\<rparr>], gN = 2\<rparr>,
     prev = empty_gen\<rparr>"
  by (simp add: bumps_def demo_reads_def empty_cache_def empty_gen_def Bump_def bump_span_def bump_rotate_def
      gen_record_def wholeRangeSpan_def MinKey_def MaxKey_def ts_less_sint zero_ts_def)

theorem tscache_safe_witness:
  "AllowsWrite [\<lparr>Start = [4, 1], End = None\<rparr>] (Timestamp 5 0) (replicate 16 1) (bumps demo_reads) = (True, Timestamp 5 0) \<and>
   (Timestamp 5 0 < Timestamp 5 0 \<or>
    (Timestamp 5 0 = Timestamp 5 0 \<and> replicate 16 1 = (replicate 16 1 :: uuid) \<and> replicate 16 1 \<noteq> uuid_nil))"
proof -
  have a: "AllowsWrite [\<lparr>Start = [4, 1], End = None\<rparr>] (Timestamp 5 0) (replicate 16 1) (bumps demo_reads) = (True, Timestamp 5 0)"
    by (simp add: demo_reads_cache AllowsWrite_def allows_gen_def allows_ranged_def allows_points_def overlapsAny_def
        spansOverlap_overlaps overlaps_cases note_read_def empty_gen_def ts_less_sint zero_ts_def uuid_nil_def)
  have "Timestamp 5 0 < Timestamp 5 0 \<or>
    (Timestamp 5 0 = Timestamp 5 0 \<and> replicate 16 1 = (replicate 16 1 :: uuid) \<and> replicate 16 1 \<noteq> uuid_nil)"
    by (rule tscache_safe [OF a, where rsps = "[\<lparr>Start = [4, 1], End = None\<rparr>]" and sp = "\<lparr>Start = [4, 1], End = None\<rparr>"
          and w = "\<lparr>Start = [4, 1], End = None\<rparr>"]) (simp_all add: demo_reads_def overlaps_cases)
  with a show ?thesis by blast
qed


theorem tscache_bounded_witness:
  "length (gPoints (prev (bumps demo_reads))) + length (gRanged (prev (bumps demo_reads))) < tsCacheGenerationSize + 1"
proof -
  have "\<forall>(sps, ts, txnID) \<in> set demo_reads. length sps \<le> 1" by (simp add: demo_reads_def)
  from conjunct2 [OF tscache_bounded [OF this]] show ?thesis .
qed

end
