(* ===== verification/Kvpb.thy ===== *)
theory Kvpb
  imports MVCC MVCC_Scan TsCache
begin

text \<open>
  The KV API (\<^verbatim>\<open>src/pkg/kvpb\<close>: \<^verbatim>\<open>data.go\<close>, \<^verbatim>\<open>api.go\<close>, \<^verbatim>\<open>errors.go\<close>): descriptors, transactions,
  the requests and responses of a batch and the wire errors. A struct that embeds another
  extends its record. A pointer is an option; a byte slice whose nil and empty values the
  code does not tell apart is a plain byte string. A request union keeps one optional field
  per request, as the code has it; a response union, which the code only builds with one
  field set, is a datatype. An error's message is its format string, without the arguments.
\<close>

section \<open>Descriptors and transactions\<close>

type_synonym NodeID = "32 word"
type_synonym StoreID = "32 word"
type_synonym ReplicaID = "32 word"
type_synonym RangeID = "64 word"

record ReplicaDescriptor =
  rdNodeID :: NodeID
  rdStoreID :: StoreID
  rdReplicaID :: ReplicaID

record RangeDescriptor =
  dRangeID :: RangeID
  StartKey :: key
  EndKey :: key
  Replicas :: "ReplicaDescriptor list"
  NextReplicaID :: ReplicaID
  Generation :: "64 word"

definition ContainsKey :: "RangeDescriptor \<Rightarrow> key \<Rightarrow> bool" where
  "ContainsKey d k \<longleftrightarrow> Key_Compare (StartKey d) k \<le> 0 \<and> Key_Compare k (EndKey d) < 0"

definition GetReplica :: "RangeDescriptor \<Rightarrow> NodeID \<Rightarrow> ReplicaDescriptor option" where
  "GetReplica d nodeID = find (\<lambda>r. rdNodeID r = nodeID) (Replicas d)"

record Transaction = TxnMeta +
  Name :: string
  Status :: TxnStatus
  ReadTimestamp :: timestamp
  LastHeartbeat :: timestamp
  IntentKeys :: "key list"
  WaitingFor :: uuid
  WaitingForKey :: key
  InFlightKeys :: "key list"

definition NewTransaction :: "uuid \<Rightarrow> string \<Rightarrow> 32 word \<Rightarrow> timestamp \<Rightarrow> Transaction" where
  "NewTransaction i name priority now =
     \<lparr>ID = i, AnchorKey = [], Epoch = 0, WriteTimestamp = now, MinTimestamp = now, Priority = priority,
      Sequence = 0, HistoryFloor = 0, BinaryMeta = False,
      Name = name, Status = PENDING, ReadTimestamp = now, LastHeartbeat = now, IntentKeys = [],
      WaitingFor = uuid_nil, WaitingForKey = [], InFlightKeys = []\<rparr>"

definition Restart :: "timestamp \<Rightarrow> Transaction \<Rightarrow> Transaction" where
  "Restart now t =
     (let t = t\<lparr>Epoch := Epoch t + 1, WriteTimestamp := now, ReadTimestamp := now\<rparr>
      in if sint (Priority t) < 2 ^ 30 then t\<lparr>Priority := Priority t + 1\<rparr> else t)"

section \<open>Requests\<close>

record RequestHeader =
  rKey :: key
  rEndKey :: key

record GetRequest = RequestHeader +
  getForUpdate :: bool

record PutRequest = RequestHeader +
  putValue :: nbytes

type_synonym DeleteRequest = RequestHeader

record IncrementRequest = RequestHeader +
  incBy :: "64 word"

record ScanRequest = RequestHeader +
  MaxRows :: "64 word"
  scanForUpdate :: bool
  Reverse :: bool

record ExportRequest = RequestHeader +
  expStartTS :: timestamp
  MaxRecords :: "64 word"

record EndTxnRequest = RequestHeader +
  Commit :: bool
  etIntentKeys :: "key list"
  InFlight :: "key list"
  etAll :: bool

record HeartbeatTxnRequest = RequestHeader +
  hbNow :: timestamp
  hbWaitingFor :: uuid
  hbWaitingForKey :: key

record PushTxnRequest = RequestHeader +
  PusherTxn :: "Transaction option"
  PusheeTxn :: TxnMeta
  PushAbort :: bool
  puNow :: timestamp
  QueryOnly :: bool
  ForceAbort :: bool

record ResolveIntentRequest = RequestHeader +
  riTxnID :: uuid
  riStatus :: TxnStatus
  riCommitTS :: timestamp

record RollbackIntentRequest = RequestHeader +
  rbTxnID :: uuid
  rbSequence :: "32 word"

record RecoverTxnRequest = RequestHeader +
  rcTxnID :: uuid
  rcCommit :: bool

record RefreshRequest = RequestHeader +
  FromTS :: timestamp

record GCVersion =
  gvKey :: key
  gvTS :: timestamp
  gvBytes :: "64 word"

record GCRequest = RequestHeader +
  Threshold :: timestamp
  Versions :: "GCVersion list"
  TxnRecordKeys :: "key list"

record TruncateLogRequest = RequestHeader +
  tlIndex :: "64 word"
  tlTerm :: "64 word"

type_synonym AdminSplitRequest = RequestHeader

record AdminChangeReplicasRequest = RequestHeader +
  AddNode :: NodeID
  RemoveNode :: NodeID

record AdminTransferLeaseRequest = RequestHeader +
  Target :: NodeID

type_synonym AdminMergeRequest = RequestHeader

record SubsumeRequest = RequestHeader +
  MergeInto :: RangeID

type_synonym UnfreezeRequest = RequestHeader

record UpdateMetaRequest = RequestHeader +
  umDesc :: "RangeDescriptor option"
  IfRangeID :: RangeID
  IfGeneration :: "64 word"

text \<open>The values of the interface \<^verbatim>\<open>Request\<close>.\<close>

datatype Request =
    ReqGet GetRequest
  | ReqPut PutRequest
  | ReqDelete DeleteRequest
  | ReqIncrement IncrementRequest
  | ReqScan ScanRequest
  | ReqExport ExportRequest
  | ReqEndTxn EndTxnRequest
  | ReqHeartbeatTxn HeartbeatTxnRequest
  | ReqPushTxn PushTxnRequest
  | ReqResolveIntent ResolveIntentRequest
  | ReqRollbackIntent RollbackIntentRequest
  | ReqRecoverTxn RecoverTxnRequest
  | ReqRefresh RefreshRequest
  | ReqGC GCRequest
  | ReqTruncateLog TruncateLogRequest
  | ReqAdminSplit AdminSplitRequest
  | ReqAdminChangeReplicas AdminChangeReplicasRequest
  | ReqAdminTransferLease AdminTransferLeaseRequest
  | ReqAdminMerge AdminMergeRequest
  | ReqSubsume SubsumeRequest
  | ReqUnfreeze UnfreezeRequest
  | ReqUpdateMeta UpdateMetaRequest

record RequestUnion =
  uGet :: "GetRequest option"
  uPut :: "PutRequest option"
  uDelete :: "DeleteRequest option"
  uIncrement :: "IncrementRequest option"
  uScan :: "ScanRequest option"
  uExport :: "ExportRequest option"
  uEndTxn :: "EndTxnRequest option"
  uHeartbeatTxn :: "HeartbeatTxnRequest option"
  uPushTxn :: "PushTxnRequest option"
  uResolveIntent :: "ResolveIntentRequest option"
  uRollbackIntent :: "RollbackIntentRequest option"
  uRecoverTxn :: "RecoverTxnRequest option"
  uRefresh :: "RefreshRequest option"
  uGC :: "GCRequest option"
  uTruncateLog :: "TruncateLogRequest option"
  uAdminSplit :: "AdminSplitRequest option"
  uAdminChangeReplicas :: "AdminChangeReplicasRequest option"
  uAdminTransferLease :: "AdminTransferLeaseRequest option"
  uAdminMerge :: "AdminMergeRequest option"
  uSubsume :: "SubsumeRequest option"
  uUnfreeze :: "UnfreezeRequest option"
  uUpdateMeta :: "UpdateMetaRequest option"

definition empty_union :: RequestUnion where
  "empty_union = \<lparr>uGet = None, uPut = None, uDelete = None, uIncrement = None, uScan = None, uExport = None,
     uEndTxn = None, uHeartbeatTxn = None, uPushTxn = None, uResolveIntent = None, uRollbackIntent = None,
     uRecoverTxn = None, uRefresh = None, uGC = None, uTruncateLog = None, uAdminSplit = None,
     uAdminChangeReplicas = None, uAdminTransferLease = None, uAdminMerge = None, uSubsume = None,
     uUnfreeze = None, uUpdateMeta = None\<rparr>"

text \<open>The first field that is set, in the order of the switch.\<close>

definition or_else :: "'a option \<Rightarrow> 'a option \<Rightarrow> 'a option" where
  "or_else a b = (case a of None \<Rightarrow> b | Some x \<Rightarrow> Some x)"

definition GetInner :: "RequestUnion \<Rightarrow> Request option" where
  "GetInner u =
     or_else (map_option ReqGet (uGet u))
    (or_else (map_option ReqPut (uPut u))
    (or_else (map_option ReqDelete (uDelete u))
    (or_else (map_option ReqIncrement (uIncrement u))
    (or_else (map_option ReqScan (uScan u))
    (or_else (map_option ReqExport (uExport u))
    (or_else (map_option ReqEndTxn (uEndTxn u))
    (or_else (map_option ReqHeartbeatTxn (uHeartbeatTxn u))
    (or_else (map_option ReqPushTxn (uPushTxn u))
    (or_else (map_option ReqResolveIntent (uResolveIntent u))
    (or_else (map_option ReqRollbackIntent (uRollbackIntent u))
    (or_else (map_option ReqRecoverTxn (uRecoverTxn u))
    (or_else (map_option ReqRefresh (uRefresh u))
    (or_else (map_option ReqGC (uGC u))
    (or_else (map_option ReqTruncateLog (uTruncateLog u))
    (or_else (map_option ReqAdminSplit (uAdminSplit u))
    (or_else (map_option ReqAdminChangeReplicas (uAdminChangeReplicas u))
    (or_else (map_option ReqAdminTransferLease (uAdminTransferLease u))
    (or_else (map_option ReqAdminMerge (uAdminMerge u))
    (or_else (map_option ReqSubsume (uSubsume u))
    (or_else (map_option ReqUnfreeze (uUnfreeze u))
    (map_option ReqUpdateMeta (uUpdateMeta u))))))))))))))))))))))"

fun to_union :: "Request \<Rightarrow> RequestUnion" where
  "to_union (ReqGet r) = empty_union\<lparr>uGet := Some r\<rparr>"
| "to_union (ReqPut r) = empty_union\<lparr>uPut := Some r\<rparr>"
| "to_union (ReqDelete r) = empty_union\<lparr>uDelete := Some r\<rparr>"
| "to_union (ReqIncrement r) = empty_union\<lparr>uIncrement := Some r\<rparr>"
| "to_union (ReqScan r) = empty_union\<lparr>uScan := Some r\<rparr>"
| "to_union (ReqExport r) = empty_union\<lparr>uExport := Some r\<rparr>"
| "to_union (ReqEndTxn r) = empty_union\<lparr>uEndTxn := Some r\<rparr>"
| "to_union (ReqHeartbeatTxn r) = empty_union\<lparr>uHeartbeatTxn := Some r\<rparr>"
| "to_union (ReqPushTxn r) = empty_union\<lparr>uPushTxn := Some r\<rparr>"
| "to_union (ReqResolveIntent r) = empty_union\<lparr>uResolveIntent := Some r\<rparr>"
| "to_union (ReqRollbackIntent r) = empty_union\<lparr>uRollbackIntent := Some r\<rparr>"
| "to_union (ReqRecoverTxn r) = empty_union\<lparr>uRecoverTxn := Some r\<rparr>"
| "to_union (ReqRefresh r) = empty_union\<lparr>uRefresh := Some r\<rparr>"
| "to_union (ReqGC r) = empty_union\<lparr>uGC := Some r\<rparr>"
| "to_union (ReqTruncateLog r) = empty_union\<lparr>uTruncateLog := Some r\<rparr>"
| "to_union (ReqAdminSplit r) = empty_union\<lparr>uAdminSplit := Some r\<rparr>"
| "to_union (ReqAdminChangeReplicas r) = empty_union\<lparr>uAdminChangeReplicas := Some r\<rparr>"
| "to_union (ReqAdminTransferLease r) = empty_union\<lparr>uAdminTransferLease := Some r\<rparr>"
| "to_union (ReqAdminMerge r) = empty_union\<lparr>uAdminMerge := Some r\<rparr>"
| "to_union (ReqSubsume r) = empty_union\<lparr>uSubsume := Some r\<rparr>"
| "to_union (ReqUnfreeze r) = empty_union\<lparr>uUnfreeze := Some r\<rparr>"
| "to_union (ReqUpdateMeta r) = empty_union\<lparr>uUpdateMeta := Some r\<rparr>"

fun Header :: "Request \<Rightarrow> RequestHeader" where
  "Header (ReqGet r) = RequestHeader.truncate r"
| "Header (ReqPut r) = RequestHeader.truncate r"
| "Header (ReqDelete r) = r"
| "Header (ReqIncrement r) = RequestHeader.truncate r"
| "Header (ReqScan r) = RequestHeader.truncate r"
| "Header (ReqExport r) = RequestHeader.truncate r"
| "Header (ReqEndTxn r) = RequestHeader.truncate r"
| "Header (ReqHeartbeatTxn r) = RequestHeader.truncate r"
| "Header (ReqPushTxn r) = RequestHeader.truncate r"
| "Header (ReqResolveIntent r) = RequestHeader.truncate r"
| "Header (ReqRollbackIntent r) = RequestHeader.truncate r"
| "Header (ReqRecoverTxn r) = RequestHeader.truncate r"
| "Header (ReqRefresh r) = RequestHeader.truncate r"
| "Header (ReqGC r) = RequestHeader.truncate r"
| "Header (ReqTruncateLog r) = RequestHeader.truncate r"
| "Header (ReqAdminSplit r) = r"
| "Header (ReqAdminChangeReplicas r) = RequestHeader.truncate r"
| "Header (ReqAdminTransferLease r) = RequestHeader.truncate r"
| "Header (ReqAdminMerge r) = r"
| "Header (ReqSubsume r) = RequestHeader.truncate r"
| "Header (ReqUnfreeze r) = r"
| "Header (ReqUpdateMeta r) = RequestHeader.truncate r"

definition IsReadOnly :: "Request \<Rightarrow> bool" where
  "IsReadOnly r =
     (case r of ReqGet g \<Rightarrow> \<not> getForUpdate g | ReqScan s \<Rightarrow> \<not> scanForUpdate s | ReqExport _ \<Rightarrow> True
      | ReqPushTxn p \<Rightarrow> QueryOnly p | ReqRefresh _ \<Rightarrow> True | _ \<Rightarrow> False)"

section \<open>Batches\<close>

record BatchHeader =
  bTimestamp :: timestamp
  bTxn :: "Transaction option"
  bRangeID :: RangeID
  CreateTxnRecord :: bool
  ReadInconsistent :: bool
  StaleRead :: bool

record BatchRequest =
  baHeader :: BatchHeader
  Requests :: "RequestUnion list"

definition Batch_IsReadOnly :: "BatchRequest \<Rightarrow> bool" where
  "Batch_IsReadOnly b = list_all (\<lambda>u. case GetInner u of None \<Rightarrow> False | Some r \<Rightarrow> IsReadOnly r) (Requests b)"

definition is_mvcc_write :: "Request \<Rightarrow> bool" where
  "is_mvcc_write r =
     (case r of ReqPut _ \<Rightarrow> True | ReqDelete _ \<Rightarrow> True | ReqIncrement _ \<Rightarrow> True | ReqUpdateMeta _ \<Rightarrow> True
      | ReqGet g \<Rightarrow> getForUpdate g | ReqScan s \<Rightarrow> scanForUpdate s | _ \<Rightarrow> False)"

definition HasMVCCWrites :: "BatchRequest \<Rightarrow> bool" where
  "HasMVCCWrites b = list_ex (\<lambda>u. case GetInner u of None \<Rightarrow> False | Some r \<Rightarrow> is_mvcc_write r) (Requests b)"

definition Batch_Add :: "Request \<Rightarrow> BatchRequest \<Rightarrow> BatchRequest" where
  "Batch_Add r b = b\<lparr>Requests := Requests b @ [to_union r]\<rparr>"

record ExportRecord =
  xrKey :: key
  xrValue :: nbytes
  xrDeleted :: bool

record EndTxnResponse =
  CommitTimestamp :: timestamp
  OnePhase :: bool

record PushTxnResponse =
  prStatus :: TxnStatus
  prCommitTS :: timestamp
  prWaitingFor :: uuid
  prWaitingForKey :: key
  prPriority :: "32 word"
  prInFlightKeys :: "key list"

datatype ResponseUnion =
    RespGet nbytes
  | RespPut
  | RespDelete
  | RespIncrement "64 word"
  | RespScan "(key \<times> nbytes) list" key
  | RespExport "ExportRecord list" key
  | RespEndTxn EndTxnResponse
  | RespHeartbeatTxn TxnStatus
  | RespPushTxn PushTxnResponse
  | RespResolveIntent
  | RespRollbackIntent
  | RespRecoverTxn TxnStatus
  | RespRefresh
  | RespGC
  | RespTruncateLog
  | RespAdminSplit RangeDescriptor RangeDescriptor
  | RespAdminChangeReplicas RangeDescriptor
  | RespAdminTransferLease RangeDescriptor
  | RespAdminMerge RangeDescriptor
  | RespSubsume
  | RespUnfreeze
  | RespUpdateMeta bool

record BatchResponse =
  brTxn :: "Transaction option"
  brTimestamp :: timestamp
  Responses :: "ResponseUnion list"

section \<open>Errors\<close>

record Error =
  Message :: string
  NotLeader :: "(RangeID \<times> NodeID) option"
  RangeNotFound :: "RangeID option"
  RangeKeyMismatch :: "(key \<times> RangeDescriptor list) option"
  eWriteIntent :: "Intent list option"
  eWriteTooOld :: "(timestamp \<times> timestamp) option"
  eUncertainty :: "(timestamp \<times> timestamp) option"
  TxnAborted :: bool
  TxnRetry :: "timestamp option"
  TxnNotFound :: bool
  Ambiguous :: bool
  StorageOverloaded :: bool

definition NewErrorf :: "string \<Rightarrow> Error" where
  "NewErrorf msg = \<lparr>Message = msg, NotLeader = None, RangeNotFound = None, RangeKeyMismatch = None,
     eWriteIntent = None, eWriteTooOld = None, eUncertainty = None, TxnAborted = False, TxnRetry = None,
     TxnNotFound = False, Ambiguous = False, StorageOverloaded = False\<rparr>"

definition error_text :: "mvcc_error \<Rightarrow> string" where
  "error_text e = (case e of WriteIntentError _ \<Rightarrow> ''conflicting intents''
     | WriteTooOldError _ _ \<Rightarrow> ''write too old'' | UncertaintyError _ _ \<Rightarrow> ''uncertainty''
     | _ \<Rightarrow> ''storage'')"

definition NewError :: "mvcc_error \<Rightarrow> Error" where
  "NewError err =
     (let e = NewErrorf (error_text err)
      in case err of
           WriteIntentError is \<Rightarrow> e\<lparr>eWriteIntent := Some is\<rparr>
         | WriteTooOldError t a \<Rightarrow> e\<lparr>eWriteTooOld := Some (t, a)\<rparr>
         | UncertaintyError r x \<Rightarrow> e\<lparr>eUncertainty := Some (r, x)\<rparr>
         | _ \<Rightarrow> e)"

definition IsRetryableTxnError :: "Error \<Rightarrow> bool" where
  "IsRetryableTxnError e \<longleftrightarrow>
     eWriteTooOld e \<noteq> None \<or> eUncertainty e \<noteq> None \<or> TxnRetry e \<noteq> None \<or> TxnAborted e"

definition RetryTimestamp :: "timestamp \<Rightarrow> Error \<Rightarrow> timestamp" where
  "RetryTimestamp fallback e =
     (case eWriteTooOld e of Some (_, actual) \<Rightarrow> Forward fallback actual
      | None \<Rightarrow> (case eUncertainty e of Some (_, existing) \<Rightarrow> Forward fallback (Next existing)
      | None \<Rightarrow> (case TxnRetry e of Some retry \<Rightarrow> Forward fallback retry
      | None \<Rightarrow> fallback)))"

section \<open>Unions\<close>

lemma or_else_simps [simp]: "or_else None b = b" "or_else (Some x) b = Some x"
  by (simp_all add: or_else_def)

lemma GetInner_to_union [simp]: "GetInner (to_union r) = Some r"
  by (cases r) (simp_all add: GetInner_def empty_union_def)

lemma RetryTimestamp_ge: "fallback \<le> RetryTimestamp fallback e"
  by (auto simp: RetryTimestamp_def split: option.splits)

lemma truncate_simps [simp]:
  "rKey (RequestHeader.truncate r) = rKey r" "rEndKey (RequestHeader.truncate r) = rEndKey r"
  by (simp_all add: RequestHeader.truncate_def)

end
