(* ===== verification/Kvpb_Proto.thy ===== *)
theory Kvpb_Proto
  imports Kvpb
begin

text \<open>
  The wire and storage encodings of the KV API (\<^verbatim>\<open>src/pkg/kvpb/proto.go\<close>): the converters
  between the API types and their protobuf messages (\<^verbatim>\<open>src/proto/datax/v1/kv.proto\<close>), and the
  stored form of a transaction record. A message pointer is an option; the oneof of a union
  is a datatype with the fields of each message flattened, \<open>PbNoRequest\<close> and \<open>PbNoResponse\<close>
  for one that is not set. The status fields hold the four values of the enumeration. The
  marshallers of \<^verbatim>\<open>encoding/json\<close> and \<^verbatim>\<open>google.golang.org/protobuf\<close> are the parameters
  \<open>kv_codec\<close>, with their documented round trip as \<open>kv_codec_ok\<close>.
\<close>

section \<open>Messages\<close>

record pb_Transaction =
  ptMeta :: "pb_TxnMeta option"
  ptName :: string
  ptStatus :: TxnStatus
  ptReadTimestamp :: "pb_Hlc option"
  ptLastHeartbeat :: "pb_Hlc option"
  ptIntentKeys :: "bytes list"
  ptWaitingFor :: bytes
  ptWaitingForKey :: bytes
  ptInFlightKeys :: "bytes list"

record pb_ReplicaDescriptor =
  prNodeId :: "64 word"
  prStoreId :: "64 word"
  prReplicaId :: "64 word"

record pb_RangeDescriptor =
  pdRangeId :: "64 word"
  pdStartKey :: bytes
  pdEndKey :: bytes
  pdReplicas :: "pb_ReplicaDescriptor list"
  pdNextReplicaId :: "64 word"
  pdGeneration :: "64 word"

record pb_RequestHeader =
  phKey :: bytes
  phEndKey :: bytes

record pb_GcVersion =
  pgKey :: bytes
  pgTs :: "pb_Hlc option"
  pgBytesSize :: "64 word"

record kv_codec =
  jsonTxn :: "Transaction \<Rightarrow> io_error + bytes"
  unjsonTxn :: "bytes \<Rightarrow> io_error + Transaction"
  protoTxn :: "pb_Transaction \<Rightarrow> io_error + bytes"
  unprotoTxn :: "bytes \<Rightarrow> io_error + pb_Transaction"
  jsonDesc :: "RangeDescriptor \<Rightarrow> io_error + bytes"
  unjsonDesc :: "bytes \<Rightarrow> io_error + RangeDescriptor"

datatype kv_proto_error = PUuid proto_error | PCodec io_error | PJson io_error | EmptyRecord
  | Unencodable | Undecodable

definition from_uuid :: "bytes \<Rightarrow> kv_proto_error + uuid" where
  "from_uuid b = (case UUIDFromProto b of Inl e \<Rightarrow> Inl (PUuid e) | Inr i \<Rightarrow> Inr i)"

definition from_meta :: "pb_TxnMeta option \<Rightarrow> kv_proto_error + TxnMeta" where
  "from_meta p = (case TxnMetaFromProto p of Inl e \<Rightarrow> Inl (PUuid e) | Inr m \<Rightarrow> Inr m)"

section \<open>Transactions and descriptors\<close>

definition txnToProto :: "Transaction option \<Rightarrow> pb_Transaction option" where
  "txnToProto t =
     (case t of None \<Rightarrow> None
      | Some t \<Rightarrow> Some
          \<lparr>ptMeta = Some (TxnMetaToProto (TxnMeta.truncate t)), ptName = Name t, ptStatus = Status t,
           ptReadTimestamp = TimestampToProto (ReadTimestamp t),
           ptLastHeartbeat = TimestampToProto (LastHeartbeat t), ptIntentKeys = IntentKeys t,
           ptWaitingFor = UUIDToProto (WaitingFor t), ptWaitingForKey = WaitingForKey t,
           ptInFlightKeys = InFlightKeys t\<rparr>)"

definition with_meta :: "TxnMeta \<Rightarrow> string \<Rightarrow> TxnStatus \<Rightarrow> timestamp \<Rightarrow> timestamp \<Rightarrow> key list \<Rightarrow> uuid \<Rightarrow> key \<Rightarrow> key list \<Rightarrow> Transaction" where
  "with_meta m n st rts hb iks w wk fks = TxnMeta.extend m (Transaction.fields n st rts hb iks w wk fks)"

definition txnFromProto :: "pb_Transaction option \<Rightarrow> kv_proto_error + Transaction option" where
  "txnFromProto p =
     (case p of None \<Rightarrow> Inr None
      | Some p \<Rightarrow>
          res_bind (from_meta (ptMeta p)) (\<lambda>m.
          res_bind (from_uuid (ptWaitingFor p)) (\<lambda>w.
            Inr (Some (with_meta m (ptName p) (ptStatus p) (TimestampFromProto (ptReadTimestamp p))
              (TimestampFromProto (ptLastHeartbeat p)) (ptIntentKeys p) w (ptWaitingForKey p)
              (ptInFlightKeys p))))))"

definition MarshalTxnRecord :: "kv_codec \<Rightarrow> Transaction \<Rightarrow> io_error + bytes" where
  "MarshalTxnRecord K t =
     (if BinaryMeta t then protoTxn K (the (txnToProto (Some t))) else jsonTxn K t)"

definition UnmarshalTxnRecord :: "kv_codec \<Rightarrow> bytes \<Rightarrow> kv_proto_error + Transaction" where
  "UnmarshalTxnRecord K raw =
     (case raw of [] \<Rightarrow> Inl EmptyRecord
      | b # _ \<Rightarrow>
          if b = open_brace then (case unjsonTxn K raw of Inl e \<Rightarrow> Inl (PCodec e) | Inr t \<Rightarrow> Inr t)
          else (case unprotoTxn K raw of Inl e \<Rightarrow> Inl (PCodec e)
                | Inr p \<Rightarrow> (case txnFromProto (Some p) of Inl e \<Rightarrow> Inl e | Inr t \<Rightarrow> Inr (the t))))"

definition RangeDescriptorToProto :: "RangeDescriptor \<Rightarrow> pb_RangeDescriptor" where
  "RangeDescriptorToProto d =
     \<lparr>pdRangeId = dRangeID d, pdStartKey = StartKey d, pdEndKey = EndKey d,
      pdReplicas = map (\<lambda>r. \<lparr>prNodeId = scast (rdNodeID r), prStoreId = scast (rdStoreID r),
        prReplicaId = scast (rdReplicaID r)\<rparr>) (Replicas d),
      pdNextReplicaId = scast (NextReplicaID d), pdGeneration = Generation d\<rparr>"

definition zero_desc :: RangeDescriptor where
  "zero_desc = \<lparr>dRangeID = 0, StartKey = [], EndKey = [], Replicas = [], NextReplicaID = 0, Generation = 0\<rparr>"

definition RangeDescriptorFromProto :: "pb_RangeDescriptor option \<Rightarrow> RangeDescriptor" where
  "RangeDescriptorFromProto p =
     (case p of None \<Rightarrow> zero_desc
      | Some p \<Rightarrow>
          \<lparr>dRangeID = pdRangeId p, StartKey = pdStartKey p, EndKey = pdEndKey p,
           Replicas = map (\<lambda>r. \<lparr>rdNodeID = ucast (prNodeId r), rdStoreID = ucast (prStoreId r),
             rdReplicaID = ucast (prReplicaId r)\<rparr>) (pdReplicas p),
           NextReplicaID = ucast (pdNextReplicaId p), Generation = pdGeneration p\<rparr>)"

section \<open>Requests\<close>

definition reqHeaderToProto :: "RequestHeader \<Rightarrow> pb_RequestHeader option" where
  "reqHeaderToProto h = Some \<lparr>phKey = rKey h, phEndKey = rEndKey h\<rparr>"

definition reqHeaderFromProto :: "pb_RequestHeader option \<Rightarrow> RequestHeader" where
  "reqHeaderFromProto p =
     (case p of None \<Rightarrow> \<lparr>rKey = [], rEndKey = []\<rparr> | Some p \<Rightarrow> \<lparr>rKey = phKey p, rEndKey = phEndKey p\<rparr>)"

abbreviation hKey :: "pb_RequestHeader option \<Rightarrow> key" where
  "hKey h \<equiv> rKey (reqHeaderFromProto h)"

abbreviation hEndKey :: "pb_RequestHeader option \<Rightarrow> key" where
  "hEndKey h \<equiv> rEndKey (reqHeaderFromProto h)"

definition GcVersionToProto :: "GCVersion \<Rightarrow> pb_GcVersion" where
  "GcVersionToProto v = \<lparr>pgKey = gvKey v, pgTs = TimestampToProto (gvTS v), pgBytesSize = gvBytes v\<rparr>"

definition GcVersionFromProto :: "pb_GcVersion \<Rightarrow> GCVersion" where
  "GcVersionFromProto v = \<lparr>gvKey = pgKey v, gvTS = TimestampFromProto (pgTs v), gvBytes = pgBytesSize v\<rparr>"

datatype pb_RequestUnion =
    PbGet "pb_RequestHeader option" bool
  | PbPut "pb_RequestHeader option" nbytes
  | PbDelete "pb_RequestHeader option"
  | PbIncrement "pb_RequestHeader option" "64 word"
  | PbScan "pb_RequestHeader option" "64 word" bool bool
  | PbExport "pb_RequestHeader option" "pb_Hlc option" "64 word"
  | PbEndTxn "pb_RequestHeader option" bool "bytes list" "bytes list" bool
  | PbHeartbeatTxn "pb_RequestHeader option" "pb_Hlc option" bytes bytes
  | PbPushTxn "pb_RequestHeader option" "pb_Transaction option" "pb_TxnMeta option" bool "pb_Hlc option" bool bool
  | PbResolveIntent "pb_RequestHeader option" bytes TxnStatus "pb_Hlc option"
  | PbRollbackIntent "pb_RequestHeader option" bytes "32 word"
  | PbRecoverTxn "pb_RequestHeader option" bytes bool
  | PbRefresh "pb_RequestHeader option" "pb_Hlc option"
  | PbGC "pb_RequestHeader option" "pb_Hlc option" "pb_GcVersion list" "bytes list"
  | PbTruncateLog "pb_RequestHeader option" "64 word" "64 word"
  | PbAdminSplit "pb_RequestHeader option"
  | PbAdminChangeReplicas "pb_RequestHeader option" "64 word" "64 word"
  | PbAdminTransferLease "pb_RequestHeader option" "64 word"
  | PbAdminMerge "pb_RequestHeader option"
  | PbSubsume "pb_RequestHeader option" "64 word"
  | PbUnfreeze "pb_RequestHeader option"
  | PbUpdateMeta "pb_RequestHeader option" bytes "64 word" "64 word"
  | PbNoRequest

fun request_to_proto :: "kv_codec \<Rightarrow> Request \<Rightarrow> kv_proto_error +
         pb_RequestUnion" where
  "request_to_proto J (ReqGet r) = Inr (PbGet (reqHeaderToProto (RequestHeader.truncate r))
         (getForUpdate r))"
| "request_to_proto J (ReqPut r) = Inr (PbPut (reqHeaderToProto (RequestHeader.truncate r))
         (putValue r))"
| "request_to_proto J (ReqDelete r) = Inr (PbDelete (reqHeaderToProto r))"
| "request_to_proto J (ReqIncrement r) = Inr (PbIncrement (reqHeaderToProto (RequestHeader.truncate
         r)) (incBy r))"
| "request_to_proto J (ReqScan r) = Inr (PbScan (reqHeaderToProto (RequestHeader.truncate r))
         (MaxRows r) (scanForUpdate r) (Reverse r))"
| "request_to_proto J (ReqExport r) = Inr (PbExport (reqHeaderToProto (RequestHeader.truncate r))
         (TimestampToProto (expStartTS r)) (MaxRecords r))"
| "request_to_proto J (ReqEndTxn r) = Inr (PbEndTxn (reqHeaderToProto (RequestHeader.truncate r))
         (Commit r) (etIntentKeys r) (InFlight r) (etAll r))"
| "request_to_proto J (ReqHeartbeatTxn r) = Inr (PbHeartbeatTxn (reqHeaderToProto
         (RequestHeader.truncate r)) (TimestampToProto (hbNow r)) (UUIDToProto (hbWaitingFor r))
         (hbWaitingForKey r))"
| "request_to_proto J (ReqPushTxn r) = Inr (PbPushTxn (reqHeaderToProto (RequestHeader.truncate r))
         (txnToProto (PusherTxn r)) (Some (TxnMetaToProto (PusheeTxn r))) (PushAbort r)
         (TimestampToProto (puNow r)) (QueryOnly r) (ForceAbort r))"
| "request_to_proto J (ReqResolveIntent r) = Inr (PbResolveIntent (reqHeaderToProto
         (RequestHeader.truncate r)) (UUIDToProto (riTxnID r)) (riStatus r) (TimestampToProto
         (riCommitTS r)))"
| "request_to_proto J (ReqRollbackIntent r) = Inr (PbRollbackIntent (reqHeaderToProto
         (RequestHeader.truncate r)) (UUIDToProto (rbTxnID r)) (rbSequence r))"
| "request_to_proto J (ReqRecoverTxn r) = Inr (PbRecoverTxn (reqHeaderToProto
         (RequestHeader.truncate r)) (UUIDToProto (rcTxnID r)) (rcCommit r))"
| "request_to_proto J (ReqRefresh r) = Inr (PbRefresh (reqHeaderToProto (RequestHeader.truncate r))
         (TimestampToProto (FromTS r)))"
| "request_to_proto J (ReqGC r) = Inr (PbGC (reqHeaderToProto (RequestHeader.truncate r))
         (TimestampToProto (Threshold r)) (map GcVersionToProto (Versions r)) (TxnRecordKeys r))"
| "request_to_proto J (ReqTruncateLog r) = Inr (PbTruncateLog (reqHeaderToProto
         (RequestHeader.truncate r)) (tlIndex r) (tlTerm r))"
| "request_to_proto J (ReqAdminSplit r) = Inr (PbAdminSplit (reqHeaderToProto r))"
| "request_to_proto J (ReqAdminChangeReplicas r) = Inr (PbAdminChangeReplicas (reqHeaderToProto
         (RequestHeader.truncate r)) (scast (AddNode r)) (scast (RemoveNode r)))"
| "request_to_proto J (ReqAdminTransferLease r) = Inr (PbAdminTransferLease (reqHeaderToProto
         (RequestHeader.truncate r)) (scast (Target r)))"
| "request_to_proto J (ReqAdminMerge r) = Inr (PbAdminMerge (reqHeaderToProto r))"
| "request_to_proto J (ReqSubsume r) = Inr (PbSubsume (reqHeaderToProto (RequestHeader.truncate r))
         (MergeInto r))"
| "request_to_proto J (ReqUnfreeze r) = Inr (PbUnfreeze (reqHeaderToProto r))"
| "request_to_proto J (ReqUpdateMeta r) =
     res_bind (case umDesc r of None \<Rightarrow> Inr []
       | Some d \<Rightarrow> (case jsonDesc J d of Inl e \<Rightarrow> Inl (PJson e) | Inr b
         \<Rightarrow> Inr b))
     (\<lambda>desc. Inr (PbUpdateMeta (reqHeaderToProto (RequestHeader.truncate r)) desc
         (IfRangeID r) (IfGeneration r)))"

text \<open>\<open>GetInner\<close> selects the request; a union with none is refused.\<close>

definition requestUnionToProto :: "kv_codec \<Rightarrow> RequestUnion \<Rightarrow> kv_proto_error + pb_RequestUnion" where
  "requestUnionToProto J u =
     (case GetInner u of None \<Rightarrow> Inl Unencodable | Some r \<Rightarrow> request_to_proto J r)"

fun requestUnionFromProto :: "kv_codec \<Rightarrow> pb_RequestUnion \<Rightarrow> kv_proto_error +
         RequestUnion" where
  "requestUnionFromProto J (PbGet h fu) =
     Inr (empty_union\<lparr>uGet := Some
       \<lparr>rKey = hKey h, rEndKey = hEndKey h, getForUpdate = fu\<rparr>\<rparr>)"
| "requestUnionFromProto J (PbPut h v) =
     Inr (empty_union\<lparr>uPut := Some
       \<lparr>rKey = hKey h, rEndKey = hEndKey h, putValue = v\<rparr>\<rparr>)"
| "requestUnionFromProto J (PbDelete h) =
     Inr (empty_union\<lparr>uDelete := Some
       \<lparr>rKey = hKey h, rEndKey = hEndKey h\<rparr>\<rparr>)"
| "requestUnionFromProto J (PbIncrement h by) =
     Inr (empty_union\<lparr>uIncrement := Some
       \<lparr>rKey = hKey h, rEndKey = hEndKey h, incBy = by\<rparr>\<rparr>)"
| "requestUnionFromProto J (PbScan h m fu rv) =
     Inr (empty_union\<lparr>uScan := Some
       \<lparr>rKey = hKey h, rEndKey = hEndKey h, MaxRows = m, scanForUpdate = fu, Reverse =
         rv\<rparr>\<rparr>)"
| "requestUnionFromProto J (PbExport h s m) =
     Inr (empty_union\<lparr>uExport := Some
       \<lparr>rKey = hKey h, rEndKey = hEndKey h, expStartTS = TimestampFromProto s, MaxRecords =
         m\<rparr>\<rparr>)"
| "requestUnionFromProto J (PbEndTxn h c ik fl a) =
     Inr (empty_union\<lparr>uEndTxn := Some
       \<lparr>rKey = hKey h, rEndKey = hEndKey h, Commit = c, etIntentKeys = ik, InFlight = fl,
         etAll = a\<rparr>\<rparr>)"
| "requestUnionFromProto J (PbHeartbeatTxn h n w wk) =
     res_bind (from_uuid w) (\<lambda>w. Inr (empty_union\<lparr>uHeartbeatTxn := Some
       \<lparr>rKey = hKey h, rEndKey = hEndKey h, hbNow = TimestampFromProto n, hbWaitingFor = w,
         hbWaitingForKey = wk\<rparr>\<rparr>))"
| "requestUnionFromProto J (PbPushTxn h pt pm pa n q fa) =
     res_bind (txnFromProto pt) (\<lambda>pt. res_bind (from_meta pm) (\<lambda>pm. Inr
         (empty_union\<lparr>uPushTxn := Some
       \<lparr>rKey = hKey h, rEndKey = hEndKey h, PusherTxn = pt, PusheeTxn = pm, PushAbort = pa,
         puNow = TimestampFromProto n, QueryOnly = q, ForceAbort = fa\<rparr>\<rparr>)))"
| "requestUnionFromProto J (PbResolveIntent h i st ct) =
     res_bind (from_uuid i) (\<lambda>i. Inr (empty_union\<lparr>uResolveIntent := Some
       \<lparr>rKey = hKey h, rEndKey = hEndKey h, riTxnID = i, riStatus = st, riCommitTS =
         TimestampFromProto ct\<rparr>\<rparr>))"
| "requestUnionFromProto J (PbRollbackIntent h i sq) =
     res_bind (from_uuid i) (\<lambda>i. Inr (empty_union\<lparr>uRollbackIntent := Some
       \<lparr>rKey = hKey h, rEndKey = hEndKey h, rbTxnID = i, rbSequence = sq\<rparr>\<rparr>))"
| "requestUnionFromProto J (PbRecoverTxn h i c) =
     res_bind (from_uuid i) (\<lambda>i. Inr (empty_union\<lparr>uRecoverTxn := Some
       \<lparr>rKey = hKey h, rEndKey = hEndKey h, rcTxnID = i, rcCommit = c\<rparr>\<rparr>))"
| "requestUnionFromProto J (PbRefresh h f) =
     Inr (empty_union\<lparr>uRefresh := Some
       \<lparr>rKey = hKey h, rEndKey = hEndKey h, FromTS = TimestampFromProto f\<rparr>\<rparr>)"
| "requestUnionFromProto J (PbGC h t vs ks) =
     Inr (empty_union\<lparr>uGC := Some
       \<lparr>rKey = hKey h, rEndKey = hEndKey h, Threshold = TimestampFromProto t, Versions = map
         GcVersionFromProto vs, TxnRecordKeys = ks\<rparr>\<rparr>)"
| "requestUnionFromProto J (PbTruncateLog h i t) =
     Inr (empty_union\<lparr>uTruncateLog := Some
       \<lparr>rKey = hKey h, rEndKey = hEndKey h, tlIndex = i, tlTerm = t\<rparr>\<rparr>)"
| "requestUnionFromProto J (PbAdminSplit h) =
     Inr (empty_union\<lparr>uAdminSplit := Some
       \<lparr>rKey = hKey h, rEndKey = hEndKey h\<rparr>\<rparr>)"
| "requestUnionFromProto J (PbAdminChangeReplicas h a d) =
     Inr (empty_union\<lparr>uAdminChangeReplicas := Some
       \<lparr>rKey = hKey h, rEndKey = hEndKey h, AddNode = ucast a, RemoveNode = ucast
         d\<rparr>\<rparr>)"
| "requestUnionFromProto J (PbAdminTransferLease h t) =
     Inr (empty_union\<lparr>uAdminTransferLease := Some
       \<lparr>rKey = hKey h, rEndKey = hEndKey h, Target = ucast t\<rparr>\<rparr>)"
| "requestUnionFromProto J (PbAdminMerge h) =
     Inr (empty_union\<lparr>uAdminMerge := Some
       \<lparr>rKey = hKey h, rEndKey = hEndKey h\<rparr>\<rparr>)"
| "requestUnionFromProto J (PbSubsume h m) =
     Inr (empty_union\<lparr>uSubsume := Some
       \<lparr>rKey = hKey h, rEndKey = hEndKey h, MergeInto = m\<rparr>\<rparr>)"
| "requestUnionFromProto J (PbUnfreeze h) =
     Inr (empty_union\<lparr>uUnfreeze := Some
       \<lparr>rKey = hKey h, rEndKey = hEndKey h\<rparr>\<rparr>)"
| "requestUnionFromProto J (PbUpdateMeta h d ir ig) =
     res_bind (if d = [] then Inr None else case unjsonDesc J d of Inl e \<Rightarrow> Inl (PJson
         e) | Inr x \<Rightarrow> Inr (Some x))
     (\<lambda>d. Inr (empty_union\<lparr>uUpdateMeta := Some
       \<lparr>rKey = hKey h, rEndKey = hEndKey h, umDesc = d, IfRangeID = ir, IfGeneration =
         ig\<rparr>\<rparr>))"
| "requestUnionFromProto J PbNoRequest = Inl Undecodable"

fun res_map :: "('a \<Rightarrow> 'e + 'b) \<Rightarrow> 'a list \<Rightarrow> 'e + 'b list" where
  "res_map f [] = Inr []"
| "res_map f (x # xs) = res_bind (f x) (\<lambda>y. res_bind (res_map f xs) (\<lambda>ys. Inr (y # ys)))"

record pb_BatchHeader =
  pbhTimestamp :: "pb_Hlc option"
  pbhTxn :: "pb_Transaction option"
  pbhRangeId :: "64 word"
  pbhCreateTxnRecord :: bool
  pbhReadInconsistent :: bool
  pbhStaleRead :: bool

record pb_BatchRequest =
  pbHeader :: "pb_BatchHeader option"
  pbRequests :: "pb_RequestUnion list"

text \<open>An error here is the panic of the source.\<close>

definition BatchRequestToProto :: "kv_codec \<Rightarrow> BatchRequest \<Rightarrow> kv_proto_error + pb_BatchRequest" where
  "BatchRequestToProto J b =
     res_bind (res_map (requestUnionToProto J) (Requests b)) (\<lambda>rs. Inr
       \<lparr>pbHeader = Some
          \<lparr>pbhTimestamp = TimestampToProto (bTimestamp (baHeader b)), pbhTxn = txnToProto (bTxn (baHeader b)),
           pbhRangeId = bRangeID (baHeader b), pbhCreateTxnRecord = CreateTxnRecord (baHeader b),
           pbhReadInconsistent = ReadInconsistent (baHeader b), pbhStaleRead = StaleRead (baHeader b)\<rparr>,
        pbRequests = rs\<rparr>)"

definition zero_header :: BatchHeader where
  "zero_header = \<lparr>bTimestamp = zero_ts, bTxn = None, bRangeID = 0, CreateTxnRecord = False,
     ReadInconsistent = False, StaleRead = False\<rparr>"

definition BatchRequestFromProto :: "kv_codec \<Rightarrow> pb_BatchRequest \<Rightarrow> kv_proto_error + BatchRequest" where
  "BatchRequestFromProto J pb =
     res_bind (case pbHeader pb of None \<Rightarrow> Inr zero_header
       | Some h \<Rightarrow> res_bind (txnFromProto (pbhTxn h)) (\<lambda>txn. Inr
           \<lparr>bTimestamp = TimestampFromProto (pbhTimestamp h), bTxn = txn, bRangeID = pbhRangeId h,
            CreateTxnRecord = pbhCreateTxnRecord h, ReadInconsistent = pbhReadInconsistent h,
            StaleRead = pbhStaleRead h\<rparr>)) (\<lambda>hd.
     res_bind (res_map (requestUnionFromProto J) (pbRequests pb)) (\<lambda>rs.
       Inr \<lparr>baHeader = hd, Requests = rs\<rparr>))"

section \<open>Responses\<close>

datatype pb_ResponseUnion =
    PrGet nbytes bool
  | PrPut
  | PrDelete
  | PrIncrement "64 word"
  | PrScan "(bytes \<times> nbytes) list" bytes
  | PrExport "(bytes \<times> nbytes \<times> bool) list" bytes
  | PrEndTxn "pb_Hlc option" bool
  | PrHeartbeatTxn TxnStatus
  | PrPushTxn TxnStatus "pb_Hlc option" bytes bytes "32 word" "bytes list"
  | PrResolveIntent
  | PrRollbackIntent
  | PrRecoverTxn TxnStatus
  | PrRefresh
  | PrGC
  | PrTruncateLog
  | PrAdminSplit "pb_RangeDescriptor option" "pb_RangeDescriptor option"
  | PrAdminChangeReplicas "pb_RangeDescriptor option"
  | PrAdminTransferLease "pb_RangeDescriptor option"
  | PrAdminMerge "pb_RangeDescriptor option"
  | PrSubsume
  | PrUnfreeze
  | PrUpdateMeta bool
  | PbNoResponse

fun responseUnionToProto :: "ResponseUnion \<Rightarrow> pb_ResponseUnion" where
  "responseUnionToProto (RespGet v) = PrGet v (v \<noteq> None)"
| "responseUnionToProto RespPut = PrPut"
| "responseUnionToProto RespDelete = PrDelete"
| "responseUnionToProto (RespIncrement n) = PrIncrement n"
| "responseUnionToProto (RespScan rows resume) = PrScan (map (\<lambda>(k, v). (k, v)) rows) resume"
| "responseUnionToProto (RespExport rs resume) =
     PrExport (map (\<lambda>r. (xrKey r, xrValue r, xrDeleted r)) rs) resume"
| "responseUnionToProto (RespEndTxn r) = PrEndTxn (TimestampToProto (CommitTimestamp r)) (OnePhase r)"
| "responseUnionToProto (RespHeartbeatTxn st) = PrHeartbeatTxn st"
| "responseUnionToProto (RespPushTxn r) =
     PrPushTxn (prStatus r) (TimestampToProto (prCommitTS r)) (UUIDToProto (prWaitingFor r))
       (prWaitingForKey r) (prPriority r) (prInFlightKeys r)"
| "responseUnionToProto RespResolveIntent = PrResolveIntent"
| "responseUnionToProto RespRollbackIntent = PrRollbackIntent"
| "responseUnionToProto (RespRecoverTxn st) = PrRecoverTxn st"
| "responseUnionToProto RespRefresh = PrRefresh"
| "responseUnionToProto RespGC = PrGC"
| "responseUnionToProto RespTruncateLog = PrTruncateLog"
| "responseUnionToProto (RespAdminSplit l r) =
     PrAdminSplit (Some (RangeDescriptorToProto l)) (Some (RangeDescriptorToProto r))"
| "responseUnionToProto (RespAdminChangeReplicas d) = PrAdminChangeReplicas (Some (RangeDescriptorToProto d))"
| "responseUnionToProto (RespAdminTransferLease d) = PrAdminTransferLease (Some (RangeDescriptorToProto d))"
| "responseUnionToProto (RespAdminMerge d) = PrAdminMerge (Some (RangeDescriptorToProto d))"
| "responseUnionToProto RespSubsume = PrSubsume"
| "responseUnionToProto RespUnfreeze = PrUnfreeze"
| "responseUnionToProto (RespUpdateMeta a) = PrUpdateMeta a"

fun responseUnionFromProto :: "pb_ResponseUnion \<Rightarrow> kv_proto_error + ResponseUnion" where
  "responseUnionFromProto (PrGet v found) =
     Inr (RespGet (if \<not> found then None else if v = None then Some [] else v))"
| "responseUnionFromProto PrPut = Inr RespPut"
| "responseUnionFromProto PrDelete = Inr RespDelete"
| "responseUnionFromProto (PrIncrement n) = Inr (RespIncrement n)"
| "responseUnionFromProto (PrScan rows resume) = Inr (RespScan (map (\<lambda>(k, v). (k, v)) rows) resume)"
| "responseUnionFromProto (PrExport rs resume) =
     Inr (RespExport (map (\<lambda>(k, v, d). \<lparr>xrKey = k, xrValue = v, xrDeleted = d\<rparr>) rs) resume)"
| "responseUnionFromProto (PrEndTxn ts one) =
     Inr (RespEndTxn \<lparr>CommitTimestamp = TimestampFromProto ts, OnePhase = one\<rparr>)"
| "responseUnionFromProto (PrHeartbeatTxn st) = Inr (RespHeartbeatTxn st)"
| "responseUnionFromProto (PrPushTxn st ts w wk pr fk) =
     res_bind (from_uuid w) (\<lambda>w. Inr (RespPushTxn
       \<lparr>prStatus = st, prCommitTS = TimestampFromProto ts, prWaitingFor = w, prWaitingForKey = wk,
        prPriority = pr, prInFlightKeys = fk\<rparr>))"
| "responseUnionFromProto PrResolveIntent = Inr RespResolveIntent"
| "responseUnionFromProto PrRollbackIntent = Inr RespRollbackIntent"
| "responseUnionFromProto (PrRecoverTxn st) = Inr (RespRecoverTxn st)"
| "responseUnionFromProto PrRefresh = Inr RespRefresh"
| "responseUnionFromProto PrGC = Inr RespGC"
| "responseUnionFromProto PrTruncateLog = Inr RespTruncateLog"
| "responseUnionFromProto (PrAdminSplit l r) =
     Inr (RespAdminSplit (RangeDescriptorFromProto l) (RangeDescriptorFromProto r))"
| "responseUnionFromProto (PrAdminChangeReplicas d) = Inr (RespAdminChangeReplicas (RangeDescriptorFromProto d))"
| "responseUnionFromProto (PrAdminTransferLease d) = Inr (RespAdminTransferLease (RangeDescriptorFromProto d))"
| "responseUnionFromProto (PrAdminMerge d) = Inr (RespAdminMerge (RangeDescriptorFromProto d))"
| "responseUnionFromProto PrSubsume = Inr RespSubsume"
| "responseUnionFromProto PrUnfreeze = Inr RespUnfreeze"
| "responseUnionFromProto (PrUpdateMeta a) = Inr (RespUpdateMeta a)"
| "responseUnionFromProto PbNoResponse = Inl Undecodable"

record pb_BatchResponse =
  pbrTxn :: "pb_Transaction option"
  pbrTimestamp :: "pb_Hlc option"
  pbrResponses :: "pb_ResponseUnion list"

definition BatchResponseToProto :: "BatchResponse option \<Rightarrow> pb_BatchResponse option" where
  "BatchResponseToProto b =
     map_option (\<lambda>b. \<lparr>pbrTxn = txnToProto (brTxn b), pbrTimestamp = TimestampToProto (brTimestamp b),
       pbrResponses = map responseUnionToProto (Responses b)\<rparr>) b"

definition BatchResponseFromProto :: "pb_BatchResponse option \<Rightarrow> kv_proto_error + BatchResponse option" where
  "BatchResponseFromProto pb =
     (case pb of None \<Rightarrow> Inr None
      | Some pb \<Rightarrow>
          res_bind (txnFromProto (pbrTxn pb)) (\<lambda>txn.
          res_bind (res_map responseUnionFromProto (pbrResponses pb)) (\<lambda>rs.
            Inr (Some \<lparr>brTxn = txn, brTimestamp = TimestampFromProto (pbrTimestamp pb), Responses = rs\<rparr>))))"

section \<open>Errors\<close>

record pb_Error =
  peMessage :: string
  peNotLeader :: "(64 word \<times> 64 word) option"
  peRangeNotFound :: "64 word option"
  peRangeKeyMismatch :: "(bytes \<times> pb_RangeDescriptor list) option"
  peWriteIntent :: "(bytes \<times> pb_TxnMeta option) list option"
  peWriteTooOld :: "(pb_Hlc option \<times> pb_Hlc option) option"
  peUncertainty :: "(pb_Hlc option \<times> pb_Hlc option) option"
  peTxnAborted :: bool
  peTxnRetry :: "pb_Hlc option option"
  peTxnNotFound :: bool
  peAmbiguous :: bool
  peStorageOverloaded :: bool

definition ErrorToProto :: "Error option \<Rightarrow> pb_Error option" where
  "ErrorToProto e =
     map_option (\<lambda>e.
       \<lparr>peMessage = Message e,
        peNotLeader = map_option (\<lambda>(r, n). (r, scast n)) (NotLeader e),
        peRangeNotFound = RangeNotFound e,
        peRangeKeyMismatch = map_option (\<lambda>(k, ds). (k, map RangeDescriptorToProto ds)) (RangeKeyMismatch e),
        peWriteIntent = map_option (map (\<lambda>i. (intKey i, Some (TxnMetaToProto (intTxn i))))) (eWriteIntent e),
        peWriteTooOld = map_option (\<lambda>(t, a). (TimestampToProto t, TimestampToProto a)) (eWriteTooOld e),
        peUncertainty = map_option (\<lambda>(r, x). (TimestampToProto r, TimestampToProto x)) (eUncertainty e),
        peTxnAborted = TxnAborted e,
        peTxnRetry = map_option TimestampToProto (TxnRetry e),
        peTxnNotFound = TxnNotFound e,
        peAmbiguous = Ambiguous e,
        peStorageOverloaded = StorageOverloaded e\<rparr>) e"

definition intents_from_proto :: "(bytes \<times> pb_TxnMeta option) list \<Rightarrow> kv_proto_error + Intent list" where
  "intents_from_proto is =
     res_map (\<lambda>(k, m). res_bind (from_meta m) (\<lambda>txn. Inr \<lparr>intKey = k, intTxn = txn\<rparr>)) is"

definition ErrorFromProto :: "pb_Error option \<Rightarrow> kv_proto_error + Error option" where
  "ErrorFromProto pb =
     (case pb of None \<Rightarrow> Inr None
      | Some pb \<Rightarrow>
          res_bind (case peWriteIntent pb of None \<Rightarrow> Inr None
            | Some is \<Rightarrow> res_bind (intents_from_proto is) (\<lambda>is. Inr (Some is))) (\<lambda>wi.
          Inr (Some
            \<lparr>Message = peMessage pb,
             NotLeader = map_option (\<lambda>(r, n). (r, ucast n)) (peNotLeader pb),
             RangeNotFound = peRangeNotFound pb,
             RangeKeyMismatch = map_option (\<lambda>(k, ds). (k, map (\<lambda>d. RangeDescriptorFromProto (Some d)) ds))
               (peRangeKeyMismatch pb),
             eWriteIntent = wi,
             eWriteTooOld = map_option (\<lambda>(t, a). (TimestampFromProto t, TimestampFromProto a)) (peWriteTooOld pb),
             eUncertainty = map_option (\<lambda>(r, x). (TimestampFromProto r, TimestampFromProto x)) (peUncertainty pb),
             TxnAborted = peTxnAborted pb,
             TxnRetry = map_option TimestampFromProto (peTxnRetry pb),
             TxnNotFound = peTxnNotFound pb,
             Ambiguous = peAmbiguous pb,
             StorageOverloaded = peStorageOverloaded pb\<rparr>)))"

text \<open>The outcome of a Batch call: a response or an error, each possibly nil.\<close>

definition envelope_to_proto ::
  "BatchResponse option \<Rightarrow> Error option \<Rightarrow> pb_BatchResponse option \<times> pb_Error option" where
  "envelope_to_proto br kerr = (BatchResponseToProto br, ErrorToProto kerr)"

definition envelope_from_proto ::
  "pb_BatchResponse option \<times> pb_Error option \<Rightarrow> kv_proto_error + BatchResponse option \<times> Error option" where
  "envelope_from_proto pb =
     res_bind (BatchResponseFromProto (fst pb)) (\<lambda>br.
     res_bind (ErrorFromProto (snd pb)) (\<lambda>kerr. Inr (br, kerr)))"

section \<open>Well-formedness and the marshallers' contract\<close>

definition txn_wf :: "Transaction \<Rightarrow> bool" where
  "txn_wf t \<longleftrightarrow> uuid_ok (ID t) \<and> uuid_ok (WaitingFor t)"

text \<open>Go strings are UTF-8; the names are drawn from ASCII.\<close>

definition ascii :: "string \<Rightarrow> bool" where
  "ascii s \<longleftrightarrow> (\<forall>c \<in> set s. of_char c < (128 :: nat))"

definition kv_codec_ok :: "kv_codec \<Rightarrow> bool" where
  "kv_codec_ok K \<longleftrightarrow>
     (\<forall>t. txn_wf t \<longrightarrow> ascii (Name t) \<longrightarrow>
        (\<exists>r. jsonTxn K t = Inr (open_brace # r) \<and> unjsonTxn K (open_brace # r) = Inr t)) \<and>
     (\<forall>p. ptMeta p \<noteq> None \<longrightarrow> ascii (ptName p) \<longrightarrow>
        (\<exists>b r. protoTxn K p = Inr (b # r) \<and> b \<noteq> open_brace \<and> unprotoTxn K (b # r) = Inr p)) \<and>
     (\<forall>d. \<exists>r. jsonDesc K d = Inr (open_brace # r) \<and> unjsonDesc K (open_brace # r) = Inr d)"

fun request_wf :: "Request \<Rightarrow> bool" where
  "request_wf (ReqHeartbeatTxn r) = uuid_ok (hbWaitingFor r)"
| "request_wf (ReqPushTxn r) = ((case PusherTxn r of None \<Rightarrow> True | Some t \<Rightarrow> txn_wf t) \<and> uuid_ok (ID (PusheeTxn r)))"
| "request_wf (ReqResolveIntent r) = uuid_ok (riTxnID r)"
| "request_wf (ReqRollbackIntent r) = uuid_ok (rbTxnID r)"
| "request_wf (ReqRecoverTxn r) = uuid_ok (rcTxnID r)"
| "request_wf _ = True"

definition batch_wf :: "BatchRequest \<Rightarrow> bool" where
  "batch_wf b \<longleftrightarrow> (case bTxn (baHeader b) of None \<Rightarrow> True | Some t \<Rightarrow> txn_wf t) \<and>
     list_all (\<lambda>u. \<exists>r. u = to_union r \<and> request_wf r) (Requests b)"

fun response_wf :: "ResponseUnion \<Rightarrow> bool" where
  "response_wf (RespPushTxn r) = uuid_ok (prWaitingFor r)"
| "response_wf _ = True"

definition envelope_wf :: "BatchResponse option \<Rightarrow> Error option \<Rightarrow> bool" where
  "envelope_wf br e \<longleftrightarrow>
     (case br of None \<Rightarrow> True | Some b \<Rightarrow>
        (case brTxn b of None \<Rightarrow> True | Some t \<Rightarrow> txn_wf t) \<and> list_all response_wf (Responses b)) \<and>
     (case e of None \<Rightarrow> True | Some e \<Rightarrow> (case eWriteIntent e of None \<Rightarrow> True
        | Some is \<Rightarrow> list_all (\<lambda>i. uuid_ok (ID (intTxn i))) is))"

section \<open>Round trips\<close>

lemma ucast_scast_32_64 [simp]: "ucast (scast (x :: 32 word) :: 64 word) = x"
  by (rule bit_word_eqI) (simp add: bit_simps)

lemma from_uuid [simp]: "uuid_ok i \<Longrightarrow> from_uuid (UUIDToProto i) = Inr i"
  by (simp add: from_uuid_def UUID_roundtrip)

lemma from_meta [simp]: "uuid_ok (ID m) \<Longrightarrow> from_meta (Some (TxnMetaToProto m)) = Inr m"
  by (simp add: from_meta_def TxnMeta_roundtrip)

lemma ID_truncate [simp]: "ID (TxnMeta.truncate t) = ID t"
  by (simp add: TxnMeta.truncate_def)

lemma with_meta_truncate:
  "with_meta (TxnMeta.truncate t) (Name t) (Status t) (ReadTimestamp t) (LastHeartbeat t) (IntentKeys t)
     (WaitingFor t) (WaitingForKey t) (InFlightKeys t) = t"
  by (cases t) (simp add: with_meta_def TxnMeta.defs Transaction.defs)

lemma txn_roundtrip:
  "(case t of None \<Rightarrow> True | Some t \<Rightarrow> txn_wf t) \<Longrightarrow> txnFromProto (txnToProto t) = Inr t"
  by (cases t) (simp_all add: txnFromProto_def txnToProto_def txn_wf_def with_meta_truncate)

lemma RangeDescriptor_roundtrip [simp]: "RangeDescriptorFromProto (Some (RangeDescriptorToProto d)) = d"
  by (cases d) (simp add: RangeDescriptorFromProto_def RangeDescriptorToProto_def comp_def map_idI)

lemma reqHeader_roundtrip [simp]: "reqHeaderFromProto (reqHeaderToProto h) = h"
  by (simp add: reqHeaderFromProto_def reqHeaderToProto_def)

lemma GcVersion_roundtrip [simp]: "GcVersionFromProto (GcVersionToProto v) = v"
  by (simp add: GcVersionFromProto_def GcVersionToProto_def)

lemma res_map_roundtrip:
  "list_all (\<lambda>x. res_bind (f x) g = Inr x) xs \<Longrightarrow> res_bind (res_map f xs) (res_map g) = Inr xs"
proof (induction xs)
  case Nil
  then show ?case by simp
next
  case (Cons x xs)
  then obtain y where y: "f x = Inr y" "g y = Inr x" by (cases "f x") auto
  from Cons obtain ys where "res_map f xs = Inr ys" "res_map g ys = Inr xs"
    by (cases "res_map f xs") auto
  with y show ?case by simp
qed

lemma res_map_map_roundtrip: "list_all (\<lambda>x. g (f x) = Inr x) xs \<Longrightarrow> res_map g (map f xs) = Inr xs"
  by (induction xs) auto

lemma request_roundtrip:
  assumes "kv_codec_ok K" and "request_wf r"
  shows "res_bind (request_to_proto K r) (requestUnionFromProto K) = Inr (to_union r)"
proof -
  have desc: "\<exists>b. jsonDesc K d = Inr (open_brace # b) \<and> unjsonDesc K (open_brace # b) = Inr d" for d
    using assms(1) by (simp add: kv_codec_ok_def)
  show ?thesis
  proof (cases r)
    case (ReqUpdateMeta u)
    show ?thesis
    proof (cases "umDesc u")
      case None
      then show ?thesis by (simp add: ReqUpdateMeta)
    next
      case (Some d)
      with desc [of d] show ?thesis by (auto simp: ReqUpdateMeta)
    qed
  qed (use assms(2) in \<open>auto simp: txn_roundtrip map_idI\<close>)
qed

lemma response_roundtrip: "response_wf r \<Longrightarrow> responseUnionFromProto (responseUnionToProto r) = Inr r"
  by (cases r rule: response_wf.cases) (auto simp: map_idI)

lemma batch_roundtrip:
  assumes "kv_codec_ok K" and "batch_wf b"
  shows "res_bind (BatchRequestToProto K b) (BatchRequestFromProto K) = Inr b"
proof -
  have "list_all (\<lambda>u. res_bind (requestUnionToProto K u) (requestUnionFromProto K) = Inr u) (Requests b)"
    using assms(2) request_roundtrip [OF assms(1)]
    by (auto simp: batch_wf_def requestUnionToProto_def list_all_iff)
  from res_map_roundtrip [OF this] obtain rs where
    "res_map (requestUnionToProto K) (Requests b) = Inr rs" "res_map (requestUnionFromProto K) rs = Inr (Requests b)"
    by (cases "res_map (requestUnionToProto K) (Requests b)") auto
  with assms(2) show ?thesis
    by (simp add: BatchRequestToProto_def BatchRequestFromProto_def batch_wf_def txn_roundtrip)
qed

lemma BatchResponse_roundtrip:
  "envelope_wf br e \<Longrightarrow> BatchResponseFromProto (BatchResponseToProto br) = Inr br"
proof (cases br)
  case None
  then show ?thesis by (simp add: BatchResponseFromProto_def BatchResponseToProto_def)
next
  case (Some b)
  assume wf: "envelope_wf br e"
  then have "res_map responseUnionFromProto (map responseUnionToProto (Responses b)) = Inr (Responses b)"
    by (intro res_map_map_roundtrip) (auto simp: envelope_wf_def Some list_all_iff response_roundtrip)
  with wf show ?thesis
    by (simp add: BatchResponseFromProto_def BatchResponseToProto_def Some envelope_wf_def txn_roundtrip)
qed

lemma intents_roundtrip:
  "list_all (\<lambda>i. uuid_ok (ID (intTxn i))) is \<Longrightarrow>
   intents_from_proto (map (\<lambda>i. (intKey i, Some (TxnMetaToProto (intTxn i)))) is) = Inr is"
  unfolding intents_from_proto_def by (intro res_map_map_roundtrip) (auto simp: list_all_iff)

lemma Error_roundtrip: "envelope_wf br e \<Longrightarrow> ErrorFromProto (ErrorToProto e) = Inr e"
proof (cases e)
  case None
  then show ?thesis by (simp add: ErrorFromProto_def ErrorToProto_def)
next
  case (Some x)
  assume "envelope_wf br e"
  then have "eWriteIntent x = Some is \<Longrightarrow> list_all (\<lambda>i. uuid_ok (ID (intTxn i))) is" for "is"
    by (simp add: envelope_wf_def Some)
  then show ?thesis
    by (cases x; cases "eWriteIntent x")
      (auto simp: ErrorFromProto_def ErrorToProto_def Some intents_roundtrip option.map_comp option.map_id
        comp_def case_prod_beta map_idI intro!: option.map_ident_strong)
qed

text \<open>A stored transaction record reads back in either encoding.\<close>

lemma record_roundtrip:
  assumes "kv_codec_ok K" and "txn_wf t" and "ascii (Name t)"
  shows "\<exists>raw. MarshalTxnRecord K t = Inr raw \<and> raw \<noteq> [] \<and> UnmarshalTxnRecord K raw = Inr t"
proof (cases "BinaryMeta t")
  case True
  obtain p where p: "txnToProto (Some t) = Some p" "ptMeta p \<noteq> None" "ptName p = Name t"
    by (simp add: txnToProto_def)
  then obtain b r where "protoTxn K p = Inr (b # r)" "b \<noteq> open_brace" "unprotoTxn K (b # r) = Inr p"
    using assms(1,3) unfolding kv_codec_ok_def by metis
  moreover have "txnFromProto (Some p) = Inr (Some t)"
    using txn_roundtrip [of "Some t"] assms(2) p(1) by simp
  ultimately show ?thesis using True p(1) by (simp add: MarshalTxnRecord_def UnmarshalTxnRecord_def)
next
  case False
  then obtain r where "jsonTxn K t = Inr (open_brace # r)" "unjsonTxn K (open_brace # r) = Inr t"
    using assms unfolding kv_codec_ok_def by blast
  with False show ?thesis by (simp add: MarshalTxnRecord_def UnmarshalTxnRecord_def)
qed

section \<open>A concrete codec\<close>

definition put_list :: "('a \<Rightarrow> bytes) \<Rightarrow> 'a list \<Rightarrow> bytes" where
  "put_list p xs = concat (map (\<lambda>x. 1 # p x) xs) @ [0]"

fun get_list :: "(bytes \<Rightarrow> unit + bytes \<times> 'a) \<Rightarrow> nat \<Rightarrow> bytes \<Rightarrow> unit + bytes \<times> 'a list" where
  "get_list g _ [] = Inl ()"
| "get_list g 0 (t # b) = (if t = 0 then Inr (b, []) else Inl ())"
| "get_list g (Suc n) (t # b) =
     (if t = 0 then Inr (b, [])
      else res_bind (g b) (\<lambda>(b, x). res_bind (get_list g n b) (\<lambda>(b, xs). Inr (b, x # xs))))"

definition get_bs :: "bytes \<Rightarrow> unit + bytes \<times> bytes" where
  "get_bs b = un_enc (DecodeBytes b)"

fun put_status :: "TxnStatus \<Rightarrow> byte" where
  "put_status PENDING = 0" | "put_status COMMITTED = 1" | "put_status ABORTED = 2" | "put_status STAGING = 3"

definition get_status :: "bytes \<Rightarrow> unit + bytes \<times> TxnStatus" where
  "get_status b = (case b of [] \<Rightarrow> Inl () | t # r \<Rightarrow>
     Inr (r, if t = 0 then PENDING else if t = 1 then COMMITTED else if t = 2 then ABORTED else STAGING))"

definition put_ptxn :: "pb_Transaction \<Rightarrow> bytes" where
  "put_ptxn p = put_txn (the (ptMeta p)) @ EncodeBytes [] (str (ptName p)) @ put_status (ptStatus p) #
     put_hlc (ptReadTimestamp p) @ put_hlc (ptLastHeartbeat p) @ put_list (EncodeBytes []) (ptIntentKeys p) @
     EncodeBytes [] (ptWaitingFor p) @ EncodeBytes [] (ptWaitingForKey p) @
     put_list (EncodeBytes []) (ptInFlightKeys p)"

definition get_ptxn :: "bytes \<Rightarrow> unit + pb_Transaction" where
  "get_ptxn b =
     res_bind (get_txn b) (\<lambda>(b, m).
     res_bind (get_bs b) (\<lambda>(b, n).
     res_bind (get_status b) (\<lambda>(b, st).
     res_bind (get_hlc b) (\<lambda>(b, rt).
     res_bind (get_hlc b) (\<lambda>(b, hb).
     res_bind (get_list get_bs (length b) b) (\<lambda>(b, iks).
     res_bind (get_bs b) (\<lambda>(b, w).
     res_bind (get_bs b) (\<lambda>(b, wk).
     res_bind (get_list get_bs (length b) b) (\<lambda>(b, fks).
       Inr \<lparr>ptMeta = Some m, ptName = map (\<lambda>b. char_of (unat b)) n, ptStatus = st, ptReadTimestamp = rt,
         ptLastHeartbeat = hb, ptIntentKeys = iks, ptWaitingFor = w, ptWaitingForKey = wk,
         ptInFlightKeys = fks\<rparr>)))))))))"

definition put_replica :: "ReplicaDescriptor \<Rightarrow> bytes" where
  "put_replica r = put_u32 (rdNodeID r) @ put_u32 (rdStoreID r) @ put_u32 (rdReplicaID r)"

definition get_replica :: "bytes \<Rightarrow> unit + bytes \<times> ReplicaDescriptor" where
  "get_replica b =
     res_bind (get_u32 b) (\<lambda>(b, n). res_bind (get_u32 b) (\<lambda>(b, s). res_bind (get_u32 b) (\<lambda>(b, r).
       Inr (b, \<lparr>rdNodeID = n, rdStoreID = s, rdReplicaID = r\<rparr>))))"

definition put_desc :: "RangeDescriptor \<Rightarrow> bytes" where
  "put_desc d = EncodeUint64 [] (dRangeID d) @ EncodeBytes [] (StartKey d) @ EncodeBytes [] (EndKey d) @
     put_list put_replica (Replicas d) @ put_u32 (NextReplicaID d) @ EncodeUint64 [] (Generation d)"

definition get_desc :: "bytes \<Rightarrow> unit + RangeDescriptor" where
  "get_desc b =
     res_bind (un_enc (DecodeUint64 b)) (\<lambda>(b, i). res_bind (get_bs b) (\<lambda>(b, sk).
     res_bind (get_bs b) (\<lambda>(b, ek). res_bind (get_list get_replica (length b) b) (\<lambda>(b, rs).
     res_bind (get_u32 b) (\<lambda>(b, nx). res_bind (un_enc (DecodeUint64 b)) (\<lambda>(b, g).
       Inr \<lparr>dRangeID = i, StartKey = sk, EndKey = ek, Replicas = rs, NextReplicaID = nx, Generation = g\<rparr>))))))"

definition io_of :: "unit + 'a \<Rightarrow> io_error + 'a" where
  "io_of r = (case r of Inl _ \<Rightarrow> Inl (IOError 0) | Inr x \<Rightarrow> Inr x)"

definition demo_codec :: kv_codec where
  "demo_codec =
     \<lparr>jsonTxn = \<lambda>t. Inr (open_brace # put_ptxn (the (txnToProto (Some t)))),
      unjsonTxn = \<lambda>b. res_bind (io_of (get_ptxn (tl b))) (\<lambda>p.
        case txnFromProto (Some p) of Inl _ \<Rightarrow> Inl (IOError 1) | Inr t \<Rightarrow> Inr (the t)),
      protoTxn = \<lambda>p. Inr (0x0A # put_ptxn p),
      unprotoTxn = \<lambda>b. io_of (get_ptxn (tl b)),
      jsonDesc = \<lambda>d. Inr (open_brace # put_desc d),
      unjsonDesc = \<lambda>b. io_of (get_desc (tl b))\<rparr>"

lemma io_of_Inr [simp]: "io_of (Inr x) = Inr x"
  by (simp add: io_of_def)

lemma get_bs [simp]: "get_bs (EncodeBytes [] v @ r) = Inr (r, v)"
  by (simp add: get_bs_def byt.roundtrip)

lemma get_list:
  assumes g: "\<And>x r. g (p x @ r) = Inr (r, x)" and "length xs \<le> n"
  shows "get_list g n (put_list p xs @ r) = Inr (r, xs)"
  using assms(2)
proof (induction xs arbitrary: n)
  case Nil
  then show ?case by (cases n) (simp_all add: put_list_def)
next
  case (Cons x xs)
  then obtain m where "n = Suc m" "length xs \<le> m" by (cases n) auto
  with Cons.IH [of m] show ?case by (simp add: put_list_def g)
qed

lemma length_put_list [simp]:
  "length xs \<le> length (put_list p xs)" "length xs \<le> length (put_list p xs) + k"
proof -
  show "length xs \<le> length (put_list p xs)" unfolding put_list_def by (induction xs) auto
  then show "length xs \<le> length (put_list p xs) + k" by simp
qed

lemmas get_keys [simp] = get_list [where g = get_bs and p = "EncodeBytes []", OF get_bs]

lemmas get_keys_end [simp] = get_keys [where r = "[]", simplified]

lemma get_status [simp]: "get_status (put_status st # r) = Inr (r, st)"
  by (cases st) (simp_all add: get_status_def)

lemma char_str: "map (\<lambda>b. char_of (unat b)) (str n) = n"
  by (simp add: str_def comp_def unat_of_char)

lemma get_ptxn [simp]:
  "ptMeta p \<noteq> None \<Longrightarrow> ascii (ptName p) \<Longrightarrow> get_ptxn (put_ptxn p) = Inr p"
  by (auto simp: get_ptxn_def put_ptxn_def char_str)

lemma get_replica [simp]: "get_replica (put_replica x @ r) = Inr (r, x)"
  by (simp add: get_replica_def put_replica_def)

lemma get_desc [simp]: "get_desc (put_desc d) = Inr d"
  using u64.roundtrip [of "Generation d" "[]"]
  by (simp add: get_desc_def put_desc_def u64.roundtrip get_list [where g = get_replica, OF get_replica])

lemma demo_codec_ok: "kv_codec_ok demo_codec"
proof -
  have "ptMeta (the (txnToProto (Some t))) \<noteq> None" "ptName (the (txnToProto (Some t))) = Name t" for t
    by (simp_all add: txnToProto_def)
  moreover have "txn_wf t \<Longrightarrow> txnFromProto (Some (the (txnToProto (Some t)))) = Inr (Some t)" for t
    using txn_roundtrip [of "Some t"] by (simp add: txnToProto_def)
  ultimately show ?thesis unfolding kv_codec_ok_def demo_codec_def by simp
qed

section \<open>The wire round trip\<close>

text \<open>
  C27: converting to the protobuf messages and back is the identity: a batch whose unions hold
  exactly one request and whose transaction ids are 16 bytes survives \<open>BatchRequestToProto\<close>
  followed by \<open>BatchRequestFromProto\<close> unchanged, for every one of the 22 request types, and the
  outcome of a batch (a response with every response type, an error with every detail, or
  neither) survives the envelope conversion, so nothing a replica decides is lost on the wire
  or in the Raft log.
\<close>

theorem wire_roundtrip:
  assumes "kv_codec_ok K" and "batch_wf b" and "envelope_wf br e"
  shows "res_bind (BatchRequestToProto K b) (BatchRequestFromProto K) = Inr b \<and>
    envelope_from_proto (envelope_to_proto br e) = Inr (br, e)"
  using batch_roundtrip [OF assms(1,2)] BatchResponse_roundtrip [OF assms(3)] Error_roundtrip [OF assms(3)]
  by (simp add: envelope_from_proto_def envelope_to_proto_def)

definition demo_batch :: BatchRequest where
  "demo_batch = Batch_Add (ReqUpdateMeta \<lparr>rKey = [3], rEndKey = [], umDesc = Some zero_desc, IfRangeID = 2, IfGeneration = 1\<rparr>)
     (Batch_Add (ReqPut \<lparr>rKey = [7], rEndKey = [], putValue = Some [1]\<rparr>)
       \<lparr>baHeader = zero_header\<lparr>bTxn := Some (NewTransaction (replicate 16 1) ''t'' 1 (Timestamp 5 0))\<rparr>, Requests = []\<rparr>)"

definition demo_response :: BatchResponse where
  "demo_response = \<lparr>brTxn = None, brTimestamp = Timestamp 5 0, Responses = [RespGet (Some []), RespEndTxn \<lparr>CommitTimestamp = Timestamp 5 0, OnePhase = True\<rparr>]\<rparr>"

lemma demo_batch_wf: "batch_wf demo_batch"
  by (auto simp: batch_wf_def demo_batch_def Batch_Add_def zero_header_def NewTransaction_def txn_wf_def
    uuid_ok_def uuid_nil_def simp del: to_union.simps intro: exI [where x = "ReqPut _"] exI [where x = "ReqUpdateMeta _"])

theorem wire_roundtrip_witness:
  "res_bind (BatchRequestToProto demo_codec demo_batch) (BatchRequestFromProto demo_codec) = Inr demo_batch \<and>
   envelope_from_proto (envelope_to_proto (Some demo_response) (Some (NewError (WriteTooOldError (Timestamp 3 0) (Timestamp 4 0))))) =
     Inr (Some demo_response, Some (NewError (WriteTooOldError (Timestamp 3 0) (Timestamp 4 0))))"
  by (rule wire_roundtrip [OF demo_codec_ok demo_batch_wf])
    (simp add: envelope_wf_def demo_response_def NewError_def NewErrorf_def)

end
