(* ===== verification/TxnRecord.thy ===== *)
theory TxnRecord
  imports Kvpb_Proto MVCC_Txn
begin

text \<open>
  Transaction records (\<^verbatim>\<open>src/pkg/kvserver/txn.go\<close>): creating, ending, heartbeating, pushing and
  recovering the record that decides a transaction. Every operation reads the record from the
  batch, decides, and writes it back; an error discards the batch, so only an \<open>Inr\<close> result
  carries a new state. \<open>fate_step\<close> is the abstract life of a record: the operations refine it,
  and no run of them lets two replies disagree about the outcome.
\<close>

section \<open>Reading and writing a record\<close>

definition TxnExpiration :: "64 word" where
  "TxnExpiration = 5000000000"

definition txnRecordKey :: "'a TxnMeta_scheme \<Rightarrow> key" where
  "txnRecordKey txn = TransactionKey (AnchorKey txn) (ID txn)"

datatype store_error = SIo io_error | SCorrupt kv_proto_error

definition store_Error :: "store_error \<Rightarrow> Error" where
  "store_Error e = NewErrorf (case e of SIo _ \<Rightarrow> ''storage'' | SCorrupt _ \<Rightarrow> ''corrupt transaction record at %s: %w'')"

definition loadTxnRecord :: "'s deps \<Rightarrow> kv_codec \<Rightarrow> 's \<Rightarrow> key \<Rightarrow> store_error + Transaction option" where
  "loadTxnRecord E K s key =
     (case Batch_Get E s key of Inl e \<Rightarrow> Inl (SIo e)
      | Inr None \<Rightarrow> Inr None
      | Inr (Some raw) \<Rightarrow>
          (case UnmarshalTxnRecord K raw of Inl e \<Rightarrow> Inl (SCorrupt e) | Inr txn \<Rightarrow> Inr (Some txn)))"

definition putTxnRecord :: "'s deps \<Rightarrow> kv_codec \<Rightarrow> key \<Rightarrow> Transaction \<Rightarrow> 's \<Rightarrow> store_error + 's" where
  "putTxnRecord E K key txn s =
     (case MarshalTxnRecord K txn of Inl e \<Rightarrow> Inl (SIo e)
      | Inr raw \<Rightarrow> (case Batch_Put E key raw s of Inl e \<Rightarrow> Inl (SIo e) | Inr s' \<Rightarrow> Inr s'))"

definition with_record ::
  "'s deps \<Rightarrow> kv_codec \<Rightarrow> key \<Rightarrow> 's \<Rightarrow> (Transaction option \<Rightarrow> Error + 'r \<times> 's) \<Rightarrow> Error + 'r \<times> 's" where
  "with_record E K key s f =
     (case loadTxnRecord E K s key of Inl e \<Rightarrow> Inl (store_Error e) | Inr rec \<Rightarrow> f rec)"

definition save_record ::
  "'s deps \<Rightarrow> kv_codec \<Rightarrow> key \<Rightarrow> Transaction \<Rightarrow> 'r \<Rightarrow> 's \<Rightarrow> Error + 'r \<times> 's" where
  "save_record E K key txn r s =
     (case putTxnRecord E K key txn s of Inl e \<Rightarrow> Inl (store_Error e) | Inr s' \<Rightarrow> Inr (r, s'))"

definition aborted_Error :: "string \<Rightarrow> Error" where
  "aborted_Error msg = (NewErrorf msg)\<lparr>TxnAborted := True\<rparr>"

section \<open>The operations\<close>

definition createTxnRecord ::
  "'s deps \<Rightarrow> kv_codec \<Rightarrow> timestamp \<Rightarrow> Transaction option \<Rightarrow> 's \<Rightarrow> Error + unit \<times> 's" where
  "createTxnRecord E K thr t s =
     (case t of None \<Rightarrow> Inl (NewErrorf ''CreateTxnRecord without a transaction'')
      | Some txn \<Rightarrow>
          if \<not> IsEmpty thr \<and> LessEq (MinTimestamp txn) thr
          then Inl (aborted_Error ''transaction %s predates the GC threshold %s'')
          else with_record E K (txnRecordKey txn) s (\<lambda>existing.
            if (case existing of None \<Rightarrow> False | Some x \<Rightarrow> Status x = ABORTED)
            then Inl (aborted_Error ''transaction %s aborted before its record was created'')
            else if (case existing of None \<Rightarrow> False | Some x \<Rightarrow> Status x = COMMITTED)
            then Inl (NewErrorf ''transaction %s: record already committed at record creation'')
            else save_record E K (txnRecordKey txn) (txn\<lparr>Status := PENDING\<rparr>) () s))"

text \<open>The checks of \<^verbatim>\<open>evalEndTxn\<close> on an existing record: its answer if they settle the request.\<close>

definition end_txn_settled ::
  "Transaction \<Rightarrow> EndTxnRequest \<Rightarrow> Transaction option \<Rightarrow> (Error + EndTxnResponse) option" where
  "end_txn_settled txn req existing =
     (case existing of None \<Rightarrow> None
      | Some x \<Rightarrow>
          if Status x = ABORTED
          then Some (Inl (aborted_Error ''transaction %s aborted by a conflicting transaction''))
          else if Status x = COMMITTED
          then (if Commit req \<and> Epoch x = Epoch txn
                then Some (Inr \<lparr>CommitTimestamp = WriteTimestamp x, OnePhase = False\<rparr>)
                else Some (Inl (NewErrorf ''transaction %s already committed'')))
          else if sint (Epoch x) > sint (Epoch txn)
          then Some (Inl (NewErrorf ''transaction %s: record at newer epoch %d than request %d''))
          else None)"

text \<open>The record \<^verbatim>\<open>evalEndTxn\<close> writes.\<close>

definition end_txn_final :: "Transaction \<Rightarrow> EndTxnRequest \<Rightarrow> Transaction" where
  "end_txn_final txn req =
     (if Commit req
      then (if InFlight req \<noteq> []
            then txn\<lparr>Status := STAGING, InFlightKeys := InFlight req, IntentKeys := etIntentKeys req\<rparr>
            else txn\<lparr>Status := COMMITTED, InFlightKeys := [], IntentKeys := etIntentKeys req\<rparr>)
      else txn\<lparr>Status := ABORTED, InFlightKeys := []\<rparr>)"

definition evalEndTxn ::
  "'s deps \<Rightarrow> kv_codec \<Rightarrow> Transaction option \<Rightarrow> EndTxnRequest \<Rightarrow> 's \<Rightarrow> Error + EndTxnResponse \<times> 's" where
  "evalEndTxn E K t req s =
     (case t of None \<Rightarrow> Inl (NewErrorf ''EndTxn without a transaction'')
      | Some txn \<Rightarrow>
          if etAll req then Inl (NewErrorf ''EndTxn.All in a batch that is not one-phase-commit shaped'')
          else with_record E K (txnRecordKey txn) s (\<lambda>existing.
            case end_txn_settled txn req existing of
              Some (Inl e) \<Rightarrow> Inl e
            | Some (Inr resp) \<Rightarrow> Inr (resp, s)
            | None \<Rightarrow>
                if Commit req \<and> \<not> Equal (ReadTimestamp txn) (WriteTimestamp txn)
                then Inl ((NewErrorf ''transaction %s cannot commit: write timestamp %s diverged from read timestamp %s'')
                       \<lparr>TxnRetry := Some (WriteTimestamp txn)\<rparr>)
                else save_record E K (txnRecordKey txn) (end_txn_final txn req)
                  \<lparr>CommitTimestamp = WriteTimestamp txn, OnePhase = False\<rparr> s))"

definition evalHeartbeatTxn ::
  "'s deps \<Rightarrow> kv_codec \<Rightarrow> Transaction option \<Rightarrow> HeartbeatTxnRequest \<Rightarrow> 's \<Rightarrow> Error + TxnStatus \<times> 's" where
  "evalHeartbeatTxn E K t req s =
     (case t of None \<Rightarrow> Inl (NewErrorf ''HeartbeatTxn without a transaction'')
      | Some txn \<Rightarrow>
          with_record E K (txnRecordKey txn) s (\<lambda>existing.
            case existing of
              None \<Rightarrow> Inl ((NewErrorf ''transaction %s: no record to heartbeat'')\<lparr>TxnNotFound := True\<rparr>)
            | Some x \<Rightarrow>
                if Status x = PENDING
                then save_record E K (txnRecordKey txn)
                       (x\<lparr>LastHeartbeat := Forward (LastHeartbeat x) (hbNow req), WaitingFor := hbWaitingFor req,
                          WaitingForKey := hbWaitingForKey req\<rparr>) PENDING s
                else Inr (Status x, s)))"

definition expired :: "timestamp \<Rightarrow> timestamp \<Rightarrow> bool" where
  "expired now lst \<longleftrightarrow> sint (WallTime now - WallTime lst) > sint TxnExpiration"

definition push_response :: "TxnStatus \<Rightarrow> timestamp \<Rightarrow> key list \<Rightarrow> PushTxnResponse" where
  "push_response st ts fks = \<lparr>prStatus = st, prCommitTS = ts, prWaitingFor = uuid_nil, prWaitingForKey = [],
     prPriority = 0, prInFlightKeys = fks\<rparr>"

text \<open>The transaction a pusher writes for a pushee that has no record.\<close>

definition poisoned_txn :: "TxnMeta \<Rightarrow> Transaction" where
  "poisoned_txn m = with_meta m [] ABORTED zero_ts zero_ts [] uuid_nil [] []"

definition pusherPriority :: "PushTxnRequest \<Rightarrow> 32 word" where
  "pusherPriority req = (case PusherTxn req of None \<Rightarrow> 2 ^ 30 | Some t \<Rightarrow> Priority t)"

definition evalPushTxn ::
  "'s deps \<Rightarrow> kv_codec \<Rightarrow> PushTxnRequest \<Rightarrow> 's \<Rightarrow> Error + PushTxnResponse \<times> 's" where
  "evalPushTxn E K req s =
     (let key = TransactionKey (AnchorKey (PusheeTxn req)) (ID (PusheeTxn req))
      in with_record E K key s (\<lambda>existing.
        case existing of
          None \<Rightarrow>
            if expired (puNow req) (MinTimestamp (PusheeTxn req))
            then save_record E K key (poisoned_txn (PusheeTxn req)) (push_response ABORTED zero_ts []) s
            else Inr (push_response PENDING zero_ts [], s)
        | Some x \<Rightarrow>
            (case Status x of
               COMMITTED \<Rightarrow> Inr (push_response COMMITTED (WriteTimestamp x) [], s)
             | ABORTED \<Rightarrow> Inr (push_response ABORTED zero_ts [], s)
             | STAGING \<Rightarrow> Inr (push_response STAGING (WriteTimestamp x) (InFlightKeys x), s)
             | PENDING \<Rightarrow>
                 if expired (puNow req) (LastHeartbeat x)
                 then save_record E K key (x\<lparr>Status := ABORTED\<rparr>) (push_response ABORTED zero_ts []) s
                 else if ForceAbort req
                 then save_record E K key (x\<lparr>Status := ABORTED\<rparr>) (push_response ABORTED zero_ts []) s
                 else if PushAbort req \<and> sint (pusherPriority req) > sint (Priority x)
                 then save_record E K key (x\<lparr>Status := ABORTED\<rparr>) (push_response ABORTED zero_ts []) s
                 else Inr (push_response PENDING zero_ts [], s))))"

definition evalRecoverTxn ::
  "'s deps \<Rightarrow> kv_codec \<Rightarrow> RecoverTxnRequest \<Rightarrow> 's \<Rightarrow> Error + TxnStatus \<times> 's" where
  "evalRecoverTxn E K req s =
     (let key = TransactionKey (rKey req) (rcTxnID req)
      in with_record E K key s (\<lambda>existing.
        case existing of
          None \<Rightarrow> Inr (ABORTED, s)
        | Some x \<Rightarrow>
            if Status x \<noteq> STAGING then Inr (Status x, s)
            else let st = (if rcCommit req then COMMITTED else ABORTED)
                 in save_record E K key (x\<lparr>Status := st, InFlightKeys := []\<rparr>) st s))"

section \<open>Records in the contents of an engine\<close>

definition record_at :: "kv_codec \<Rightarrow> contents \<Rightarrow> key \<Rightarrow> Transaction option" where
  "record_at K c key =
     (case c key of None \<Rightarrow> None
      | Some raw \<Rightarrow> if raw = [] then None else (case UnmarshalTxnRecord K raw of Inl _ \<Rightarrow> None | Inr t \<Rightarrow> Some t))"

text \<open>A record key holds nothing, or a record that decodes to a well-formed transaction.\<close>

definition record_ok :: "kv_codec \<Rightarrow> contents \<Rightarrow> key \<Rightarrow> bool" where
  "record_ok K c key \<longleftrightarrow>
     c key = None \<or> (\<exists>raw t. c key = Some raw \<and> raw \<noteq> [] \<and> UnmarshalTxnRecord K raw = Inr t \<and> txn_wf t \<and> ascii (Name t))"

definition rec_wf :: "Transaction \<Rightarrow> bool" where
  "rec_wf t \<longleftrightarrow> txn_wf t \<and> ascii (Name t)"

lemma rec_wf_update [simp]:
  "rec_wf (t\<lparr>Status := st\<rparr>) = rec_wf t"
  "rec_wf (t\<lparr>InFlightKeys := ks\<rparr>) = rec_wf t"
  "rec_wf (t\<lparr>IntentKeys := ks\<rparr>) = rec_wf t"
  "rec_wf (t\<lparr>LastHeartbeat := ts\<rparr>) = rec_wf t"
  "rec_wf (t\<lparr>WaitingForKey := k\<rparr>) = rec_wf t"
  by (simp_all add: rec_wf_def txn_wf_def)

lemma rec_wf_waiting: "rec_wf t \<Longrightarrow> uuid_ok w \<Longrightarrow> rec_wf (t\<lparr>WaitingFor := w\<rparr>)"
  by (simp add: rec_wf_def txn_wf_def)

lemma record_at_wf: "record_ok K c key \<Longrightarrow> record_at K c key = Some t \<Longrightarrow> rec_wf t"
  by (auto simp: record_ok_def record_at_def rec_wf_def)

lemma load_record:
  assumes "healthy E c" and "record_ok K (c s) key"
  shows "loadTxnRecord E K s key = Inr (record_at K (c s) key)"
proof -
  have get: "pGet E s key = Inr (c s key)" by (rule healthyD(1) [OF assms(1)])
  show ?thesis
  proof (cases "c s key")
    case None
    with get show ?thesis by (simp add: loadTxnRecord_def Batch_Get_def record_at_def)
  next
    case (Some raw)
    with assms(2) obtain t where "raw \<noteq> []" "UnmarshalTxnRecord K raw = Inr t" by (auto simp: record_ok_def)
    with get Some show ?thesis by (simp add: loadTxnRecord_def Batch_Get_def record_at_def clone_nil_def)
  qed
qed

lemma save_record_ok:
  assumes "healthy E c" and "kv_codec_ok K" and "rec_wf t"
  obtains s' raw where "save_record E K key t r s = Inr (r, s')" and "c s' = (c s)(key \<mapsto> raw)"
    and "record_at K (c s') key = Some t" and "record_ok K (c s') key"
proof -
  obtain raw where raw: "MarshalTxnRecord K t = Inr raw" "raw \<noteq> []" "UnmarshalTxnRecord K raw = Inr t"
    using record_roundtrip [OF assms(2), of t] assms(3) by (auto simp: rec_wf_def)
  obtain s' where s': "pSet E key raw s = Inr s'" "c s' = (c s)(key \<mapsto> raw)"
    using healthyD(3) [OF assms(1), of key raw s] by blast
  show thesis
  proof (rule that)
    show "save_record E K key t r s = Inr (r, s')"
      using raw s' by (simp add: save_record_def putTxnRecord_def Batch_Put_def)
    show "c s' = (c s)(key \<mapsto> raw)" by (rule s'(2))
    show "record_at K (c s') key = Some t" "record_ok K (c s') key"
      using raw s' assms(3) by (auto simp: record_at_def record_ok_def rec_wf_def)
  qed
qed

section \<open>The abstract life of a record\<close>

datatype fate =
    Unknown
  | Live timestamp "32 word"
  | Staged timestamp "key list"
  | Done timestamp
  | Dead

fun fate_of :: "Transaction option \<Rightarrow> fate" where
  "fate_of None = Unknown"
| "fate_of (Some t) =
     (case Status t of PENDING \<Rightarrow> Live (LastHeartbeat t) (Priority t)
      | STAGING \<Rightarrow> Staged (WriteTimestamp t) (InFlightKeys t)
      | COMMITTED \<Rightarrow> Done (WriteTimestamp t) | ABORTED \<Rightarrow> Dead)"

definition undecided :: "fate \<Rightarrow> bool" where
  "undecided f \<longleftrightarrow> f \<noteq> Dead \<and> (\<forall>ts. f \<noteq> Done ts)"

datatype record_op =
    OpCreate timestamp Transaction
  | OpEnd Transaction EndTxnRequest
  | OpHeartbeat Transaction HeartbeatTxnRequest
  | OpPush PushTxnRequest
  | OpRecover RecoverTxnRequest

inductive fate_step :: "record_op \<Rightarrow> fate \<Rightarrow> fate \<Rightarrow> bool" where
  keep: "fate_step op f f"
| create: "undecided f \<Longrightarrow> fate_step (OpCreate thr t) f (Live (LastHeartbeat t) (Priority t))"
| commit: "undecided f \<Longrightarrow> Commit req \<Longrightarrow> InFlight req = [] \<Longrightarrow> ReadTimestamp t = WriteTimestamp t \<Longrightarrow>
    fate_step (OpEnd t req) f (Done (WriteTimestamp t))"
| stage: "undecided f \<Longrightarrow> Commit req \<Longrightarrow> InFlight req \<noteq> [] \<Longrightarrow> ReadTimestamp t = WriteTimestamp t \<Longrightarrow>
    fate_step (OpEnd t req) f (Staged (WriteTimestamp t) (InFlight req))"
| abort: "undecided f \<Longrightarrow> \<not> Commit req \<Longrightarrow> fate_step (OpEnd t req) f Dead"
| beat: "hb \<le> hb' \<Longrightarrow> fate_step (OpHeartbeat t req) (Live hb p) (Live hb' p)"
| poison: "expired (puNow req) (MinTimestamp (PusheeTxn req)) \<Longrightarrow> fate_step (OpPush req) Unknown Dead"
| push: "expired (puNow req) hb \<or> ForceAbort req \<or> PushAbort req \<and> sint p < sint (pusherPriority req) \<Longrightarrow>
    fate_step (OpPush req) (Live hb p) Dead"
| recover_commit: "rcCommit req \<Longrightarrow> fate_step (OpRecover req) (Staged ts ks) (Done ts)"
| recover_abort: "\<not> rcCommit req \<Longrightarrow> fate_step (OpRecover req) (Staged ts ks) Dead"

inductive_cases fate_step_Done: "fate_step op (Done ts) f"
inductive_cases fate_step_Dead: "fate_step op Dead f"
inductive_cases fate_step_push: "fate_step (OpPush req) f f'"

lemma undecided_simps [simp]:
  "undecided Unknown" "undecided (Live hb p)" "undecided (Staged ts ks)" "\<not> undecided (Done ts)" "\<not> undecided Dead"
  by (simp_all add: undecided_def)

text \<open>What a reply says about the outcome.\<close>

datatype reply =
    RCreate
  | REnd EndTxnRequest EndTxnResponse
  | RStatus TxnStatus
  | RPush PushTxnResponse
  | RError Error

fun op_key :: "record_op \<Rightarrow> key" where
  "op_key (OpCreate thr t) = txnRecordKey t"
| "op_key (OpEnd t req) = txnRecordKey t"
| "op_key (OpHeartbeat t req) = txnRecordKey t"
| "op_key (OpPush req) = TransactionKey (AnchorKey (PusheeTxn req)) (ID (PusheeTxn req))"
| "op_key (OpRecover req) = TransactionKey (rKey req) (rcTxnID req)"

fun op_wf :: "record_op \<Rightarrow> bool" where
  "op_wf (OpCreate thr t) = rec_wf t"
| "op_wf (OpEnd t req) = rec_wf t"
| "op_wf (OpHeartbeat t req) = uuid_ok (hbWaitingFor req)"
| "op_wf (OpPush req) = uuid_ok (ID (PusheeTxn req))"
| "op_wf (OpRecover req) = True"

definition answer :: "('r \<Rightarrow> reply) \<Rightarrow> 's \<Rightarrow> Error + 'r \<times> 's \<Rightarrow> reply \<times> 's" where
  "answer mk s r = (case r of Inl e \<Rightarrow> (RError e, s) | Inr (x, s') \<Rightarrow> (mk x, s'))"

text \<open>One operation: an error leaves the state of the engine as it was.\<close>

fun apply_op :: "'s deps \<Rightarrow> kv_codec \<Rightarrow> record_op \<Rightarrow> 's \<Rightarrow> reply \<times> 's" where
  "apply_op E K (OpCreate thr t) s = answer (\<lambda>_. RCreate) s (createTxnRecord E K thr (Some t) s)"
| "apply_op E K (OpEnd t req) s = answer (REnd req) s (evalEndTxn E K (Some t) req s)"
| "apply_op E K (OpHeartbeat t req) s = answer RStatus s (evalHeartbeatTxn E K (Some t) req s)"
| "apply_op E K (OpPush req) s = answer RPush s (evalPushTxn E K req s)"
| "apply_op E K (OpRecover req) s = answer RStatus s (evalRecoverTxn E K req s)"

fun run_ops :: "'s deps \<Rightarrow> kv_codec \<Rightarrow> record_op list \<Rightarrow> 's \<Rightarrow> reply list \<times> 's" where
  "run_ops E K [] s = ([], s)"
| "run_ops E K (op # ops) s =
     (let (r, s1) = apply_op E K op s; (rs, s2) = run_ops E K ops s1 in (r # rs, s2))"

text \<open>The outcome a reply reports, and the commit timestamp it gives.\<close>

fun says :: "reply \<Rightarrow> fate \<Rightarrow> bool" where
  "says (REnd req resp) f =
     (if Commit req then (InFlight req = [] \<longrightarrow> f = Done (CommitTimestamp resp)) else f = Dead)"
| "says (RPush resp) f =
     ((prStatus resp = COMMITTED \<longrightarrow> f = Done (prCommitTS resp)) \<and> (prStatus resp = ABORTED \<longrightarrow> f = Dead) \<and>
      (prStatus resp = STAGING \<longrightarrow> f = Staged (prCommitTS resp) (prInFlightKeys resp)))"
| "says (RStatus st) f =
     ((st = COMMITTED \<longrightarrow> (\<exists>ts. f = Done ts)) \<and> (st = ABORTED \<longrightarrow> f = Dead \<or> f = Unknown))"
| "says _ f = True"

abbreviation fate_at :: "kv_codec \<Rightarrow> contents \<Rightarrow> key \<Rightarrow> fate" where
  "fate_at K c key \<equiv> fate_of (record_at K c key)"

text \<open>The refinement of one operation: one step of the record, a truthful reply, nothing else touched.\<close>

definition op_refines :: "('s \<Rightarrow> contents) \<Rightarrow> kv_codec \<Rightarrow> record_op \<Rightarrow> 's \<Rightarrow> reply \<times> 's \<Rightarrow> bool" where
  "op_refines c K op s r \<longleftrightarrow>
     fate_step op (fate_at K (c s) (op_key op)) (fate_at K (c (snd r)) (op_key op)) \<and>
     says (fst r) (fate_at K (c (snd r)) (op_key op)) \<and>
     (\<forall>k. k \<noteq> op_key op \<longrightarrow> c (snd r) k = c s k) \<and> record_ok K (c (snd r)) (op_key op)"

lemma op_refines_keep:
  "record_ok K (c s) (op_key op) \<Longrightarrow> says r (fate_at K (c s) (op_key op)) \<Longrightarrow> op_refines c K op s (r, s)"
  by (simp add: op_refines_def keep)

lemma op_refines_save:
  assumes "healthy E c" and "kv_codec_ok K" and "rec_wf t" and "key = op_key op"
    and "fate_step op (fate_at K (c s) key) (fate_of (Some t))" and "says (mk x) (fate_of (Some t))"
  shows "op_refines c K op s (answer mk s (save_record E K key t x s))"
proof -
  obtain s' raw where s': "save_record E K key t x s = Inr (x, s')" "c s' = (c s)(key \<mapsto> raw)"
    "record_at K (c s') key = Some t" "record_ok K (c s') key"
    by (rule save_record_ok [OF assms(1,2,3)])
  then show ?thesis using assms(4-6) by (simp add: op_refines_def answer_def)
qed

lemmas answer_simps [simp] =
  answer_def [where r = "Inl e" for e, simplified] answer_def [where r = "Inr (x, s')" for x s', simplified]

lemma with_record_eq:
  assumes "healthy E c" and "record_ok K (c s) key"
  shows "with_record E K key s f = f (record_at K (c s) key)"
  using load_record [OF assms] by (simp add: with_record_def)

lemma with_meta_simps [simp]:
  "ID (with_meta m n st rts hb iks w wk fks) = ID m" "Name (with_meta m n st rts hb iks w wk fks) = n"
  "Status (with_meta m n st rts hb iks w wk fks) = st" "WaitingFor (with_meta m n st rts hb iks w wk fks) = w"
  by (simp_all add: with_meta_def TxnMeta.defs Transaction.defs)

lemma poisoned_wf: "uuid_ok (ID m) \<Longrightarrow> rec_wf (poisoned_txn m)"
  by (simp add: rec_wf_def txn_wf_def poisoned_txn_def ascii_def uuid_ok_def uuid_nil_def)

lemma fate_of_status:
  "Status t = ABORTED \<Longrightarrow> fate_of (Some t) = Dead"
  "Status t = COMMITTED \<Longrightarrow> fate_of (Some t) = Done (WriteTimestamp t)"
  "Status t = STAGING \<Longrightarrow> fate_of (Some t) = Staged (WriteTimestamp t) (InFlightKeys t)"
  "Status t = PENDING \<Longrightarrow> fate_of (Some t) = Live (LastHeartbeat t) (Priority t)"
  by simp_all

lemma undecided_iff:
  "undecided (fate_of x) \<longleftrightarrow>
     \<not> (case x of None \<Rightarrow> False | Some t \<Rightarrow> Status t = ABORTED) \<and> \<not> (case x of None \<Rightarrow> False | Some t \<Rightarrow> Status t = COMMITTED)"
proof (cases x)
  case None
  then show ?thesis by simp
next
  case (Some t)
  then show ?thesis by (cases "Status t") simp_all
qed

lemma create_refines:
  assumes env: "healthy E c" "kv_codec_ok K" and ok: "record_ok K (c s) (txnRecordKey t)" and wf: "rec_wf t"
  shows "op_refines c K (OpCreate thr t) s (apply_op E K (OpCreate thr t) s)"
proof (cases "(\<not> IsEmpty thr \<and> LessEq (MinTimestamp t) thr) \<or> \<not> undecided (fate_at K (c s) (txnRecordKey t))")
  case True
  have "\<exists>e. createTxnRecord E K thr (Some t) s = Inl e"
    using True unfolding createTxnRecord_def option.case with_record_eq [OF env(1) ok] undecided_iff by auto
  then show ?thesis using ok by (auto intro!: op_refines_keep)
next
  case False
  then have "createTxnRecord E K thr (Some t) s =
      save_record E K (txnRecordKey t) (t\<lparr>Status := PENDING\<rparr>) () s"
    unfolding createTxnRecord_def option.case with_record_eq [OF env(1) ok] undecided_iff by auto
  with False wf show ?thesis
    by (auto intro!: op_refines_save [OF env] fate_step.create)
qed

lemma end_refines:
  assumes env: "healthy E c" "kv_codec_ok K" and ok: "record_ok K (c s) (txnRecordKey t)" and wf: "rec_wf t"
  shows "op_refines c K (OpEnd t req) s (apply_op E K (OpEnd t req) s)"
proof -
  let ?x = "record_at K (c s) (txnRecordKey t)"
  have ev: "evalEndTxn E K (Some t) req s =
    (if etAll req then Inl (NewErrorf ''EndTxn.All in a batch that is not one-phase-commit shaped'')
     else case end_txn_settled t req ?x of
              Some (Inl e) \<Rightarrow> Inl e
            | Some (Inr resp) \<Rightarrow> Inr (resp, s)
            | None \<Rightarrow>
                if Commit req \<and> \<not> Equal (ReadTimestamp t) (WriteTimestamp t)
                then Inl ((NewErrorf ''transaction %s cannot commit: write timestamp %s diverged from read timestamp %s'')
                       \<lparr>TxnRetry := Some (WriteTimestamp t)\<rparr>)
                else save_record E K (txnRecordKey t) (end_txn_final t req)
                  \<lparr>CommitTimestamp = WriteTimestamp t, OnePhase = False\<rparr> s)"
    unfolding evalEndTxn_def option.case with_record_eq [OF env(1) ok] ..
  show ?thesis
  proof (cases "\<exists>e. evalEndTxn E K (Some t) req s = Inl e")
    case True
    then show ?thesis using ok by (auto intro!: op_refines_keep)
  next
    case False
    show ?thesis
    proof (cases "end_txn_settled t req ?x")
      case None
      have u: "undecided (fate_of ?x)"
        using None by (auto simp: end_txn_settled_def undecided_iff split: option.splits if_splits)
      have eq: "Commit req \<Longrightarrow> ReadTimestamp t = WriteTimestamp t"
        using False unfolding ev None by (auto simp: Equal_def split: if_splits)
      have sv: "evalEndTxn E K (Some t) req s = save_record E K (txnRecordKey t) (end_txn_final t req)
          \<lparr>CommitTimestamp = WriteTimestamp t, OnePhase = False\<rparr> s"
        using False unfolding ev None by (auto split: if_splits)
      have st: "fate_step (OpEnd t req) (fate_of ?x) (fate_of (Some (end_txn_final t req)))"
        using u eq by (auto simp: end_txn_final_def intro: fate_step.intros)
      show ?thesis unfolding apply_op.simps sv
      using st wf
        by (intro op_refines_save [OF env]) (simp_all add: end_txn_final_def)
    next
      case (Some r)
      then obtain resp x where r: "r = Inr resp" "?x = Some x" "Status x = COMMITTED" "Commit req"
          "resp = \<lparr>CommitTimestamp = WriteTimestamp x, OnePhase = False\<rparr>"
        using False unfolding ev by (auto simp: end_txn_settled_def split: option.splits if_splits)
      then have "evalEndTxn E K (Some t) req s = Inr (resp, s)" using False Some unfolding ev by auto
      then show ?thesis using r ok by (auto intro!: op_refines_keep)
    qed
  qed
qed

lemma heartbeat_refines:
  assumes env: "healthy E c" "kv_codec_ok K" and ok: "record_ok K (c s) (txnRecordKey t)"
    and wf: "uuid_ok (hbWaitingFor req)"
  shows "op_refines c K (OpHeartbeat t req) s (apply_op E K (OpHeartbeat t req) s)"
proof (cases "record_at K (c s) (txnRecordKey t)")
  case None
  then show ?thesis using ok
    by (auto simp: evalHeartbeatTxn_def with_record_eq [OF env(1) ok] intro!: op_refines_keep)
next
  case (Some x)
  show ?thesis
  proof (cases "Status x = PENDING")
    case True
    have st: "fate_step (OpHeartbeat t req) (Live (LastHeartbeat x) (Priority x))
        (Live (Forward (LastHeartbeat x) (hbNow req)) (Priority x))"
      by (rule fate_step.beat) (simp add: Forward_def less_imp_le)
    show ?thesis unfolding apply_op.simps evalHeartbeatTxn_def option.case with_record_eq [OF env(1) ok] Some
      using st Some True wf record_at_wf [OF ok Some]
      by (auto intro!: op_refines_save [OF env] rec_wf_waiting)
  next
    case False
    show ?thesis
      unfolding apply_op.simps evalHeartbeatTxn_def option.case with_record_eq [OF env(1) ok] Some
      using Some ok False by (cases "Status x") (auto intro!: op_refines_keep)
  qed
qed

lemma push_refines:
  assumes env: "healthy E c" "kv_codec_ok K" and ok: "record_ok K (c s) (op_key (OpPush req))"
    and wf: "uuid_ok (ID (PusheeTxn req))"
  shows "op_refines c K (OpPush req) s (apply_op E K (OpPush req) s)"
proof (cases "record_at K (c s) (op_key (OpPush req))")
  case None
  show ?thesis
  proof (cases "expired (puNow req) (MinTimestamp (PusheeTxn req))")
    case True
    show ?thesis unfolding apply_op.simps evalPushTxn_def Let_def op_key.simps [symmetric] with_record_eq [OF env(1) ok] None option.case
      using True None poisoned_wf [OF wf]
      by (auto simp: poisoned_txn_def push_response_def intro!: op_refines_save [OF env] fate_step.poison)
  next
    case False
    show ?thesis unfolding apply_op.simps evalPushTxn_def Let_def op_key.simps [symmetric] with_record_eq [OF env(1) ok] None option.case
      using False None ok
      by (auto simp: push_response_def intro!: op_refines_keep)
  qed
next
  case (Some x)
  note ev = apply_op.simps evalPushTxn_def Let_def op_key.simps [symmetric] with_record_eq [OF env(1) ok] Some option.case
  show ?thesis
  proof (cases "Status x = PENDING \<and> (expired (puNow req) (LastHeartbeat x) \<or> ForceAbort req \<or>
      PushAbort req \<and> sint (Priority x) < sint (pusherPriority req))")
    case True
    then have sv: "(case Status x of
               COMMITTED \<Rightarrow> Inr (push_response COMMITTED (WriteTimestamp x) [], s)
             | ABORTED \<Rightarrow> Inr (push_response ABORTED zero_ts [], s)
             | STAGING \<Rightarrow> Inr (push_response STAGING (WriteTimestamp x) (InFlightKeys x), s)
             | PENDING \<Rightarrow>
                 if expired (puNow req) (LastHeartbeat x)
                 then save_record E K (op_key (OpPush req)) (x\<lparr>Status := ABORTED\<rparr>) (push_response ABORTED zero_ts []) s
                 else if ForceAbort req
                 then save_record E K (op_key (OpPush req)) (x\<lparr>Status := ABORTED\<rparr>) (push_response ABORTED zero_ts []) s
                 else if PushAbort req \<and> sint (pusherPriority req) > sint (Priority x)
                 then save_record E K (op_key (OpPush req)) (x\<lparr>Status := ABORTED\<rparr>) (push_response ABORTED zero_ts []) s
                 else Inr (push_response PENDING zero_ts [], s)) =
        save_record E K (op_key (OpPush req)) (x\<lparr>Status := ABORTED\<rparr>) (push_response ABORTED zero_ts []) s"
      by auto
    have st: "fate_step (OpPush req) (Live (LastHeartbeat x) (Priority x)) Dead"
      using True by (intro fate_step.push) auto
    show ?thesis unfolding ev sv
      using st Some True record_at_wf [OF ok Some]
      by (intro op_refines_save [OF env]) (auto simp: push_response_def)
  next
    case False
    show ?thesis unfolding ev
      using False Some ok
      by (cases "Status x") (auto simp: push_response_def intro!: op_refines_keep)
  qed
qed

lemma recover_refines:
  assumes env: "healthy E c" "kv_codec_ok K" and ok: "record_ok K (c s) (op_key (OpRecover req))"
  shows "op_refines c K (OpRecover req) s (apply_op E K (OpRecover req) s)"
proof (cases "record_at K (c s) (op_key (OpRecover req))")
  case None
  show ?thesis unfolding apply_op.simps evalRecoverTxn_def Let_def op_key.simps [symmetric] with_record_eq [OF env(1) ok] None option.case
      using None ok
    by (auto intro!: op_refines_keep)
next
  case (Some x)
  note ev = apply_op.simps evalRecoverTxn_def Let_def op_key.simps [symmetric] with_record_eq [OF env(1) ok] Some option.case
  show ?thesis
  proof (cases "Status x = STAGING")
    case True
    have st: "fate_step (OpRecover req) (Staged (WriteTimestamp x) (InFlightKeys x))
        (if rcCommit req then Done (WriteTimestamp x) else Dead)"
      by (auto intro: fate_step.intros)
    show ?thesis unfolding ev
      using st Some True record_at_wf [OF ok Some]
      by (auto split: if_splits intro!: op_refines_save [OF env])
  next
    case False
    show ?thesis unfolding ev
      using False Some ok
      by (cases "Status x") (auto intro!: op_refines_keep)
  qed
qed

lemma apply_op_refines:
  assumes "healthy E c" "kv_codec_ok K" "record_ok K (c s) (op_key op)" "op_wf op"
  shows "op_refines c K op s (apply_op E K op s)"
proof (cases op)
  case (OpCreate thr t)
  then show ?thesis using create_refines [OF assms(1,2)] assms(3,4) by simp
next
  case (OpEnd t req)
  then show ?thesis using end_refines [OF assms(1,2)] assms(3,4) by simp
next
  case (OpHeartbeat t req)
  then show ?thesis using heartbeat_refines [OF assms(1,2)] assms(3,4) by simp
next
  case (OpPush req)
  then show ?thesis using push_refines [OF assms(1,2)] assms(3,4) by simp
next
  case (OpRecover req)
  then show ?thesis using recover_refines [OF assms(1,2)] assms(3) by simp
qed

section \<open>Agreement\<close>

text \<open>The outcome a reply reports, if it reports one with certainty.\<close>

fun reports :: "reply \<Rightarrow> fate option" where
  "reports (REnd req resp) =
     (if Commit req then (if InFlight req = [] then Some (Done (CommitTimestamp resp)) else None) else Some Dead)"
| "reports (RPush resp) =
     (if prStatus resp = COMMITTED then Some (Done (prCommitTS resp))
      else if prStatus resp = ABORTED then Some Dead else None)"
| "reports _ = None"

lemma reports_says: "says r f \<Longrightarrow> reports r = Some g \<Longrightarrow> f = g \<and> \<not> undecided g"
  by (cases r rule: reports.cases) (auto split: if_splits)

lemma decided_final: "fate_step op f f' \<Longrightarrow> \<not> undecided f \<Longrightarrow> f' = f"
  by (cases f) (auto elim: fate_step_Done fate_step_Dead)

lemma run_decided:
  assumes env: "healthy E c" "kv_codec_ok K"
  shows "record_ok K (c s) key \<Longrightarrow> \<forall>op \<in> set ops. op_wf op \<and> op_key op = key \<Longrightarrow>
    run_ops E K ops s = (rs, s') \<Longrightarrow>
    (\<not> undecided (fate_at K (c s) key) \<longrightarrow> fate_at K (c s') key = fate_at K (c s) key) \<and>
    (\<forall>r \<in> set rs. \<forall>g. reports r = Some g \<longrightarrow> fate_at K (c s') key = g)"
proof (induction ops arbitrary: s rs)
  case Nil
  then show ?case by simp
next
  case (Cons op ops)
  obtain r s1 where op: "apply_op E K op s = (r, s1)" by fastforce
  obtain rs1 where rest: "run_ops E K ops s1 = (rs1, s')" "rs = r # rs1"
    using Cons.prems(3) op by (auto split: prod.splits)
  have ref: "op_refines c K op s (r, s1)"
    using apply_op_refines [OF env, of s op] Cons.prems(1,2) op by simp
  have key: "op_key op = key" using Cons.prems(2) by simp
  have st: "fate_step op (fate_at K (c s) key) (fate_at K (c s1) key)" "says r (fate_at K (c s1) key)"
    "record_ok K (c s1) key"
    using ref by (auto simp: op_refines_def key)
  have IH: "\<not> undecided (fate_at K (c s1) key) \<longrightarrow> fate_at K (c s') key = fate_at K (c s1) key"
    "\<forall>r \<in> set rs1. \<forall>g. reports r = Some g \<longrightarrow> fate_at K (c s') key = g"
    using Cons.IH [OF st(3) _ rest(1)] Cons.prems(2) by simp_all
  have "fate_at K (c s') key = g" if "reports r = Some g" for g
    using reports_says [OF st(2) that] IH(1) by simp
  moreover have "fate_at K (c s') key = fate_at K (c s) key" if "\<not> undecided (fate_at K (c s) key)"
    using decided_final [OF st(1) that] IH(1) that by simp
  ultimately show ?case using IH(2) rest(2) by auto
qed




section \<open>Instances\<close>

definition demo_T :: Transaction where
  "demo_T = NewTransaction (replicate 16 1) ''t'' 1 (Timestamp 5 0)"

definition demo_end :: EndTxnRequest where
  "demo_end = \<lparr>rKey = [], rEndKey = [], Commit = True, etIntentKeys = [[7]], InFlight = [], etAll = False\<rparr>"

definition demo_push :: PushTxnRequest where
  "demo_push = \<lparr>rKey = [], rEndKey = [], PusherTxn = None, PusheeTxn = TxnMeta.truncate demo_T, PushAbort = True,
     puNow = Timestamp 9000000000 0, QueryOnly = False, ForceAbort = False\<rparr>"

lemma demo_T_simps [simp]:
  "ID demo_T = replicate 16 1" "AnchorKey demo_T = []" "rec_wf demo_T" "ReadTimestamp demo_T = Timestamp 5 0"
  "WriteTimestamp demo_T = Timestamp 5 0" "Epoch demo_T = 0"
  by (simp_all add: demo_T_def NewTransaction_def rec_wf_def txn_wf_def uuid_ok_def uuid_nil_def ascii_def)

lemma demo_push_key [simp]: "op_key (OpPush demo_push) = txnRecordKey demo_T"
  by (simp add: demo_push_def txnRecordKey_def TxnMeta.truncate_def)

lemma demo_push_wf [simp]: "op_wf (OpPush demo_push)"
  by (simp add: demo_push_def uuid_ok_def)

lemma empty_record: "record_ok K (map_of []) k" "record_at K (map_of []) k = None"
  by (simp_all add: record_ok_def record_at_def)

lemma demo_commit:
  obtains s1 where "apply_op (mem_deps True) demo_codec (OpEnd demo_T demo_end) [] =
      (REnd demo_end \<lparr>CommitTimestamp = Timestamp 5 0, OnePhase = False\<rparr>, s1)"
    and "record_at demo_codec (map_of s1) (txnRecordKey demo_T) = Some (end_txn_final demo_T demo_end)"
    and "record_ok demo_codec (map_of s1) (txnRecordKey demo_T)"
proof -
  have wf: "rec_wf (end_txn_final demo_T demo_end)" by (simp add: end_txn_final_def)
  obtain s1 raw where s1: "save_record (mem_deps True) demo_codec (txnRecordKey demo_T) (end_txn_final demo_T demo_end)
      \<lparr>CommitTimestamp = Timestamp 5 0, OnePhase = False\<rparr> [] = Inr (\<lparr>CommitTimestamp = Timestamp 5 0, OnePhase = False\<rparr>, s1)"
    "record_at demo_codec (map_of s1) (txnRecordKey demo_T) = Some (end_txn_final demo_T demo_end)"
    "record_ok demo_codec (map_of s1) (txnRecordKey demo_T)"
    by (rule save_record_ok [OF mem_healthy demo_codec_ok wf])
  have "evalEndTxn (mem_deps True) demo_codec (Some demo_T) demo_end [] =
      Inr (\<lparr>CommitTimestamp = Timestamp 5 0, OnePhase = False\<rparr>, s1)"
    using s1(1) unfolding evalEndTxn_def option.case with_record_eq [OF mem_healthy empty_record(1)] empty_record(2)
    by (simp add: end_txn_settled_def Equal_def demo_end_def)
  with s1 show thesis by (intro that) simp_all
qed

lemma demo_run:
  obtains s1 where "run_ops (mem_deps True) demo_codec [OpEnd demo_T demo_end, OpPush demo_push] [] =
    ([REnd demo_end \<lparr>CommitTimestamp = Timestamp 5 0, OnePhase = False\<rparr>, RPush (push_response COMMITTED (Timestamp 5 0) [])], s1)"
proof -
  obtain s1 where s1: "apply_op (mem_deps True) demo_codec (OpEnd demo_T demo_end) [] =
      (REnd demo_end \<lparr>CommitTimestamp = Timestamp 5 0, OnePhase = False\<rparr>, s1)"
    "record_at demo_codec (map_of s1) (txnRecordKey demo_T) = Some (end_txn_final demo_T demo_end)"
    "record_ok demo_codec (map_of s1) (txnRecordKey demo_T)"
    by (rule demo_commit)
  have "apply_op (mem_deps True) demo_codec (OpPush demo_push) s1 = (RPush (push_response COMMITTED (Timestamp 5 0) []), s1)"
    unfolding apply_op.simps evalPushTxn_def Let_def op_key.simps [symmetric] demo_push_key
      with_record_eq [OF mem_healthy s1(3)] s1(2)
    by (simp add: end_txn_final_def demo_end_def)
  with s1(1) show thesis by (intro that [of s1]) (simp del: apply_op.simps)
qed




end
