(* ===== verification/RaftStorage.thy ===== *)
theory RaftStorage
  imports Kvpb_Proto MVCC_Txn
begin

text \<open>
  The Raft log and the persisted state of a replica (\<^verbatim>\<open>src/pkg/kvserver/raft_storage.go\<close>,
  \<^verbatim>\<open>state.go\<close> and the deferred truncation of \<^verbatim>\<open>raftengine.go\<close>). The log lives in the engine
  under the range's log keys; the record \<open>raftStorage\<close> is the bookkeeping the code keeps in
  memory. \<open>log_rep\<close> relates both to the abstract log, a list of entries after the truncation
  point, which appending, truncating and reading refine. The marshallers of
  \<^verbatim>\<open>go.etcd.io/raft\<close> and \<^verbatim>\<open>encoding/json\<close> are the parameters \<open>raft_codec\<close>. An index never
  reaches the largest 64-bit value, at which the deletion loops of the source would wrap.
\<close>

section \<open>Entries and the persisted state\<close>

datatype EntryType = EntryNormal | EntryConfChange | EntryOther

record Entry =
  eTerm :: "64 word"
  eIndex :: "64 word"
  eType :: EntryType
  eData :: bytes

record truncatedState =
  tsIndex :: "64 word"
  tsTerm :: "64 word"

record replicaState =
  AppliedIndex :: "64 word"
  TruncatedIndex :: "64 word"
  TruncatedTerm :: "64 word"
  GCThreshold :: timestamp
  SizeBytes :: "64 word"
  Frozen :: bool
  MergedInto :: RangeID
  ClosedTS :: timestamp

record HardState =
  hsTerm :: "64 word"
  hsVote :: "64 word"
  hsCommit :: "64 word"

record raft_codec =
  entMarshal :: "Entry \<Rightarrow> io_error + bytes"
  entUnmarshal :: "bytes \<Rightarrow> io_error + Entry"
  entSize :: "Entry \<Rightarrow> 64 word"
  jsonState :: "replicaState \<Rightarrow> io_error + bytes"
  unjsonState :: "bytes \<Rightarrow> io_error + replicaState"
  jsonTrunc :: "truncatedState \<Rightarrow> io_error + bytes"
  unjsonTrunc :: "bytes \<Rightarrow> io_error + truncatedState"
  hsMarshal :: "HardState \<Rightarrow> io_error + bytes"
  hsUnmarshal :: "bytes \<Rightarrow> io_error + HardState"

definition raft_codec_ok :: "raft_codec \<Rightarrow> bool" where
  "raft_codec_ok RC \<longleftrightarrow>
     (\<forall>e. \<exists>raw. entMarshal RC e = Inr raw \<and> raw \<noteq> [] \<and> entUnmarshal RC raw = Inr e) \<and>
     (\<forall>st. \<exists>raw. jsonState RC st = Inr raw \<and> raw \<noteq> [] \<and> unjsonState RC raw = Inr st) \<and>
     (\<forall>t. \<exists>raw. jsonTrunc RC t = Inr raw \<and> raw \<noteq> [] \<and> unjsonTrunc RC raw = Inr t) \<and>
     (\<forall>h. \<exists>raw. hsMarshal RC h = Inr raw \<and> raw \<noteq> [] \<and> hsUnmarshal RC raw = Inr h)"

datatype raft_error = RIo io_error | RCorrupt io_error | ErrCompacted | ErrUnavailable | BeyondLast
  | ErrSnapshotTemporarilyUnavailable

definition zero_state :: replicaState where
  "zero_state = \<lparr>AppliedIndex = 0, TruncatedIndex = 0, TruncatedTerm = 0, GCThreshold = zero_ts, SizeBytes = 0,
     Frozen = False, MergedInto = 0, ClosedTS = zero_ts\<rparr>"

definition r_io :: "io_error + 'a \<Rightarrow> raft_error + 'a" where
  "r_io r = (case r of Inl e \<Rightarrow> Inl (RIo e) | Inr x \<Rightarrow> Inr x)"

definition r_corrupt :: "io_error + 'a \<Rightarrow> raft_error + 'a" where
  "r_corrupt r = (case r of Inl e \<Rightarrow> Inl (RCorrupt e) | Inr x \<Rightarrow> Inr x)"

definition loadReplicaStateFrom :: "'s deps \<Rightarrow> raft_codec \<Rightarrow> RangeID \<Rightarrow> 's \<Rightarrow> raft_error + replicaState" where
  "loadReplicaStateFrom E RC rangeID s =
     res_bind (r_io (Batch_Get E s (RaftAppliedStateKey rangeID))) (\<lambda>raw.
       case raw of None \<Rightarrow> Inr zero_state | Some raw \<Rightarrow> r_corrupt (unjsonState RC raw))"

definition putReplicaState :: "'s deps \<Rightarrow> raft_codec \<Rightarrow> RangeID \<Rightarrow> replicaState \<Rightarrow> 's \<Rightarrow> raft_error + 's" where
  "putReplicaState E RC rangeID st s =
     res_bind (r_io (jsonState RC st)) (\<lambda>raw. r_io (Batch_Put E (RaftAppliedStateKey rangeID) raw s))"

text \<open>\<open>split\<close>: the Raft state lives on an engine of its own.\<close>

definition loadTruncatedState ::
  "'s deps \<Rightarrow> raft_codec \<Rightarrow> bool \<Rightarrow> RangeID \<Rightarrow> 's \<Rightarrow> 's \<Rightarrow> raft_error + truncatedState" where
  "loadTruncatedState E RC split rangeID raftEng stateEng =
     (let fromState = res_bind (loadReplicaStateFrom E RC rangeID stateEng)
            (\<lambda>st. Inr \<lparr>tsIndex = TruncatedIndex st, tsTerm = TruncatedTerm st\<rparr>)
      in if split
         then res_bind (r_io (Batch_Get E raftEng (RaftTruncatedStateKey rangeID))) (\<lambda>raw.
           case raw of Some raw \<Rightarrow> r_corrupt (unjsonTrunc RC raw) | None \<Rightarrow> fromState)
         else fromState)"

definition putTruncatedState :: "'s deps \<Rightarrow> raft_codec \<Rightarrow> RangeID \<Rightarrow> truncatedState \<Rightarrow> 's \<Rightarrow> raft_error + 's" where
  "putTruncatedState E RC rangeID ts s =
     res_bind (r_io (jsonTrunc RC ts)) (\<lambda>raw. r_io (Batch_Put E (RaftTruncatedStateKey rangeID) raw s))"

definition loadRangeDescriptor :: "'s deps \<Rightarrow> kv_codec \<Rightarrow> RangeID \<Rightarrow> 's \<Rightarrow> raft_error + RangeDescriptor option" where
  "loadRangeDescriptor E K rangeID s =
     res_bind (r_io (Batch_Get E s (RangeDescriptorKey rangeID))) (\<lambda>raw.
       case raw of None \<Rightarrow> Inr None
       | Some raw \<Rightarrow> res_bind (r_corrupt (unjsonDesc K raw)) (\<lambda>d. Inr (Some d)))"

definition PutRangeDescriptor :: "'s deps \<Rightarrow> kv_codec \<Rightarrow> RangeDescriptor \<Rightarrow> 's \<Rightarrow> raft_error + 's" where
  "PutRangeDescriptor E K desc s =
     res_bind (r_io (jsonDesc K desc)) (\<lambda>raw. r_io (Batch_Put E (RangeDescriptorKey (dRangeID desc)) raw s))"

section \<open>The log\<close>

record raftStorage =
  rsSplit :: bool
  rsRangeID :: RangeID
  rsLast :: "64 word"
  rsVoters :: "64 word list"
  rsApplied :: "64 word"
  rsTrunc :: truncatedState

definition setConfStateRaw :: "64 word list \<Rightarrow> raftStorage \<Rightarrow> raftStorage" where
  "setConfStateRaw voters rs = rs\<lparr>rsVoters := voters\<rparr>"

definition setConfState :: "RangeDescriptor \<Rightarrow> raftStorage \<Rightarrow> raftStorage" where
  "setConfState desc rs = setConfStateRaw (map (\<lambda>r. scast (rdReplicaID r)) (Replicas desc)) rs"

definition InitialState ::
  "'s deps \<Rightarrow> raft_codec \<Rightarrow> raftStorage \<Rightarrow> 's \<Rightarrow> raft_error + HardState \<times> 64 word list" where
  "InitialState E RC rs s =
     res_bind (r_io (Batch_Get E s (RaftHardStateKey (rsRangeID rs)))) (\<lambda>raw.
     res_bind (case raw of None \<Rightarrow> Inr \<lparr>hsTerm = 0, hsVote = 0, hsCommit = 0\<rparr>
               | Some raw \<Rightarrow> r_corrupt (hsUnmarshal RC raw)) (\<lambda>hs. Inr (hs, rsVoters rs)))"

definition setHardState :: "'s deps \<Rightarrow> raft_codec \<Rightarrow> HardState \<Rightarrow> raftStorage \<Rightarrow> 's \<Rightarrow> raft_error + 's" where
  "setHardState E RC hs rs s =
     res_bind (r_io (hsMarshal RC hs)) (\<lambda>raw. r_io (Batch_Put E (RaftHardStateKey (rsRangeID rs)) raw s))"

definition rs_setApplied :: "64 word \<Rightarrow> raftStorage \<Rightarrow> raftStorage" where
  "rs_setApplied idx rs = (if idx > rsApplied rs then rs\<lparr>rsApplied := idx\<rparr> else rs)"

definition FirstIndex :: "raftStorage \<Rightarrow> 64 word" where
  "FirstIndex rs = tsIndex (rsTrunc rs) + 1"

text \<open>The entries a loop \<^verbatim>\<open>for ok := it.SeekGE(lower); ok; ok = it.Next()\<close> visits.\<close>

function iter_rest :: "bool \<times> iter \<Rightarrow> (bytes \<times> bytes) list" where
  "iter_rest (ok, it) = (if ok \<and> iValid it then (iKey it, iValue it) # iter_rest (iNext it) else [])"
  by pat_completeness auto
termination
  by (relation "measure (\<lambda>oi. remaining (snd oi))") auto

declare iter_rest.simps [simp del]

definition newest_index :: "raft_codec \<Rightarrow> (bytes \<times> bytes) list \<Rightarrow> 64 word \<Rightarrow> raft_error + 64 word" where
  "newest_index RC kvs lst =
     foldl (\<lambda>r kv. res_bind r (\<lambda>lst. res_bind (r_corrupt (entUnmarshal RC (snd kv)))
       (\<lambda>ent. Inr (if eIndex ent > lst then eIndex ent else lst)))) (Inr lst) kvs"

text \<open>\<^verbatim>\<open>it.Close()\<close> reports the error of creating or reading the iterator.\<close>

definition it_close :: "'s deps \<Rightarrow> 's \<Rightarrow> bytes \<Rightarrow> bytes \<Rightarrow> raft_error + unit" where
  "it_close E s lower upper = (case pIter E s lower upper of Inl e \<Rightarrow> Inl (RIo e) | Inr _ \<Rightarrow> Inr ())"

definition newRaftStorage ::
  "'s deps \<Rightarrow> raft_codec \<Rightarrow> bool \<Rightarrow> 's \<Rightarrow> 's \<Rightarrow> RangeID \<Rightarrow> RangeDescriptor \<Rightarrow> raft_error + raftStorage" where
  "newRaftStorage E RC split raftEng stateEng rangeID desc =
     res_bind (loadTruncatedState E RC split rangeID raftEng stateEng) (\<lambda>ts.
     let lower = RaftLogPrefix rangeID; it = NewIter E raftEng lower (PrefixEnd lower)
     in res_bind (newest_index RC (iter_rest (SeekGE lower it)) (tsIndex ts)) (\<lambda>lst.
       res_bind (it_close E raftEng lower (PrefixEnd lower)) (\<lambda>_.
       Inr (setConfState desc \<lparr>rsSplit = split, rsRangeID = rangeID, rsLast = lst, rsVoters = [],
         rsApplied = 0, rsTrunc = ts\<rparr>))))"

fun res_fold :: "('a \<Rightarrow> 's \<Rightarrow> 'e + 's) \<Rightarrow> 'a list \<Rightarrow> 's \<Rightarrow> 'e + 's" where
  "res_fold f [] s = Inr s"
| "res_fold f (x # xs) s = res_bind (f x s) (res_fold f xs)"

text \<open>The indexes from \<open>lo\<close> to \<open>hi\<close>, both included.\<close>

definition indexes :: "64 word \<Rightarrow> 64 word \<Rightarrow> 64 word list" where
  "indexes lo hi = map of_nat [unat lo..<Suc (unat hi)]"

definition delete_log :: "'s deps \<Rightarrow> RangeID \<Rightarrow> 64 word list \<Rightarrow> 's \<Rightarrow> raft_error + 's" where
  "delete_log E rangeID is s = res_fold (\<lambda>i s. r_io (Batch_Delete E (RaftLogKey rangeID i) s)) is s"

definition rs_append ::
  "'s deps \<Rightarrow> raft_codec \<Rightarrow> Entry list \<Rightarrow> raftStorage \<Rightarrow> 's \<Rightarrow> raft_error + raftStorage \<times> 's" where
  "rs_append E RC ents rs s =
     (if ents = [] then Inr (rs, s)
      else res_bind (res_fold (\<lambda>e s. res_bind (r_io (entMarshal RC e))
             (\<lambda>raw. r_io (Batch_Put E (RaftLogKey (rsRangeID rs) (eIndex e)) raw s))) ents s) (\<lambda>s.
           let newLast = eIndex (List.last ents)
           in res_bind (delete_log E (rsRangeID rs) (indexes (newLast + 1) (rsLast rs)) s)
                (\<lambda>s. Inr (rs\<lparr>rsLast := newLast\<rparr>, s))))"

definition stageTruncate ::
  "'s deps \<Rightarrow> 64 word \<Rightarrow> 64 word \<Rightarrow> raftStorage \<Rightarrow> 's \<Rightarrow> raft_error + raftStorage \<times> 's" where
  "stageTruncate E index term rs s =
     (if index \<le> tsIndex (rsTrunc rs) then Inr (rs, s)
      else if index > rsLast rs then Inl BeyondLast
      else res_bind (delete_log E (rsRangeID rs) (indexes (tsIndex (rsTrunc rs) + 1) index) s)
             (\<lambda>s. Inr (rs\<lparr>rsTrunc := \<lparr>tsIndex = index, tsTerm = term\<rparr>\<rparr>, s)))"

definition stageTruncatedState ::
  "'s deps \<Rightarrow> raft_codec \<Rightarrow> raftStorage \<Rightarrow> 's \<Rightarrow> raft_error + 's" where
  "stageTruncatedState E RC rs s =
     (if \<not> rsSplit rs then Inr s else putTruncatedState E RC (rsRangeID rs) (rsTrunc rs) s)"

text \<open>The entries of a read, until the size limit is passed.\<close>

fun collect_entries ::
  "raft_codec \<Rightarrow> 64 word \<Rightarrow> 64 word \<Rightarrow> Entry list \<Rightarrow> (bytes \<times> bytes) list \<Rightarrow> raft_error + Entry list" where
  "collect_entries RC maxSize sz ents [] = Inr ents"
| "collect_entries RC maxSize sz ents (kv # kvs) =
     res_bind (r_corrupt (entUnmarshal RC (snd kv))) (\<lambda>ent.
       if ents \<noteq> [] \<and> sz + entSize RC ent > maxSize then Inr ents
       else collect_entries RC maxSize (sz + entSize RC ent) (ents @ [ent]) kvs)"

definition Entries ::
  "'s deps \<Rightarrow> raft_codec \<Rightarrow> 64 word \<Rightarrow> 64 word \<Rightarrow> 64 word \<Rightarrow> raftStorage \<Rightarrow> 's \<Rightarrow> raft_error + Entry list" where
  "Entries E RC lo hi maxSize rs s =
     (if lo \<le> tsIndex (rsTrunc rs) then Inl ErrCompacted
      else if hi > rsLast rs + 1 then Inl BeyondLast
      else let lower = RaftLogKey (rsRangeID rs) lo; upper = RaftLogKey (rsRangeID rs) hi
           in res_bind (collect_entries RC maxSize 0 [] (iter_rest (SeekGE lower (NewIter E s lower upper)))) (\<lambda>ents.
                if ents = [] \<or> eIndex (hd ents) \<noteq> lo then Inl ErrUnavailable else Inr ents))"

definition Term :: "'s deps \<Rightarrow> raft_codec \<Rightarrow> 64 word \<Rightarrow> raftStorage \<Rightarrow> 's \<Rightarrow> raft_error + 64 word" where
  "Term E RC i rs s =
     (if i = tsIndex (rsTrunc rs) then Inr (tsTerm (rsTrunc rs))
      else if i < tsIndex (rsTrunc rs) then Inl ErrCompacted
      else if i > rsLast rs then Inl ErrUnavailable
      else res_bind (r_io (Batch_Get E s (RaftLogKey (rsRangeID rs) i))) (\<lambda>raw.
        case raw of None \<Rightarrow> Inl ErrUnavailable
        | Some raw \<Rightarrow> res_bind (r_corrupt (entUnmarshal RC raw)) (\<lambda>ent. Inr (eTerm ent))))"

definition Snapshot ::
  "'s deps \<Rightarrow> raft_codec \<Rightarrow> raftStorage \<Rightarrow> 's \<Rightarrow> raft_error + 64 word \<times> 64 word \<times> 64 word list" where
  "Snapshot E RC rs s =
     (if rsApplied rs = 0 \<or> rsVoters rs = [] then Inl ErrSnapshotTemporarilyUnavailable
      else case Term E RC (rsApplied rs) rs s of Inl _ \<Rightarrow> Inl ErrSnapshotTemporarilyUnavailable
           | Inr term \<Rightarrow> Inr (rsApplied rs, term, rsVoters rs))"

definition applyIncomingSnapshot :: "64 word \<Rightarrow> 64 word \<Rightarrow> raftStorage \<Rightarrow> raftStorage" where
  "applyIncomingSnapshot index term rs =
     rs\<lparr>rsTrunc := \<lparr>tsIndex = index, tsTerm = term\<rparr>, rsLast := index, rsApplied := max (rsApplied rs) index\<rparr>"

section \<open>Deferred truncation\<close>

record appliedSeq =
  asIndex :: "64 word"
  asSeq :: "64 word"

record deferred =
  applySeqs :: "appliedSeq list"
  durableApplied :: "64 word"
  pendingTrunc :: truncatedState

abbreviation (input) appliedSeqSpacing :: "64 word" where "appliedSeqSpacing \<equiv> 32"

definition noteAppliedSeq :: "bool \<Rightarrow> 64 word \<Rightarrow> 64 word \<Rightarrow> deferred \<Rightarrow> deferred" where
  "noteAppliedSeq split idx seq d =
     (if \<not> split then d
      else let as = applySeqs d; n = length as; new = \<lparr>asIndex = idx, asSeq = seq\<rparr>
           in if n > 0 \<and> idx - asIndex (as ! (n - 1)) < appliedSeqSpacing \<and> n > 1 \<and>
                 idx - asIndex (as ! (n - 2)) < appliedSeqSpacing
              then d\<lparr>applySeqs := as[n - 1 := new]\<rparr>
              else d\<lparr>applySeqs := as @ [new]\<rparr>)"

text \<open>The watermark, given the applied index and what the state engine has flushed.\<close>

definition durableAppliedLocked :: "bool \<Rightarrow> 64 word \<Rightarrow> 64 word \<Rightarrow> deferred \<Rightarrow> 64 word \<times> deferred" where
  "durableAppliedLocked split appliedIndex flushed d =
     (if \<not> split then (appliedIndex, d)
      else let seen = takeWhile (\<lambda>a. asSeq a \<le> flushed) (applySeqs d);
               durable = foldl (\<lambda>m a. if asIndex a > m then asIndex a else m) (durableApplied d) seen
           in (durable, d\<lparr>applySeqs := drop (length seen) (applySeqs d), durableApplied := durable\<rparr>))"

definition notePendingTruncate :: "64 word \<Rightarrow> 64 word \<Rightarrow> deferred \<Rightarrow> deferred" where
  "notePendingTruncate index term d =
     (if index > tsIndex (pendingTrunc d) then d\<lparr>pendingTrunc := \<lparr>tsIndex = index, tsTerm = term\<rparr>\<rparr> else d)"

text \<open>
  The pending truncation is dropped before it is carried out, whatever happens then. A failure
  to stage the truncated state leaves the new truncation point in memory. The engine is the
  one that holds the Raft state.
\<close>

definition maybeTruncateDeferredLocked ::
  "'s deps \<Rightarrow> raft_codec \<Rightarrow> 64 word \<Rightarrow> 64 word \<Rightarrow> bool \<Rightarrow> raftStorage \<Rightarrow> deferred \<Rightarrow> 's \<Rightarrow>
   deferred \<times> raftStorage \<times> (raft_error + 's)" where
  "maybeTruncateDeferredLocked E RC appliedIndex flushed stopped rs d s =
     (let pending = pendingTrunc d
      in if tsIndex pending = 0 then (d, rs, Inr s)
         else let (durable, d) = durableAppliedLocked (rsSplit rs) appliedIndex flushed d
              in if durable < tsIndex pending then (d, rs, Inr s)
                 else let d = d\<lparr>pendingTrunc := \<lparr>tsIndex = 0, tsTerm = 0\<rparr>\<rparr>
                      in if stopped then (d, rs, Inr s)
                         else case stageTruncate E (tsIndex pending) (tsTerm pending) rs s of
                                Inl e \<Rightarrow> (d, rs, Inl e)
                              | Inr (rs', s') \<Rightarrow> (d, rs', stageTruncatedState E RC rs' s'))"

section \<open>The split store\<close>

text \<open>\<open>state\<close> and \<open>raft\<close> are the two engines; a batch of either is its state with the writes staged.\<close>

definition IsSplitStore :: "'s deps \<Rightarrow> 's \<Rightarrow> raft_error + bool" where
  "IsSplitStore E state = res_bind (r_io (Batch_Get E state StoreRaftEngineKey)) (\<lambda>raw. Inr (raw \<noteq> None))"

definition wipeRaftState :: "'s deps \<Rightarrow> bool \<Rightarrow> RangeID \<Rightarrow> 's \<Rightarrow> raft_error + 's" where
  "wipeRaftState E split rangeID raft =
     (if \<not> split then Inr raft
      else let pre = RangeUnreplicatedPrefix rangeID in r_io (Batch_DeleteRange E pre (PrefixEnd pre) raft))"

abbreviation (input) rangeLocalLower :: key where "rangeLocalLower \<equiv> localUnreplicatedPrefix @ str ''r''"

text \<open>The range ids of the keys under the range-local prefix, each once.\<close>

definition range_ids :: "(bytes \<times> bytes) list \<Rightarrow> RangeID list" where
  "range_ids kvs = remdups (concat (map (\<lambda>(k, _).
     if length k < length rangeLocalLower + 8 then []
     else case DecodeUint64 (drop (length rangeLocalLower) k) of Inl _ \<Rightarrow> [] | Inr (_, rid) \<Rightarrow> [rid]) kvs))"

definition range_local :: "'s deps \<Rightarrow> 's \<Rightarrow> raft_error + (bytes \<times> bytes) list" where
  "range_local E s = res_bind (it_close E s rangeLocalLower (PrefixEnd rangeLocalLower)) (\<lambda>_.
     Inr (iter_rest (SeekGE rangeLocalLower (NewIter E s rangeLocalLower (PrefixEnd rangeLocalLower)))))"

definition sweepOrphanRaftState :: "'s deps \<Rightarrow> kv_codec \<Rightarrow> bool \<Rightarrow> 's \<Rightarrow> 's \<Rightarrow> raft_error + 's" where
  "sweepOrphanRaftState E K split state raft =
     (if \<not> split then Inr raft
      else res_bind (range_local E raft) (\<lambda>kvs. res_fold (\<lambda>rid raft.
        res_bind (loadRangeDescriptor E K rid state) (\<lambda>d.
        if d \<noteq> None then Inr raft
        else res_bind (r_io (Batch_Get E state (RangeTombstoneKey rid))) (\<lambda>tomb.
          if tomb = None then Inr raft
          else let pre = RangeUnreplicatedPrefix rid in r_io (Batch_DeleteRange E pre (PrefixEnd pre) raft))))
        (range_ids kvs) raft))"

text \<open>The number of keys moved, the state engine and the raft engine.\<close>

definition MigrateRaftState :: "'s deps \<Rightarrow> raft_codec \<Rightarrow> 's \<Rightarrow> 's \<Rightarrow> raft_error + nat \<times> 's \<times> 's" where
  "MigrateRaftState E RC state raft =
     res_bind (range_local E state) (\<lambda>kvs. let moved = filter (\<lambda>(k, _). IsRaftEngineKey k) kvs
      in res_bind (res_fold (\<lambda>(k, v) (rb, sb).
             res_bind (r_io (Batch_Put E k v rb)) (\<lambda>rb.
             res_bind (r_io (Batch_Delete E k sb)) (\<lambda>sb. Inr (rb, sb)))) moved (raft, state)) (\<lambda>(rb, sb).
         res_bind (res_fold (\<lambda>rid rb.
             res_bind (loadReplicaStateFrom E RC rid state) (\<lambda>st.
             if TruncatedIndex st = 0 \<and> TruncatedTerm st = 0 then Inr rb
             else res_bind (r_io (Batch_Get E raft (RaftTruncatedStateKey rid))) (\<lambda>existing.
               if existing \<noteq> None then Inr rb
               else putTruncatedState E RC rid \<lparr>tsIndex = TruncatedIndex st, tsTerm = TruncatedTerm st\<rparr> rb)))
             (range_ids kvs) rb) (\<lambda>rb.
         res_bind (r_io (Batch_Put E StoreRaftEngineKey (str ''1'') sb)) (\<lambda>sb.
           Inr (length moved, sb, rb)))))"

definition replayPending :: "'s deps \<Rightarrow> raft_codec \<Rightarrow> raftStorage \<Rightarrow> 64 word \<Rightarrow> 's \<Rightarrow> 64 word" where
  "replayPending E RC rs applied s =
     (case InitialState E RC rs s of Inl _ \<Rightarrow> 0
      | Inr (hs, _) \<Rightarrow> if hsCommit hs > applied then hsCommit hs - applied else 0)"

section \<open>The abstract log\<close>

text \<open>
  The engine holds exactly the entries \<open>L\<close> of the log, at the indexes after the truncation
  point, and no other key under the log prefix.
\<close>

definition log_rep :: "raft_codec \<Rightarrow> contents \<Rightarrow> raftStorage \<Rightarrow> Entry list \<Rightarrow> bool" where
  "log_rep RC m rs L \<longleftrightarrow>
     unat (tsIndex (rsTrunc rs)) + length L = unat (rsLast rs) \<and> unat (rsLast rs) < 2 ^ 64 - 1 \<and>
     (\<forall>j < length L. unat (eIndex (L ! j)) = unat (tsIndex (rsTrunc rs)) + 1 + j) \<and>
     (\<forall>e \<in> set L. \<exists>raw. entMarshal RC e = Inr raw \<and> m (RaftLogKey (rsRangeID rs) (eIndex e)) = Some raw) \<and>
     (\<forall>k v. prefix (RaftLogPrefix (rsRangeID rs)) k \<longrightarrow> m k = Some v \<longrightarrow>
        (\<exists>e \<in> set L. k = RaftLogKey (rsRangeID rs) (eIndex e)))"

text \<open>Entries that continue a log at or before its end.\<close>

definition continues :: "raftStorage \<Rightarrow> Entry list \<Rightarrow> bool" where
  "continues rs ents \<longleftrightarrow>
     (ents = [] \<or>
      unat (tsIndex (rsTrunc rs)) < unat (eIndex (hd ents)) \<and> unat (eIndex (hd ents)) \<le> unat (rsLast rs) + 1 \<and>
      (\<forall>j < length ents. unat (eIndex (ents ! j)) = unat (eIndex (hd ents)) + j) \<and>
      unat (eIndex (hd ents)) + length ents < 2 ^ 64)"

definition keep_before :: "raftStorage \<Rightarrow> Entry list \<Rightarrow> Entry list \<Rightarrow> Entry list" where
  "keep_before rs ents L =
     (if ents = [] then L else take (unat (eIndex (hd ents)) - unat (tsIndex (rsTrunc rs)) - 1) L @ ents)"

lemma RaftLogKey_app: "RaftLogKey r i = RaftLogPrefix r @ EncodeUint64 [] i"
  by (simp add: RaftLogKey_def RaftLogPrefix_def u64.enc_append [of "makeRangeLocalKey r ''log''"])

lemma RaftLogKey_inj [simp]: "RaftLogKey r i = RaftLogKey r j \<longleftrightarrow> i = j"
  using RaftLogKey_less [of r i j] RaftLogKey_less [of r j i] by (metis less_irrefl neq_iff)

lemma RaftLogKey_le: "RaftLogKey r i \<le> RaftLogKey r j \<longleftrightarrow> i \<le> j"
  by (metis RaftLogKey_less not_less)

lemma prefix_RaftLogKey [simp]: "prefix (RaftLogPrefix r) (RaftLogKey r i)"
  by (simp add: RaftLogKey_app)

text \<open>A key between two log keys is under the log prefix.\<close>

lemma between_prefix:
  "(p :: bytes) @ x \<le> k \<Longrightarrow> k < p @ y \<Longrightarrow> length x = length y \<Longrightarrow> prefix p k"
proof (induction p arbitrary: k)
  case Nil
  then show ?case by simp
next
  case (Cons a p)
  then obtain b k' where k: "k = b # k'" by (cases k) auto
  with Cons.prems have "a = b" by (auto simp: less_le)
  with Cons k show ?case by auto
qed

section \<open>Writing the log\<close>

definition raw_of :: "raft_codec \<Rightarrow> Entry \<Rightarrow> bytes" where
  "raw_of RC e = (case entMarshal RC e of Inl _ \<Rightarrow> [] | Inr raw \<Rightarrow> raw)"

lemma raft_codec_entry:
  assumes "raft_codec_ok RC"
  shows "entMarshal RC e = Inr (raw_of RC e)" "raw_of RC e \<noteq> []" "entUnmarshal RC (raw_of RC e) = Inr e"
proof -
  obtain raw where raw: "entMarshal RC e = Inr raw" "raw \<noteq> []" "entUnmarshal RC raw = Inr e"
    using assms unfolding raft_codec_ok_def by blast
  then have "raw_of RC e = raw" by (simp add: raw_of_def)
  with raw show "entMarshal RC e = Inr (raw_of RC e)" "raw_of RC e \<noteq> []" "entUnmarshal RC (raw_of RC e) = Inr e"
    by simp_all
qed

lemma put_log:
  assumes "healthy E c" and "raft_codec_ok RC"
  shows "\<exists>s'. res_fold (\<lambda>e s. res_bind (r_io (entMarshal RC e))
      (\<lambda>raw. r_io (Batch_Put E (RaftLogKey r (eIndex e)) raw s))) ents s = Inr s' \<and>
    c s' = fold (\<lambda>e m. m(RaftLogKey r (eIndex e) \<mapsto> raw_of RC e)) ents (c s)"
proof (induction ents arbitrary: s)
  case Nil
  then show ?case by simp
next
  case (Cons e ents)
  obtain s1 where s1: "pSet E (RaftLogKey r (eIndex e)) (raw_of RC e) s = Inr s1"
      "c s1 = (c s)(RaftLogKey r (eIndex e) \<mapsto> raw_of RC e)"
    using healthyD(3) [OF assms(1)] by blast
  with Cons.IH [of s1] show ?case
    by (simp add: raft_codec_entry [OF assms(2)] r_io_def Batch_Put_def)
qed

lemma delete_log_ok:
  assumes "healthy E c"
  shows "\<exists>s'. delete_log E r is s = Inr s' \<and>
    c s' = (\<lambda>k. if k \<in> RaftLogKey r ` set is then None else c s k)"
  unfolding delete_log_def
proof (induction "is" arbitrary: s)
  case Nil
  then show ?case by simp
next
  case (Cons i "is")
  obtain s1 where s1: "pDelete E (RaftLogKey r i) s = Inr s1" "c s1 = (c s)(RaftLogKey r i := None)"
    using healthyD(4) [OF assms] by blast
  obtain s' where "res_fold (\<lambda>i s. r_io (Batch_Delete E (RaftLogKey r i) s)) is s1 = Inr s'"
      "c s' = (\<lambda>k. if k \<in> RaftLogKey r ` set is then None else c s1 k)"
    using Cons.IH [of s1] by blast
  with s1 show ?case by (auto simp: r_io_def Batch_Delete_def fun_eq_iff)
qed

lemma fold_puts_other:
  "k \<notin> (\<lambda>e. RaftLogKey r (eIndex e)) ` set ents \<Longrightarrow>
   fold (\<lambda>e m. m(RaftLogKey r (eIndex e) \<mapsto> f e)) ents m k = m k"
  by (induction ents arbitrary: m) auto

lemma fold_puts_entry:
  "distinct (map eIndex ents) \<Longrightarrow> e \<in> set ents \<Longrightarrow>
   fold (\<lambda>e m. m(RaftLogKey r (eIndex e) \<mapsto> f e)) ents m (RaftLogKey r (eIndex e)) = Some (f e)"
proof (induction ents arbitrary: m)
  case Nil
  then show ?case by simp
next
  case (Cons a ents)
  show ?case
  proof (cases "e = a")
    case True
    with Cons.prems have "RaftLogKey r (eIndex e) \<notin> (\<lambda>e. RaftLogKey r (eIndex e)) ` set ents" by auto
    with True show ?thesis by (simp add: fold_puts_other del: fun_upd_apply) simp
  next
    case False
    with Cons show ?thesis by simp
  qed
qed

lemma set_indexes: "i \<in> set (indexes lo hi) \<longleftrightarrow> lo \<le> i \<and> i \<le> hi"
proof
  assume "i \<in> set (indexes lo hi)"
  then obtain n where n: "i = of_nat n" "unat lo \<le> n" "n \<le> unat hi" by (auto simp: indexes_def)
  moreover have "unat i = n"
    using n unsigned_less [of hi, where 'a = nat] by (simp add: unat_of_nat)
  ultimately show "lo \<le> i \<and> i \<le> hi" by (simp add: word_le_nat_alt)
next
  assume "lo \<le> i \<and> i \<le> hi"
  then have "unat i \<in> set [unat lo..<Suc (unat hi)]" by (auto simp: word_le_nat_alt)
  then have "of_nat (unat i) \<in> set (indexes lo hi)" unfolding indexes_def set_map by (rule imageI)
  then show "i \<in> set (indexes lo hi)" by simp
qed

lemma unat_Suc: "unat (w :: 64 word) < 2 ^ 64 - 1 \<Longrightarrow> unat (w + 1) = unat w + 1"
  by (simp add: unat_word_ariths)

lemma log_rep_index:
  "log_rep RC m rs L \<Longrightarrow> e \<in> set L \<Longrightarrow>
   \<exists>j < length L. e = L ! j \<and> unat (eIndex e) = unat (tsIndex (rsTrunc rs)) + 1 + j"
  by (auto simp: log_rep_def in_set_conv_nth)

lemma append_refines:
  assumes env: "healthy E c" "raft_codec_ok RC" and rep: "log_rep RC (c s) rs L" and cont: "continues rs ents"
  shows "\<exists>rs' s'. rs_append E RC ents rs s = Inr (rs', s') \<and> log_rep RC (c s') rs' (keep_before rs ents L) \<and>
    rsTrunc rs' = rsTrunc rs \<and> (\<forall>k. \<not> prefix (RaftLogPrefix (rsRangeID rs)) k \<longrightarrow> c s' k = c s k)"
proof (cases "ents = []")
  case True
  then show ?thesis using rep by (simp add: rs_append_def keep_before_def)
next
  case False
  define r T h n where "r = rsRangeID rs" and "T = unat (tsIndex (rsTrunc rs))" and "h = unat (eIndex (hd ents))"
    and "n = h - T - 1"
  have cont': "T < h" "h \<le> unat (rsLast rs) + 1" "\<And>j. j < length ents \<Longrightarrow> unat (eIndex (ents ! j)) = h + j"
    "h + length ents < 2 ^ 64"
    using cont False by (auto simp: continues_def T_def h_def)
  have L: "T + length L = unat (rsLast rs)" "unat (rsLast rs) < 2 ^ 64 - 1"
    "\<And>j. j < length L \<Longrightarrow> unat (eIndex (L ! j)) = T + 1 + j"
    using rep by (auto simp: log_rep_def T_def)
  have n: "n \<le> length L" "T + 1 + n = h" using cont' L by (simp_all add: n_def)
  let ?nl = "eIndex (List.last ents)"
  have nl: "unat ?nl = h + length ents - 1"
  proof -
    have "0 < length ents" using False by simp
    moreover have "unat ?nl = h + (length ents - 1)" using cont'(3) [of "length ents - 1"] False by (simp add: last_conv_nth)
    ultimately show ?thesis by linarith
  qed
  have nl1: "unat (?nl + 1) = h + length ents"
    using unat_Suc [of ?nl] nl cont'(4) False by (cases ents) auto
  have dist: "distinct (map eIndex ents)"
    unfolding distinct_conv_nth
  proof (intro allI impI)
    fix i j assume ij: "i < length (map eIndex ents)" "j < length (map eIndex ents)" "i \<noteq> j"
    then have "unat (eIndex (ents ! i)) \<noteq> unat (eIndex (ents ! j))" using cont'(3) by simp
    then show "map eIndex ents ! i \<noteq> map eIndex ents ! j" using ij by auto
  qed
  obtain s1 where s1: "res_fold (\<lambda>e s. res_bind (r_io (entMarshal RC e))
      (\<lambda>raw. r_io (Batch_Put E (RaftLogKey r (eIndex e)) raw s))) ents s = Inr s1"
    "c s1 = fold (\<lambda>e m. m(RaftLogKey r (eIndex e) \<mapsto> raw_of RC e)) ents (c s)"
    using put_log [OF env] by blast
  obtain s2 where s2: "delete_log E r (indexes (?nl + 1) (rsLast rs)) s1 = Inr s2"
    "c s2 = (\<lambda>k. if k \<in> RaftLogKey r ` set (indexes (?nl + 1) (rsLast rs)) then None else c s1 k)"
    using delete_log_ok [OF env(1)] by blast
  let ?rs = "rs\<lparr>rsLast := ?nl\<rparr>"
  let ?L = "take n L @ ents"
  have ap: "rs_append E RC ents rs s = Inr (?rs, s2)"
    using False s1(1) s2(1) by (simp add: rs_append_def r_def Let_def)
  have new: "c s2 (RaftLogKey r (eIndex e)) = Some (raw_of RC e)" if em: "e \<in> set ents" for e
  proof -
    obtain j where "j < length ents" "e = ents ! j" using em by (auto simp: in_set_conv_nth)
    then have "unat (eIndex e) < unat (?nl + 1)" using cont'(3) nl1 by simp
    then have "eIndex e \<notin> set (indexes (?nl + 1) (rsLast rs))" by (simp add: set_indexes word_le_nat_alt)
    then show ?thesis using fold_puts_entry [OF dist em] by (auto simp: s2(2) s1(2))
  qed
  have old: "c s2 (RaftLogKey r (eIndex e)) = c s (RaftLogKey r (eIndex e))" if "unat (eIndex e) < h" for e
  proof -
    have "eIndex e \<notin> eIndex ` set ents"
      using that cont'(3) by (force simp: in_set_conv_nth)
    moreover have "eIndex e \<notin> set (indexes (?nl + 1) (rsLast rs))"
      using that nl1 by (simp add: set_indexes word_le_nat_alt)
    ultimately show ?thesis by (auto simp: s2(2) s1(2) intro!: fold_puts_other)
  qed
  have outside: "\<exists>e \<in> set ?L. k = RaftLogKey r (eIndex e)" if k: "prefix (RaftLogPrefix r) k" "c s2 k = Some v" for k v
  proof (rule ccontr)
    assume no: "\<not> ?thesis"
    then have "k \<notin> (\<lambda>e. RaftLogKey r (eIndex e)) ` set ents" by auto
    with k(2) have live: "c s k = Some v" and nd: "k \<notin> RaftLogKey r ` set (indexes (?nl + 1) (rsLast rs))"
      by (auto simp: s2(2) s1(2) fold_puts_other split: if_splits)
    then obtain e where e: "e \<in> set L" "k = RaftLogKey r (eIndex e)" using rep k(1) by (force simp: log_rep_def r_def)
    then obtain j where j: "j < length L" "e = L ! j" by (auto simp: in_set_conv_nth)
    have "\<not> j < n" using no e(2) j n(1) by (force simp: in_set_conv_nth)
    then have ge: "h \<le> unat (eIndex e)" using L(3) [OF j(1)] j(2) n(2) by simp
    have "unat (eIndex e) \<noteq> h + i" if "i < length ents" for i
    proof
      assume "unat (eIndex e) = h + i"
      then have "eIndex e = eIndex (ents ! i)" using cont'(3) [OF that] by (intro unsigned_word_eqI [where 'a = nat]) simp
      then show False using no e(2) that by auto
    qed
    then have "h + length ents \<le> unat (eIndex e)"
      using ge by (metis add_diff_inverse_nat nat_add_left_cancel_less not_le)
    then have "eIndex e \<in> set (indexes (?nl + 1) (rsLast rs))"
      using L(3) [OF j(1)] j L(1) nl1 by (simp add: set_indexes word_le_nat_alt)
    then show False using nd e(2) by blast
  qed
  have "log_rep RC (c s2) ?rs ?L"
    unfolding log_rep_def
  proof (intro conjI)
    show "unat (tsIndex (rsTrunc ?rs)) + length ?L = unat (rsLast ?rs)"
      using n nl cont' False by (cases ents) (auto simp: T_def)
    show "unat (rsLast ?rs) < 2 ^ 64 - 1" using nl cont'(4) False by (cases ents) auto
    show "\<forall>j < length ?L. unat (eIndex (?L ! j)) = unat (tsIndex (rsTrunc ?rs)) + 1 + j"
      using n L(3) cont'(3) by (auto simp: nth_append T_def)
    show "\<forall>e \<in> set ?L. \<exists>raw. entMarshal RC e = Inr raw \<and> c s2 (RaftLogKey (rsRangeID ?rs) (eIndex e)) = Some raw"
    proof
      fix e assume "e \<in> set ?L"
      then consider "e \<in> set ents" | j where "j < n" "e = L ! j" "j < length L" by (auto simp: in_set_conv_nth)
      then show "\<exists>raw. entMarshal RC e = Inr raw \<and> c s2 (RaftLogKey (rsRangeID ?rs) (eIndex e)) = Some raw"
      proof cases
        case 1
        then show ?thesis using new raft_codec_entry(1) [OF env(2)] by (simp add: r_def)
      next
        case 2
        then have e: "unat (eIndex e) < h" "e \<in> set L" using L(3) n by auto
        have "\<exists>raw. entMarshal RC e = Inr raw \<and> c s (RaftLogKey r (eIndex e)) = Some raw"
          using rep e(2) by (simp add: log_rep_def r_def)
        then show ?thesis using old [OF e(1)] by (simp add: r_def)
      qed
    qed
    show "\<forall>k v. prefix (RaftLogPrefix (rsRangeID ?rs)) k \<longrightarrow> c s2 k = Some v \<longrightarrow>
        (\<exists>e \<in> set ?L. k = RaftLogKey (rsRangeID ?rs) (eIndex e))"
      using outside by (auto simp: r_def)
  qed
  moreover have "c s2 k = c s k" if "\<not> prefix (RaftLogPrefix r) k" for k
    using that by (auto simp: s2(2) s1(2) intro!: fold_puts_other)
  ultimately show ?thesis using ap False by (auto simp: keep_before_def r_def n_def h_def T_def)
qed

lemma truncate_refines:
  assumes env: "healthy E c" and rep: "log_rep RC (c s) rs L"
    and idx: "tsIndex (rsTrunc rs) < index" "index \<le> rsLast rs"
  shows "\<exists>rs' s'. stageTruncate E index term rs s = Inr (rs', s') \<and>
    log_rep RC (c s') rs' (drop (unat index - unat (tsIndex (rsTrunc rs))) L) \<and>
    rsTrunc rs' = \<lparr>tsIndex = index, tsTerm = term\<rparr> \<and> rsLast rs' = rsLast rs \<and>
    (\<forall>k. \<not> prefix (RaftLogPrefix (rsRangeID rs)) k \<longrightarrow> c s' k = c s k)"
proof -
  define r T n where "r = rsRangeID rs" and "T = unat (tsIndex (rsTrunc rs))" and "n = unat index - T"
  have L: "T + length L = unat (rsLast rs)" "unat (rsLast rs) < 2 ^ 64 - 1"
    "\<And>j. j < length L \<Longrightarrow> unat (eIndex (L ! j)) = T + 1 + j"
    using rep by (auto simp: log_rep_def T_def)
  have ix: "T < unat index" "unat index \<le> unat (rsLast rs)"
    using idx by (simp_all add: T_def word_less_nat_alt word_le_nat_alt)
  have n: "T + n = unat index" "n \<le> length L" using ix L by (simp_all add: n_def)
  have t1: "unat (tsIndex (rsTrunc rs) + 1) = T + 1" using unat_Suc ix L by (simp add: T_def)
  obtain s1 where s1: "delete_log E r (indexes (tsIndex (rsTrunc rs) + 1) index) s = Inr s1"
    "c s1 = (\<lambda>k. if k \<in> RaftLogKey r ` set (indexes (tsIndex (rsTrunc rs) + 1) index) then None else c s k)"
    using delete_log_ok [OF env] by blast
  let ?rs = "rs\<lparr>rsTrunc := \<lparr>tsIndex = index, tsTerm = term\<rparr>\<rparr>"
  have tr: "stageTruncate E index term rs s = Inr (?rs, s1)"
    using s1(1) idx by (auto simp: stageTruncate_def r_def)
  have del: "eIndex e \<in> set (indexes (tsIndex (rsTrunc rs) + 1) index) \<longleftrightarrow> T < unat (eIndex e) \<and> unat (eIndex e) \<le> T + n" for e
    using t1 n(1) by (auto simp: set_indexes word_le_nat_alt)
  have "log_rep RC (c s1) ?rs (drop n L)"
    unfolding log_rep_def
  proof (intro conjI)
    show "unat (tsIndex (rsTrunc ?rs)) + length (drop n L) = unat (rsLast ?rs)" using n L by simp
    show "unat (rsLast ?rs) < 2 ^ 64 - 1" using L by simp
    show "\<forall>j < length (drop n L). unat (eIndex (drop n L ! j)) = unat (tsIndex (rsTrunc ?rs)) + 1 + j"
      using n L by (auto simp: add.assoc)
    show "\<forall>e \<in> set (drop n L). \<exists>raw. entMarshal RC e = Inr raw \<and> c s1 (RaftLogKey (rsRangeID ?rs) (eIndex e)) = Some raw"
    proof
      fix e assume "e \<in> set (drop n L)"
      then obtain j where j: "j < length L - n" "e = L ! (n + j)" by (auto simp: in_set_conv_nth)
      then have e: "e \<in> set L" "\<not> unat (eIndex e) \<le> T + n" using L(3) [of "n + j"] n by auto
      have "\<exists>raw. entMarshal RC e = Inr raw \<and> c s (RaftLogKey r (eIndex e)) = Some raw"
        using rep e(1) by (simp add: log_rep_def r_def)
      moreover have "RaftLogKey r (eIndex e) \<notin> RaftLogKey r ` set (indexes (tsIndex (rsTrunc rs) + 1) index)"
        using del [of e] e(2) by auto
      ultimately show "\<exists>raw. entMarshal RC e = Inr raw \<and> c s1 (RaftLogKey (rsRangeID ?rs) (eIndex e)) = Some raw"
        by (simp add: s1(2) r_def)
    qed
    show "\<forall>k v. prefix (RaftLogPrefix (rsRangeID ?rs)) k \<longrightarrow> c s1 k = Some v \<longrightarrow>
        (\<exists>e \<in> set (drop n L). k = RaftLogKey (rsRangeID ?rs) (eIndex e))"
    proof (intro allI impI)
      fix k v assume k: "prefix (RaftLogPrefix (rsRangeID ?rs)) k" "c s1 k = Some v"
      then have live: "c s k = Some v" "k \<notin> RaftLogKey r ` set (indexes (tsIndex (rsTrunc rs) + 1) index)"
        by (auto simp: s1(2) split: if_splits)
      then obtain e where e: "e \<in> set L" "k = RaftLogKey r (eIndex e)" using rep k(1) by (force simp: log_rep_def r_def)
      then obtain j where j: "j < length L" "e = L ! j" by (auto simp: in_set_conv_nth)
      have "\<not> unat (eIndex e) \<le> T + n" using live(2) e(2) del [of e] L(3) [OF j(1)] j(2) by auto
      then have "n \<le> j" using L(3) [OF j(1)] j(2) by simp
      then have "e \<in> set (drop n L)" using j by (force simp: in_set_conv_nth intro!: exI [of _ "j - n"])
      with e show "\<exists>e \<in> set (drop n L). k = RaftLogKey (rsRangeID ?rs) (eIndex e)" by (auto simp: r_def)
    qed
  qed
  moreover have "c s1 k = c s k" if "\<not> prefix (RaftLogPrefix r) k" for k
    using that by (auto simp: s1(2))
  ultimately show ?thesis using tr by (auto simp: n_def T_def r_def)
qed

section \<open>Reading the log\<close>

lemma iter_rest_Nil: "\<not> ok \<Longrightarrow> iter_rest (ok, it) = []"
  by (subst iter_rest.simps) simp

lemma iter_rest_Cons: "iValid it \<Longrightarrow> iter_rest (True, it) = (iKey it, iValue it) # iter_rest (iNext it)"
  by (subst iter_rest.simps) simp

lemma iter_rest_iat: "iat it A B \<Longrightarrow> iter_rest (B \<noteq> [], it) = B"
proof (induction B arbitrary: it A)
  case Nil
  then show ?case by (simp add: iter_rest_Nil)
next
  case (Cons e B)
  have nx: "iNext it = (B \<noteq> [], snd (iNext it))" using iat_next(1) [OF Cons.prems] by (simp add: prod_eq_iff)
  have "iter_rest (e # B \<noteq> [], it) = (iKey it, iValue it) # iter_rest (iNext it)"
    using iat_valid [OF Cons.prems] by (simp add: iter_rest_Cons)
  also have "iter_rest (iNext it) = B" by (subst nx) (rule Cons.IH [OF iat_next(2) [OF Cons.prems]])
  finally show ?case using iat_key [OF Cons.prems] by simp
qed

lemma iter_rest_span:
  assumes "healthy E c" and "pIter E s lo hi = Inr es"
  shows "iter_rest (SeekGE lo (NewIter E s lo hi)) = es"
proof -
  obtain es' where es': "pIter E s lo hi = Inr es'" "\<And>k v. (k, v) \<in> set es' \<longleftrightarrow> lo \<le> k \<and> k < hi \<and> c s k = Some v"
    by (rule pebble_iter [OF healthy_pebble [OF assms(1)], of s lo hi]) blast
  then have ge: "\<forall>e \<in> set es. lo \<le> fst e" using assms(2) by auto
  then have hd: "es = [] \<or> \<not> fst (hd es) < lo" by (cases es) auto
  let ?it = "NewIter E s lo hi"
  have en: "entries ?it = [] @ es" using assms(2) by (simp add: NewIter_def iter_over_def)
  have nil: "\<forall>a \<in> set []. fst a < lo" by simp
  note sk = iat_seek [OF en nil hd]
  have "SeekGE lo ?it = (es \<noteq> [], snd (SeekGE lo ?it))" using sk(1) by (simp add: prod_eq_iff)
  then show ?thesis using iter_rest_iat [OF sk(2)] by (simp only:)
qed

lemma sorted_fst_unique:
  "sorted_wrt (<) (map fst xs) \<Longrightarrow> sorted_wrt (<) (map fst ys) \<Longrightarrow> set xs = set ys \<Longrightarrow> xs = (ys :: ('a :: linorder \<times> 'b) list)"
proof (induction xs arbitrary: ys)
  case Nil
  then show ?case by simp
next
  case (Cons x xs)
  then obtain y ys' where ys: "ys = y # ys'" by (cases ys) auto
  have "x = y"
  proof (rule ccontr)
    assume ne: "x \<noteq> y"
    then have "x \<in> set ys'" "y \<in> set xs" using Cons.prems(3) ys by auto
    then have "fst y < fst x" "fst x < fst y" using Cons.prems(1,2) ys by auto
    then show False by simp
  qed
  moreover have "x \<notin> set xs" "y \<notin> set ys'" using Cons.prems(1,2) ys by auto
  ultimately have "set xs = set ys'" using Cons.prems(3) ys by auto
  then show ?case using Cons ys \<open>x = y\<close> by simp
qed

definition slice :: "raftStorage \<Rightarrow> 64 word \<Rightarrow> 64 word \<Rightarrow> Entry list \<Rightarrow> Entry list" where
  "slice rs lo hi L = take (unat hi - unat lo) (drop (unat lo - unat (tsIndex (rsTrunc rs)) - 1) L)"

lemma slice_nth:
  assumes "log_rep RC m rs L" "tsIndex (rsTrunc rs) < lo" "j < length (slice rs lo hi L)"
  shows "unat (eIndex (slice rs lo hi L ! j)) = unat lo + j"
  using assms by (auto simp: slice_def log_rep_def word_less_nat_alt)

lemma set_slice:
  assumes rep: "log_rep RC m rs L" and lo: "tsIndex (rsTrunc rs) < lo"
  shows "e \<in> set (slice rs lo hi L) \<longleftrightarrow> e \<in> set L \<and> lo \<le> eIndex e \<and> eIndex e < hi"
proof
  assume "e \<in> set (slice rs lo hi L)"
  then obtain j where j: "j < length (slice rs lo hi L)" "e = slice rs lo hi L ! j" by (auto simp: in_set_conv_nth)
  then have "unat (eIndex e) = unat lo + j" "j < unat hi - unat lo" using slice_nth [OF rep lo] by (auto simp: slice_def)
  moreover have "e \<in> set L" using j by (auto simp: slice_def dest: in_set_takeD in_set_dropD)
  ultimately show "e \<in> set L \<and> lo \<le> eIndex e \<and> eIndex e < hi" by (simp add: word_le_nat_alt word_less_nat_alt)
next
  assume e: "e \<in> set L \<and> lo \<le> eIndex e \<and> eIndex e < hi"
  then obtain i where i: "i < length L" "e = L ! i" "unat (eIndex e) = unat (tsIndex (rsTrunc rs)) + 1 + i"
    using log_rep_index [OF rep] by blast
  define d where "d = unat lo - unat (tsIndex (rsTrunc rs)) - 1"
  have "d \<le> i" "i - d < unat hi - unat lo"
    using e i(3) lo by (auto simp: d_def word_le_nat_alt word_less_nat_alt)
  moreover have sl: "slice rs lo hi L = take (unat hi - unat lo) (drop d L)" by (simp only: slice_def d_def)
  moreover have "i - d < length (slice rs lo hi L)" using calculation i(1) unfolding sl by simp
  moreover have "slice rs lo hi L ! (i - d) = e" using calculation i(1,2) unfolding sl by simp
  ultimately show "e \<in> set (slice rs lo hi L)" by (metis nth_mem)
qed

lemma log_rep_content:
  assumes "log_rep RC m rs L" "e \<in> set L"
  shows "m (RaftLogKey (rsRangeID rs) (eIndex e)) = Some (raw_of RC e)"
proof -
  have "\<forall>e \<in> set L. \<exists>raw. entMarshal RC e = Inr raw \<and> m (RaftLogKey (rsRangeID rs) (eIndex e)) = Some raw"
    using assms(1) by (simp add: log_rep_def)
  then show ?thesis using assms(2) by (auto simp: raw_of_def dest!: bspec)
qed

lemma log_rep_only:
  assumes "log_rep RC m rs L" "prefix (RaftLogPrefix (rsRangeID rs)) k" "m k = Some v"
  shows "\<exists>e \<in> set L. k = RaftLogKey (rsRangeID rs) (eIndex e)"
proof -
  have "\<forall>k v. prefix (RaftLogPrefix (rsRangeID rs)) k \<longrightarrow> m k = Some v \<longrightarrow> (\<exists>e \<in> set L. k = RaftLogKey (rsRangeID rs) (eIndex e))"
    using assms(1) by (simp add: log_rep_def)
  then show ?thesis using assms(2,3) by simp
qed

lemma log_span:
  assumes env: "healthy E c" "raft_codec_ok RC" and rep: "log_rep RC (c s) rs L" and lo: "tsIndex (rsTrunc rs) < lo"
  shows "iter_rest (SeekGE (RaftLogKey (rsRangeID rs) lo)
      (NewIter E s (RaftLogKey (rsRangeID rs) lo) (RaftLogKey (rsRangeID rs) hi))) =
    map (\<lambda>e. (RaftLogKey (rsRangeID rs) (eIndex e), raw_of RC e)) (slice rs lo hi L)"
proof -
  let ?r = "rsRangeID rs"
  obtain es where es: "pIter E s (RaftLogKey ?r lo) (RaftLogKey ?r hi) = Inr es" "sorted_wrt (<) (map fst es)"
    "\<And>k v. (k, v) \<in> set es \<longleftrightarrow> RaftLogKey ?r lo \<le> k \<and> k < RaftLogKey ?r hi \<and> c s k = Some v"
    by (rule pebble_iter [OF healthy_pebble [OF env(1)], of s "RaftLogKey ?r lo" "RaftLogKey ?r hi"]) blast
  let ?S = "slice rs lo hi L"
  let ?f = "\<lambda>e. (RaftLogKey ?r (eIndex e), raw_of RC e)"
  note content = log_rep_content [OF rep] and only = log_rep_only [OF rep]
  have "sorted_wrt (<) (map fst (map ?f ?S))"
    unfolding sorted_wrt_iff_nth_less
  proof (intro allI impI)
    fix i j assume "i < j" "j < length (map fst (map ?f ?S))"
    then show "map fst (map ?f ?S) ! i < map fst (map ?f ?S) ! j"
      using slice_nth [OF rep lo, of i] slice_nth [OF rep lo, of j]
      by (simp add: RaftLogKey_less word_less_nat_alt)
  qed
  moreover have "set es = set (map ?f ?S)"
  proof (rule set_eqI)
    fix x :: "bytes \<times> bytes"
    obtain k v where x: "x = (k, v)" by (cases x)
    have "x \<in> set es \<longleftrightarrow> (\<exists>e \<in> set L. k = RaftLogKey ?r (eIndex e) \<and> v = raw_of RC e \<and> lo \<le> eIndex e \<and> eIndex e < hi)"
    proof
      assume "x \<in> set es"
      then have k: "RaftLogKey ?r lo \<le> k" "k < RaftLogKey ?r hi" "c s k = Some v" using es(3) [of k v] x by auto
      have "prefix (RaftLogPrefix ?r) k"
        using k(1,2) unfolding RaftLogKey_app by (rule between_prefix) (simp add: EncodeUint64_def)
      then obtain e where e: "e \<in> set L" "k = RaftLogKey ?r (eIndex e)" using only [OF _ k(3)] by blast
      then show "\<exists>e \<in> set L. k = RaftLogKey ?r (eIndex e) \<and> v = raw_of RC e \<and> lo \<le> eIndex e \<and> eIndex e < hi"
        using k content [OF e(1)] by (intro bexI [OF _ e(1)]) (simp add: RaftLogKey_le RaftLogKey_less)
    next
      assume "\<exists>e \<in> set L. k = RaftLogKey ?r (eIndex e) \<and> v = raw_of RC e \<and> lo \<le> eIndex e \<and> eIndex e < hi"
      then obtain e where e: "e \<in> set L" "k = RaftLogKey ?r (eIndex e)" "v = raw_of RC e" "lo \<le> eIndex e" "eIndex e < hi"
        by blast
      then show "x \<in> set es" using es(3) [of k v] content [OF e(1)] by (simp add: x RaftLogKey_le RaftLogKey_less)
    qed
    also have "\<dots> \<longleftrightarrow> x \<in> set (map ?f ?S)" unfolding x set_map image_iff Bex_def set_slice [OF rep lo]
      by (simp only: prod.inject, rule ex_cong1) auto
    finally show "x \<in> set es \<longleftrightarrow> x \<in> set (map ?f ?S)" .
  qed
  ultimately have "es = map ?f ?S" using es(2) by (intro sorted_fst_unique)
  then show ?thesis unfolding iter_rest_span [OF env(1) es(1)] .
qed

text \<open>The longest prefix within the size limit, but at least one entry.\<close>

fun within :: "raft_codec \<Rightarrow> 64 word \<Rightarrow> 64 word \<Rightarrow> Entry list \<Rightarrow> Entry list" where
  "within RC maxSize sz [] = []"
| "within RC maxSize sz (e # es) =
     (if sz + entSize RC e > maxSize then [] else e # within RC maxSize (sz + entSize RC e) es)"

definition limited :: "raft_codec \<Rightarrow> 64 word \<Rightarrow> Entry list \<Rightarrow> Entry list" where
  "limited RC maxSize es = (case es of [] \<Rightarrow> [] | e # es \<Rightarrow> e # within RC maxSize (entSize RC e) es)"

lemma collect_within:
  assumes "raft_codec_ok RC" "acc \<noteq> []"
  shows "collect_entries RC maxSize sz acc (map (\<lambda>e. (f e, raw_of RC e)) es) = Inr (acc @ within RC maxSize sz es)"
  using assms(2) by (induction es arbitrary: sz acc) (simp_all add: r_corrupt_def raft_codec_entry(3) [OF assms(1)])

lemma collect_limited:
  assumes "raft_codec_ok RC"
  shows "collect_entries RC maxSize 0 [] (map (\<lambda>e. (f e, raw_of RC e)) es) = Inr (limited RC maxSize es)"
  by (cases es) (simp_all add: limited_def r_corrupt_def raft_codec_entry(3) [OF assms] collect_within [OF assms])

lemma Entries_refines:
  assumes env: "healthy E c" "raft_codec_ok RC" and rep: "log_rep RC (c s) rs L"
    and lo: "tsIndex (rsTrunc rs) < lo" "lo < hi" "hi \<le> rsLast rs + 1"
  shows "Entries E RC lo hi maxSize rs s = Inr (limited RC maxSize (slice rs lo hi L))"
proof -
  have last: "unat (rsLast rs + 1) = unat (rsLast rs) + 1" using rep unat_Suc by (simp add: log_rep_def)
  have ne: "slice rs lo hi L \<noteq> []"
    using rep lo last by (auto simp: slice_def log_rep_def word_less_nat_alt word_le_nat_alt)
  then obtain e es where S: "slice rs lo hi L = e # es" by (cases "slice rs lo hi L") auto
  have "unat (eIndex e) = unat lo" using slice_nth [OF rep lo(1), of 0 hi] S by simp
  then have "eIndex e = lo" by (rule unsigned_word_eqI [where 'a = nat])
  then show ?thesis
    using lo unfolding Entries_def Let_def log_span [OF env rep lo(1), of hi] collect_limited [OF env(2)] S
    by (auto simp: limited_def)
qed

lemma Term_refines:
  assumes env: "healthy E c" "raft_codec_ok RC" and rep: "log_rep RC (c s) rs L"
  shows "Term E RC i rs s =
    (if i = tsIndex (rsTrunc rs) then Inr (tsTerm (rsTrunc rs)) else if i < tsIndex (rsTrunc rs) then Inl ErrCompacted
     else if i > rsLast rs then Inl ErrUnavailable
     else Inr (eTerm (L ! (unat i - unat (tsIndex (rsTrunc rs)) - 1))))"
proof (cases "i \<le> tsIndex (rsTrunc rs) \<or> i > rsLast rs")
  case True
  then consider "i = tsIndex (rsTrunc rs)" | "i < tsIndex (rsTrunc rs)" | "\<not> i \<le> tsIndex (rsTrunc rs)" "i > rsLast rs"
    by fastforce
  then show ?thesis by cases (simp_all add: Term_def not_le not_less less_imp_neq)
next
  case False
  define j where "j = unat i - unat (tsIndex (rsTrunc rs)) - 1"
  have b: "unat (tsIndex (rsTrunc rs)) < unat i" "unat i \<le> unat (rsLast rs)"
    using False by (auto simp: word_le_nat_alt word_less_nat_alt)
  have j: "j < length L" "unat (eIndex (L ! j)) = unat i"
  proof -
    have L: "unat (tsIndex (rsTrunc rs)) + length L = unat (rsLast rs)"
      "\<And>j. j < length L \<Longrightarrow> unat (eIndex (L ! j)) = unat (tsIndex (rsTrunc rs)) + 1 + j"
      using rep by (simp_all add: log_rep_def)
    show "j < length L" using L(1) b by (simp add: j_def)
    then show "unat (eIndex (L ! j)) = unat i" using L(2) [of j] b by (simp add: j_def)
  qed
  then have i: "eIndex (L ! j) = i" by (intro unsigned_word_eqI [where 'a = nat]) simp
  have "c s (RaftLogKey (rsRangeID rs) i) = Some (raw_of RC (L ! j))"
  proof -
    obtain raw where "entMarshal RC (L ! j) = Inr raw" "c s (RaftLogKey (rsRangeID rs) (eIndex (L ! j))) = Some raw"
      using rep nth_mem [OF j(1)] unfolding log_rep_def by blast
    then show ?thesis by (simp add: raw_of_def i)
  qed
  then have "Batch_Get E s (RaftLogKey (rsRangeID rs) i) = Inr (Some (raw_of RC (L ! j)))"
    using healthyD(1) [OF env(1)] raft_codec_entry(2) [OF env(2), of "L ! j"]
    by (simp add: Batch_Get_def clone_nil_def)
  moreover have "\<not> i = tsIndex (rsTrunc rs)" "\<not> i < tsIndex (rsTrunc rs)" "\<not> i > rsLast rs" using False by auto
  ultimately show ?thesis
    unfolding Term_def j_def [symmetric] by (simp add: r_io_def r_corrupt_def raft_codec_entry(3) [OF env(2)])
qed

section \<open>A concrete codec\<close>

definition put_u64 :: "64 word \<Rightarrow> bytes" where "put_u64 = EncodeUint64 []"

definition get_u64 :: "bytes \<Rightarrow> unit + bytes \<times> 64 word" where
  "get_u64 b = un_enc (DecodeUint64 b)"

fun put_etype :: "EntryType \<Rightarrow> byte" where
  "put_etype EntryNormal = 0" | "put_etype EntryConfChange = 1" | "put_etype EntryOther = 2"

definition get_etype :: "byte \<Rightarrow> EntryType" where
  "get_etype t = (if t = 0 then EntryNormal else if t = 1 then EntryConfChange else EntryOther)"

definition put_entry :: "Entry \<Rightarrow> bytes" where
  "put_entry e = put_etype (eType e) # put_u64 (eTerm e) @ put_u64 (eIndex e) @ eData e"

definition get_entry :: "bytes \<Rightarrow> unit + Entry" where
  "get_entry b = res_bind (get_u64 (tl b)) (\<lambda>(r, t). res_bind (get_u64 r) (\<lambda>(r, i).
     Inr \<lparr>eTerm = t, eIndex = i, eType = get_etype (hd b), eData = r\<rparr>))"

fun put_ts :: "timestamp \<Rightarrow> bytes" where
  "put_ts (Timestamp w l) = put_u64 w @ put_u32 l"

definition get_ts :: "bytes \<Rightarrow> unit + bytes \<times> timestamp" where
  "get_ts b = res_bind (get_u64 b) (\<lambda>(r, w). res_bind (get_u32 r) (\<lambda>(r, l). Inr (r, Timestamp w l)))"

definition put_state :: "replicaState \<Rightarrow> bytes" where
  "put_state st = of_bool (Frozen st) # put_u64 (AppliedIndex st) @ put_u64 (TruncatedIndex st) @
     put_u64 (TruncatedTerm st) @ put_ts (GCThreshold st) @ put_u64 (SizeBytes st) @ put_u64 (MergedInto st) @
     put_ts (ClosedTS st)"

definition get_state :: "bytes \<Rightarrow> unit + replicaState" where
  "get_state b =
     res_bind (get_u64 (tl b)) (\<lambda>(r, a). res_bind (get_u64 r) (\<lambda>(r, ti). res_bind (get_u64 r) (\<lambda>(r, tt).
     res_bind (get_ts r) (\<lambda>(r, g). res_bind (get_u64 r) (\<lambda>(r, z). res_bind (get_u64 r) (\<lambda>(r, m).
     res_bind (get_ts r) (\<lambda>(r, c).
       Inr \<lparr>AppliedIndex = a, TruncatedIndex = ti, TruncatedTerm = tt, GCThreshold = g, SizeBytes = z,
         Frozen = (hd b = 1), MergedInto = m, ClosedTS = c\<rparr>)))))))"

definition put_trunc :: "truncatedState \<Rightarrow> bytes" where
  "put_trunc t = put_u64 (tsIndex t) @ put_u64 (tsTerm t)"

definition get_trunc :: "bytes \<Rightarrow> unit + truncatedState" where
  "get_trunc b = res_bind (get_u64 b) (\<lambda>(r, i). res_bind (get_u64 r) (\<lambda>(r, t). Inr \<lparr>tsIndex = i, tsTerm = t\<rparr>))"

definition put_hs :: "HardState \<Rightarrow> bytes" where
  "put_hs h = put_u64 (hsTerm h) @ put_u64 (hsVote h) @ put_u64 (hsCommit h)"

definition get_hs :: "bytes \<Rightarrow> unit + HardState" where
  "get_hs b = res_bind (get_u64 b) (\<lambda>(r, t). res_bind (get_u64 r) (\<lambda>(r, v). res_bind (get_u64 r) (\<lambda>(r, c).
     Inr \<lparr>hsTerm = t, hsVote = v, hsCommit = c\<rparr>)))"

definition demo_raft :: raft_codec where
  "demo_raft = \<lparr>entMarshal = \<lambda>e. Inr (put_entry e), entUnmarshal = \<lambda>b. io_of (get_entry b),
     entSize = \<lambda>e. of_nat (length (put_entry e)),
     jsonState = \<lambda>st. Inr (put_state st), unjsonState = \<lambda>b. io_of (get_state b),
     jsonTrunc = \<lambda>t. Inr (put_trunc t), unjsonTrunc = \<lambda>b. io_of (get_trunc b),
     hsMarshal = \<lambda>h. Inr (put_hs h), hsUnmarshal = \<lambda>b. io_of (get_hs b)\<rparr>"

lemma get_u64 [simp]: "get_u64 (put_u64 x @ r) = Inr (r, x)" "get_u64 (put_u64 x) = Inr ([], x)"
  using u64.roundtrip [of x r] u64.roundtrip [of x "[]"] by (simp_all add: get_u64_def put_u64_def)

lemma get_ts [simp]: "get_ts (put_ts t @ r) = Inr (r, t)"
  by (cases t) (simp add: get_ts_def)

lemma get_ts_end [simp]: "get_ts (put_ts t) = Inr ([], t)"
  using get_ts [of t "[]"] by (simp only: append_Nil2)

lemma get_entry [simp]: "get_entry (put_entry e) = Inr e"
  by (cases e; cases "eType e") (simp_all add: get_entry_def put_entry_def get_etype_def)

lemma get_state [simp]: "get_state (put_state st) = Inr st"
  by (cases st) (simp add: get_state_def put_state_def)

lemma get_trunc [simp]: "get_trunc (put_trunc t) = Inr t"
  by (simp add: get_trunc_def put_trunc_def)

lemma get_hs [simp]: "get_hs (put_hs h) = Inr h"
  by (simp add: get_hs_def put_hs_def)

lemma put_trunc_ne: "put_trunc t \<noteq> []" "put_hs h \<noteq> []"
  by (simp_all add: put_trunc_def put_hs_def put_u64_def EncodeUint64_def)

lemma demo_raft_ok: "raft_codec_ok demo_raft"
  by (simp add: raft_codec_ok_def demo_raft_def put_trunc_ne) (simp add: put_entry_def put_state_def)

section \<open>Deferred truncation waits for the flush\<close>

text \<open>
  The runs of a replica's bookkeeping on a split store: \<open>h\<close> lists the applied indexes with the
  sequence number of the batch that applied each, \<open>f\<close> is the newest flushed watermark seen. Log
  indexes apply in increasing order, one batch after the other, and the watermark only grows.
  A membership change applies without a sample.
\<close>

inductive dt_run :: "'s deps \<Rightarrow> (64 word \<times> 64 word) list \<Rightarrow> 64 word \<Rightarrow> deferred \<Rightarrow> bool" for E where
  dt_init: "dt_run E [] 0 \<lparr>applySeqs = [], durableApplied = 0, pendingTrunc = \<lparr>tsIndex = 0, tsTerm = 0\<rparr>\<rparr>"
| dt_note: "\<lbrakk>dt_run E h f d; \<And>i q. (i, q) \<in> set h \<Longrightarrow> i < idx \<and> q \<le> seq; 0 < idx\<rbrakk> \<Longrightarrow>
    dt_run E (h @ [(idx, seq)]) f (noteAppliedSeq True idx seq d)"
| dt_unsampled: "\<lbrakk>dt_run E h f d; \<And>i q. (i, q) \<in> set h \<Longrightarrow> i < idx \<and> q \<le> seq; 0 < idx\<rbrakk> \<Longrightarrow>
    dt_run E (h @ [(idx, seq)]) f d"
| dt_durable: "\<lbrakk>dt_run E h f d; f \<le> f'\<rbrakk> \<Longrightarrow> dt_run E h f' (snd (durableAppliedLocked True a f' d))"
| dt_pending: "dt_run E h f d \<Longrightarrow> dt_run E h f (notePendingTruncate i t d)"
| dt_truncate: "\<lbrakk>dt_run E h f d; f \<le> f'; rsSplit rs\<rbrakk> \<Longrightarrow>
    dt_run E h f' (fst (maybeTruncateDeferredLocked E RC a f' stopped rs d s))"

text \<open>Every sample is an applied index; the durable index is zero or applied, and all up to it is flushed.\<close>

definition flushed_upto :: "(64 word \<times> 64 word) list \<Rightarrow> 64 word \<Rightarrow> 64 word \<Rightarrow> bool" where
  "flushed_upto h f n \<longleftrightarrow> (\<forall>(i, q) \<in> set h. i \<le> n \<longrightarrow> q \<le> f)"

definition dt_inv :: "(64 word \<times> 64 word) list \<Rightarrow> 64 word \<Rightarrow> deferred \<Rightarrow> bool" where
  "dt_inv h f d \<longleftrightarrow>
     (\<forall>a \<in> set (applySeqs d). (asIndex a, asSeq a) \<in> set h) \<and>
     (durableApplied d = 0 \<or> durableApplied d \<in> fst ` set h) \<and>
     (\<forall>(i, q) \<in> set h. 0 < i) \<and>
     (\<forall>(i, q) \<in> set h. \<forall>(j, r) \<in> set h. i \<le> j \<longrightarrow> q \<le> r) \<and>
     flushed_upto h f (durableApplied d)"

lemma flushed_upto_mono: "flushed_upto h f n \<Longrightarrow> f \<le> f' \<Longrightarrow> flushed_upto h f' n"
  unfolding flushed_upto_def by (auto intro: order_trans)

lemma dt_inv_dest:
  assumes "dt_inv h f d"
  shows "a \<in> set (applySeqs d) \<Longrightarrow> (asIndex a, asSeq a) \<in> set h"
    and "durableApplied d = 0 \<or> durableApplied d \<in> fst ` set h"
    and "(i, q) \<in> set h \<Longrightarrow> 0 < i"
    and "(i, q) \<in> set h \<Longrightarrow> (j, r) \<in> set h \<Longrightarrow> i \<le> j \<Longrightarrow> q \<le> r"
    and "flushed_upto h f (durableApplied d)"
  using assms unfolding dt_inv_def by auto

lemma flushed_sample:
  assumes "dt_inv h f d" "a \<in> set (applySeqs d)" "asSeq a \<le> f'"
  shows "flushed_upto h f' (asIndex a)"
proof -
  have "(asIndex a, asSeq a) \<in> set h" using assms(1,2) by (simp add: dt_inv_def)
  then have "q \<le> asSeq a" if "(i, q) \<in> set h" "i \<le> asIndex a" for i q
    using assms(1) that unfolding dt_inv_def by blast
  then show ?thesis using assms(3) unfolding flushed_upto_def by (auto intro: order_trans)
qed

lemma noteAppliedSeq_samples:
  "set (applySeqs (noteAppliedSeq True idx seq d)) \<subseteq> insert \<lparr>asIndex = idx, asSeq = seq\<rparr> (set (applySeqs d))"
  "durableApplied (noteAppliedSeq True idx seq d) = durableApplied d"
  by (auto simp: noteAppliedSeq_def Let_def dest: subsetD [OF set_update_subset_insert])

lemma applied_inv:
  assumes inv: "dt_inv h f d" and new: "\<And>i q. (i, q) \<in> set h \<Longrightarrow> i < idx \<and> q \<le> seq" and "0 < idx"
    and d': "set (applySeqs d') \<subseteq> insert \<lparr>asIndex = idx, asSeq = seq\<rparr> (set (applySeqs d))"
      "durableApplied d' = durableApplied d"
  shows "dt_inv (h @ [(idx, seq)]) f d'"
proof -
  have "durableApplied d < idx" using inv new \<open>0 < idx\<close> by (auto simp: dt_inv_def)
  then have "flushed_upto (h @ [(idx, seq)]) f (durableApplied d)"
    using inv by (auto simp: dt_inv_def flushed_upto_def)
  moreover have "q \<le> r" if "(i, q) \<in> set (h @ [(idx, seq)])" "(j, r) \<in> set (h @ [(idx, seq)])" "i \<le> j" for i j q r
  proof -
    have "(i, q) \<in> set h \<and> (j, r) \<in> set h \<or> r = seq \<and> ((i, q) \<in> set h \<or> q = seq) \<or> (j, r) \<in> set h \<and> i = idx"
      using that(1,2) by auto
    then show ?thesis using dt_inv_dest(4) [OF inv _ _ that(3)] new [of i q] new [of j r] that(3) by auto
  qed
  moreover have "(asIndex a, asSeq a) \<in> set (h @ [(idx, seq)])" if "a \<in> set (applySeqs d')" for a
    using subsetD [OF d'(1) that] dt_inv_dest(1) [OF inv, of a] by auto
  moreover have "0 < i" if "(i, q) \<in> set (h @ [(idx, seq)])" for i q
    using that dt_inv_dest(3) [OF inv, of i q] \<open>0 < idx\<close> by auto
  ultimately show ?thesis
    using dt_inv_dest(2) [OF inv] unfolding dt_inv_def d'(2) set_append image_Un by blast
qed

lemma newest_flushed:
  assumes "\<And>a. a \<in> set as \<Longrightarrow> P (asIndex a)" "P m"
  shows "P (foldl (\<lambda>m a. if asIndex a > m then asIndex a else m) m as)"
  using assms by (induction as arbitrary: m) auto

lemma durable_inv:
  assumes inv: "dt_inv h f d" and "f \<le> f'"
  shows "dt_inv h f' (snd (durableAppliedLocked True a f' d))"
    and "fst (durableAppliedLocked True a f' d) = durableApplied (snd (durableAppliedLocked True a f' d))"
    and "pendingTrunc (snd (durableAppliedLocked True a f' d)) = pendingTrunc d"
proof -
  let ?seen = "takeWhile (\<lambda>a. asSeq a \<le> f') (applySeqs d)"
  let ?P = "\<lambda>n. (n = 0 \<or> n \<in> fst ` set h) \<and> flushed_upto h f' n"
  have "?P (foldl (\<lambda>m a. if asIndex a > m then asIndex a else m) (durableApplied d) ?seen)"
  proof (rule newest_flushed)
    fix a assume "a \<in> set ?seen"
    then have a: "a \<in> set (applySeqs d)" "asSeq a \<le> f'" by (auto dest: set_takeWhileD)
    moreover have "asIndex a \<in> fst ` set h" using image_eqI [OF _ dt_inv_dest(1) [OF inv a(1)], of _ fst] by simp
    ultimately show "?P (asIndex a)" using flushed_sample [OF inv] by blast
  next
    show "?P (durableApplied d)" using inv flushed_upto_mono [OF _ assms(2)] unfolding dt_inv_def by blast
  qed
  then show "dt_inv h f' (snd (durableAppliedLocked True a f' d))"
    using inv by (auto simp: durableAppliedLocked_def Let_def dt_inv_def dest: in_set_dropD)
  show "fst (durableAppliedLocked True a f' d) = durableApplied (snd (durableAppliedLocked True a f' d))"
    "pendingTrunc (snd (durableAppliedLocked True a f' d)) = pendingTrunc d"
    by (simp_all add: durableAppliedLocked_def Let_def)
qed

lemma dt_inv_pending [simp]: "dt_inv h f (d\<lparr>pendingTrunc := p\<rparr>) = dt_inv h f d"
  by (simp add: dt_inv_def)

lemma dt_inv_mono: "dt_inv h f d \<Longrightarrow> f \<le> f' \<Longrightarrow> dt_inv h f' d"
  unfolding dt_inv_def using flushed_upto_mono by blast

lemma dt_run_inv: "dt_run E h f d \<Longrightarrow> dt_inv h f d"
proof (induction rule: dt_run.induct)
  case dt_init
  then show ?case by (simp add: dt_inv_def flushed_upto_def)
next
  case (dt_note h f d idx seq)
  then show ?case by (intro applied_inv [OF dt_note.IH]) (simp_all add: noteAppliedSeq_samples)
next
  case (dt_unsampled h f d idx seq)
  then show ?case by (intro applied_inv [OF dt_unsampled.IH]) auto
next
  case (dt_durable h f d f' a)
  then show ?case by (intro durable_inv(1))
next
  case (dt_pending h f d i t)
  then show ?case by (simp add: notePendingTruncate_def)
next
  case (dt_truncate h f d f' rs RC a stopped s)
  then show ?case
    using durable_inv(1) [of h f d f' a] dt_inv_mono [of h f d f']
    by (auto simp: maybeTruncateDeferredLocked_def Let_def case_prod_beta split: sum.splits)
qed

lemma stageTruncate_point:
  "stageTruncate E index term rs s = Inr (rs', s') \<Longrightarrow> rsTrunc rs' \<noteq> rsTrunc rs \<Longrightarrow> tsIndex (rsTrunc rs') = index"
  by (auto simp: stageTruncate_def res_bind_def split: if_splits sum.splits)

lemma truncated_point:
  assumes "maybeTruncateDeferredLocked E RC a f' stopped rs d s = (d', rs', res)" "rsTrunc rs' \<noteq> rsTrunc rs"
  shows "tsIndex (rsTrunc rs') = tsIndex (pendingTrunc d) \<and>
    tsIndex (pendingTrunc d) \<le> fst (durableAppliedLocked (rsSplit rs) a f' d)"
  using assms stageTruncate_point unfolding maybeTruncateDeferredLocked_def
  by (auto simp: Let_def case_prod_beta not_less split: if_splits sum.splits)

section \<open>Correctness of the Raft log\<close>


text \<open>
  C33: reading the Raft log returns the abstract log. For a state that represents \<open>L\<close>, \<open>Entries\<close>
  fails with the compacted error below the first index and with an error past the last, and
  otherwise returns the longest prefix of the requested slice of \<open>L\<close> whose total size stays
  within the limit, but always at least the first entry; \<open>Term\<close> returns the term of the entry
  at an index of the log and of the truncation point, and the errors the Raft library expects
  outside.
\<close>

theorem raft_log_reads:
  assumes "healthy E c" and "raft_codec_ok RC" and "log_rep RC (c s) rs L" and "lo < hi"
  shows "Entries E RC lo hi maxSize rs s =
      (if lo \<le> tsIndex (rsTrunc rs) then Inl ErrCompacted else if hi > rsLast rs + 1 then Inl BeyondLast
       else Inr (limited RC maxSize (slice rs lo hi L))) \<and>
    Term E RC i rs s =
      (if i = tsIndex (rsTrunc rs) then Inr (tsTerm (rsTrunc rs)) else if i < tsIndex (rsTrunc rs) then Inl ErrCompacted
       else if i > rsLast rs then Inl ErrUnavailable
       else Inr (eTerm (L ! (unat i - unat (tsIndex (rsTrunc rs)) - 1))))"
proof (cases "lo \<le> tsIndex (rsTrunc rs) \<or> hi > rsLast rs + 1")
  case True
  then have "Entries E RC lo hi maxSize rs s = (if lo \<le> tsIndex (rsTrunc rs) then Inl ErrCompacted else Inl BeyondLast)"
    by (auto simp: Entries_def)
  with True show ?thesis using Term_refines [OF assms(1-3), of i] by auto
next
  case False
  then show ?thesis using Entries_refines [OF assms(1-3) _ assms(4), of maxSize] Term_refines [OF assms(1-3), of i] by auto
qed

text \<open>
  C34: on a store whose state engine has no write-ahead log, the Raft log is never cut ahead of
  the flushed state. In every run of the bookkeeping, when the deferred truncation moves the
  truncation point, every index applied at or below the new point was applied by a batch the
  state engine has already flushed, so a crash loses no applied command that the log no longer
  holds, although only about one applied index in 32 is sampled.
\<close>

theorem deferred_truncation_safe:
  assumes "dt_run E h f d" and "f \<le> flushed" and "rsSplit rs"
    and "maybeTruncateDeferredLocked E RC applied flushed stopped rs d s = (d', rs', res)"
    and "rsTrunc rs' \<noteq> rsTrunc rs" and "(i, q) \<in> set h" and "i \<le> tsIndex (rsTrunc rs')"
  shows "q \<le> flushed"
proof -
  have "dt_inv h flushed (snd (durableAppliedLocked True applied flushed d))"
    using durable_inv(1) [OF dt_run_inv [OF assms(1)] assms(2)] .
  then have "flushed_upto h flushed (fst (durableAppliedLocked True applied flushed d))"
    unfolding durable_inv(2) [OF dt_run_inv [OF assms(1)] assms(2)] by (rule dt_inv_dest(5))
  moreover have "i \<le> fst (durableAppliedLocked True applied flushed d)"
    using truncated_point [OF assms(4,5)] assms(3,7) by (auto intro: order_trans)
  ultimately show ?thesis using assms(6) unfolding flushed_upto_def by blast
qed

section \<open>A log of three entries\<close>

definition demo_entry :: "64 word \<Rightarrow> 64 word \<Rightarrow> Entry" where
  "demo_entry t i = \<lparr>eTerm = t, eIndex = i, eType = EntryNormal, eData = [9]\<rparr>"

definition demo_rs :: raftStorage where
  "demo_rs = \<lparr>rsSplit = True, rsRangeID = 1, rsLast = 12, rsVoters = [1], rsApplied = 12,
     rsTrunc = \<lparr>tsIndex = 10, tsTerm = 3\<rparr>\<rparr>"

definition demo_log :: "Entry list" where
  "demo_log = [demo_entry 3 11, demo_entry 4 12]"

definition demo_raft_store :: "(bytes \<times> bytes) list" where
  "demo_raft_store = map (\<lambda>e. (RaftLogKey 1 (eIndex e), put_entry e)) demo_log"

lemma demo_log_rep: "log_rep demo_raft (map_of demo_raft_store) demo_rs demo_log"
  unfolding log_rep_def
  by (auto simp: demo_rs_def demo_log_def demo_entry_def demo_raft_store_def demo_raft_def nth_Cons
    split: nat.splits if_splits)

lemma demo_continues: "continues demo_rs [demo_entry 5 12, demo_entry 5 13]"
  by (auto simp: continues_def demo_rs_def demo_entry_def nth_Cons split: nat.splits)


theorem raft_log_reads_witness:
  "Entries (mem_deps True) demo_raft 11 13 1000 demo_rs demo_raft_store = Inr demo_log \<and>
   Term (mem_deps True) demo_raft 12 demo_rs demo_raft_store = Inr 4"
proof -
  have "limited demo_raft 1000 (slice demo_rs 11 13 demo_log) = demo_log"
    by (simp add: slice_def demo_rs_def demo_log_def demo_entry_def limited_def demo_raft_def put_entry_def put_u64_def
      EncodeUint64_def)
  moreover have "(11 :: 64 word) < 13" by simp
  ultimately show ?thesis
    using raft_log_reads [OF mem_healthy [of True] demo_raft_ok demo_log_rep, of 11 13 1000 12]
    by (simp add: demo_rs_def demo_log_def demo_entry_def)
qed

definition demo_deferred :: deferred where
  "demo_deferred = notePendingTruncate 11 3 (noteAppliedSeq True 12 60 (noteAppliedSeq True 11 50
     \<lparr>applySeqs = [], durableApplied = 0, pendingTrunc = \<lparr>tsIndex = 0, tsTerm = 0\<rparr>\<rparr>))"

lemma demo_dt_run: "dt_run (mem_deps True) [(11, 50), (12, 60)] 0 demo_deferred"
proof -
  have "dt_run (mem_deps True) ([] @ [(11, 50)]) 0 (noteAppliedSeq True 11 50
     \<lparr>applySeqs = [], durableApplied = 0, pendingTrunc = \<lparr>tsIndex = 0, tsTerm = 0\<rparr>\<rparr>)"
    by (rule dt_note [OF dt_init]) simp_all
  then have "dt_run (mem_deps True) (([] @ [(11, 50)]) @ [(12, 60)]) 0 (noteAppliedSeq True 12 60 (noteAppliedSeq True 11 50
     \<lparr>applySeqs = [], durableApplied = 0, pendingTrunc = \<lparr>tsIndex = 0, tsTerm = 0\<rparr>\<rparr>))"
    by (rule dt_note) simp_all
  then show ?thesis unfolding demo_deferred_def by (intro dt_pending) simp
qed

theorem deferred_truncation_safe_witness:
  "\<exists>d' rs' s'. maybeTruncateDeferredLocked (mem_deps True) demo_raft 12 55 False demo_rs demo_deferred demo_raft_store =
     (d', rs', Inr s') \<and> tsIndex (rsTrunc rs') = 11 \<and> (50 :: 64 word) \<le> 55"
proof -
  obtain d' rs' s' where r:
    "maybeTruncateDeferredLocked (mem_deps True) demo_raft 12 55 False demo_rs demo_deferred demo_raft_store = (d', rs', Inr s')"
    "tsIndex (rsTrunc rs') = 11"
    by (simp add: maybeTruncateDeferredLocked_def demo_deferred_def noteAppliedSeq_def notePendingTruncate_def
      durableAppliedLocked_def stageTruncate_def stageTruncatedState_def putTruncatedState_def demo_rs_def delete_log_def
      indexes_def demo_raft_def mem_deps_def Batch_Delete_def Batch_Put_def r_io_def Let_def)
  have "(50 :: 64 word) \<le> 55"
    by (rule deferred_truncation_safe [OF demo_dt_run _ _ r(1), of 11]) (simp_all add: demo_rs_def r(2), use r(2) in auto)
  with r show ?thesis by blast
qed

end
