(* ===== verification/Eval.thy ===== *)
theory Eval
  imports RaftStorage TxnRecord
begin

text \<open>
  Evaluation of batches on a replica (the \<^verbatim>\<open>eval\<close> functions of
  \<^verbatim>\<open>src/pkg/kvserver/apply.go\<close>, \<^verbatim>\<open>evalOnePhase\<close> of \<^verbatim>\<open>txn.go\<close> and the batch helpers of
  \<^verbatim>\<open>replica.go\<close>). An engine batch is the engine state with the writes staged. Evaluating a
  request answers it, skips it (a write-intent conflict was collected; evaluation goes on so
  that every conflict is reported at once) or fails the batch. The replica's fields that the
  commands change in memory are threaded through and survive a failure, as in the source.
\<close>

section \<open>Decimal integers\<close>

text \<open>\<^verbatim>\<open>strconv.FormatInt(v, 10)\<close> and \<^verbatim>\<open>strconv.ParseInt(s, 10, 64)\<close>.\<close>

fun nat_digits :: "nat \<Rightarrow> bytes" where
  "nat_digits n = (if n < 10 then [of_nat (48 + n)] else nat_digits (n div 10) @ [of_nat (48 + n mod 10)])"

declare nat_digits.simps [simp del]

definition digit_val :: "byte \<Rightarrow> nat option" where
  "digit_val b = (if 48 \<le> unat b \<and> unat b < 58 then Some (unat b - 48) else None)"

fun parse_digits :: "nat \<Rightarrow> bytes \<Rightarrow> nat option" where
  "parse_digits acc [] = Some acc"
| "parse_digits acc (b # bs) = (case digit_val b of None \<Rightarrow> None | Some d \<Rightarrow> parse_digits (10 * acc + d) bs)"

definition FormatInt :: "64 word \<Rightarrow> bytes" where
  "FormatInt v = (if sint v < 0 then 0x2D # nat_digits (nat (- sint v)) else nat_digits (nat (sint v)))"

definition ParseInt :: "bytes \<Rightarrow> 64 word option" where
  "ParseInt b =
     (let neg = (b \<noteq> [] \<and> hd b = 0x2D); ds = (if neg \<or> b \<noteq> [] \<and> hd b = 0x2B then tl b else b)
      in if ds = [] then None
         else case parse_digits 0 ds of None \<Rightarrow> None
              | Some n \<Rightarrow> if neg then (if n \<le> 2 ^ 63 then Some (of_int (- int n)) else None)
                          else if n < 2 ^ 63 then Some (of_nat n) else None)"

section \<open>The replica\<close>

record Replica =
  r_rangeID :: RangeID
  r_desc :: RangeDescriptor
  r_appliedIndex :: "64 word"
  r_appliedTerm :: "64 word"
  r_gcThreshold :: timestamp
  r_sizeBytes :: "64 word"
  r_frozen :: bool
  r_mergedInto :: RangeID
  r_closedTS :: timestamp
  r_rs :: raftStorage
  r_deferred :: deferred
  r_tsCache :: tsCache
  r_loadHandoff :: "(64 word \<times> 64 word) option"
  r_confChangeRefusals :: nat

section \<open>Batches\<close>

definition readTimestamp :: "BatchRequest \<Rightarrow> timestamp" where
  "readTimestamp ba = (case bTxn (baHeader ba) of Some t \<Rightarrow> ReadTimestamp t | None \<Rightarrow> bTimestamp (baHeader ba))"

definition writeTimestamp :: "BatchRequest \<Rightarrow> timestamp" where
  "writeTimestamp ba = (case bTxn (baHeader ba) of Some t \<Rightarrow> WriteTimestamp t | None \<Rightarrow> bTimestamp (baHeader ba))"

definition batchTxnID :: "BatchRequest \<Rightarrow> uuid" where
  "batchTxnID ba = (case bTxn (baHeader ba) of Some t \<Rightarrow> ID t | None \<Rightarrow> uuid_nil)"

definition txn_meta :: "BatchRequest \<Rightarrow> TxnMeta option" where
  "txn_meta ba = map_option TxnMeta.truncate (bTxn (baHeader ba))"

definition plain_write :: "RequestUnion \<Rightarrow> bool" where
  "plain_write u = (case GetInner u of Some (ReqPut _) \<Rightarrow> True | Some (ReqDelete _) \<Rightarrow> True | _ \<Rightarrow> False)"

definition is1PC :: "BatchRequest \<Rightarrow> bool" where
  "is1PC ba =
     (if bTxn (baHeader ba) = None \<or> length (Requests ba) < 2 then False
      else case uEndTxn (List.last (Requests ba)) of None \<Rightarrow> False
           | Some e \<Rightarrow> Commit e \<and> etAll e \<and> list_all plain_write (butlast (Requests ba)))"

definition maxTimestamp :: timestamp where
  "maxTimestamp = Timestamp 0x7FFFFFFFFFFFFFFF 0x7FFFFFFF"

abbreviation (input) scanTargetBytes :: int where "scanTargetBytes \<equiv> 8388608"

definition txn_opts :: "TxnMeta option \<Rightarrow> int \<Rightarrow> MVCCGetOptions" where
  "txn_opts txn target = \<lparr>optTxn = txn, UncertaintyLimit = zero_ts, TargetBytes = target, Inconsistent = False\<rparr>"

definition scanResponse :: "ScanResult \<Rightarrow> ResponseUnion" where
  "scanResponse res = RespScan (map (\<lambda>kv. (kvKey kv, kvValue kv)) (KVs res))
     (case ScanResult.Resume res of None \<Rightarrow> [] | Some k \<Rightarrow> k)"

section \<open>Conflicts and outcomes\<close>

definition collect :: "Intent list \<Rightarrow> mvcc_error \<Rightarrow> Intent list option" where
  "collect ics e =
     (case e of
        WriteIntentError is \<Rightarrow>
          Some (fold (\<lambda>i cs. if list_ex (\<lambda>j. intKey j = intKey i) cs then cs else cs @ [i]) is ics)
      | _ \<Rightarrow> None)"

definition conflict_err :: "Intent list \<Rightarrow> mvcc_error option" where
  "conflict_err ics = (if ics = [] then None else Some (WriteIntentError ics))"

datatype outcome = Fail Error | Skip | Reply ResponseUnion

type_synonym 's evaluated = "outcome \<times> 's \<times> Intent list"

text \<open>An MVCC call whose conflicts are collected. Conflicts are raised before anything is staged.\<close>

definition attempt :: "mvcc_error + 'a \<Rightarrow> 's \<Rightarrow> Intent list \<Rightarrow> ('a \<Rightarrow> 's evaluated) \<Rightarrow> 's evaluated" where
  "attempt res s ics f =
     (case res of Inr x \<Rightarrow> f x
      | Inl e \<Rightarrow> (case collect ics e of Some ics' \<Rightarrow> (Skip, s, ics') | None \<Rightarrow> (Fail (NewError e), s, ics)))"

text \<open>A call whose every error fails the batch.\<close>

definition answer_with :: "(Error + 'a \<times> 's) \<Rightarrow> 's \<Rightarrow> Intent list \<Rightarrow> ('a \<Rightarrow> ResponseUnion) \<Rightarrow> 's evaluated" where
  "answer_with res s ics f = (case res of Inr (x, s') \<Rightarrow> (Reply (f x), s', ics) | Inl e \<Rightarrow> (Fail e, s, ics))"

definition unit_res :: "mvcc_error + 's \<Rightarrow> Error + unit \<times> 's" where
  "unit_res r = (case r of Inl e \<Rightarrow> Inl (NewError e) | Inr s \<Rightarrow> Inr ((), s))"

section \<open>Requests of a write batch\<close>

definition eval_increment ::
  "'s deps \<Rightarrow> timestamp \<Rightarrow> TxnMeta option \<Rightarrow> IncrementRequest \<Rightarrow> 's \<Rightarrow> Intent list \<Rightarrow> 's evaluated" where
  "eval_increment E ts txn req s ics =
     attempt (MVCCGet E s (rKey req) maxTimestamp (txn_opts txn 0)) s ics (\<lambda>cur.
       case (case cur of None \<Rightarrow> Some 0 | Some raw \<Rightarrow> ParseInt raw) of
         None \<Rightarrow> (Fail (NewErrorf ''increment on non-numeric value at %s''), s, ics)
       | Some v \<Rightarrow>
           let v = v + incBy req
           in attempt (MVCCPut E (rKey req) ts (Some (FormatInt v)) txn s) s ics (\<lambda>s'.
                (Reply (RespIncrement v), s', ics)))"

definition eval_get ::
  "'s deps \<Rightarrow> timestamp \<Rightarrow> TxnMeta option \<Rightarrow> GetRequest \<Rightarrow> 's \<Rightarrow> Intent list \<Rightarrow> 's evaluated" where
  "eval_get E rts txn req s ics =
     attempt (MVCCGet E s (rKey req) rts (txn_opts txn 0)) s ics (\<lambda>val.
       if getForUpdate req
       then (if txn = None then (Fail (NewErrorf ''locking read outside a transaction''), s, ics)
             else attempt (MVCCLock E (rKey req) rts val txn s) s ics (\<lambda>s'. (Reply (RespGet val), s', ics)))
       else (Reply (RespGet val), s, ics))"

text \<open>Locking the rows of a scan: whether every row was locked.\<close>

fun lock_rows ::
  "'s deps \<Rightarrow> timestamp \<Rightarrow> TxnMeta option \<Rightarrow> KeyValue list \<Rightarrow> bool \<Rightarrow> 's \<Rightarrow> Intent list \<Rightarrow>
   (Error + bool) \<times> 's \<times> Intent list" where
  "lock_rows E rts txn [] locked s ics = (Inr locked, s, ics)"
| "lock_rows E rts txn (kv # kvs) locked s ics =
     (case MVCCLock E (kvKey kv) rts (kvValue kv) txn s of
        Inr s' \<Rightarrow> lock_rows E rts txn kvs locked s' ics
      | Inl e \<Rightarrow>
          (case collect ics e of
             Some ics' \<Rightarrow> lock_rows E rts txn kvs False s ics'
           | None \<Rightarrow> (Inl (NewError e), s, ics)))"

definition eval_scan ::
  "'s deps \<Rightarrow> timestamp \<Rightarrow> TxnMeta option \<Rightarrow> ScanRequest \<Rightarrow> 's \<Rightarrow> Intent list \<Rightarrow> 's evaluated" where
  "eval_scan E rts txn req s ics =
     (if Reverse req \<and> scanForUpdate req
      then (Fail (NewErrorf ''reverse locking scans are not supported''), s, ics)
      else attempt ((if Reverse req then MVCCReverseScan else MVCCScan) E s (rKey req) (rEndKey req) rts
               (sint (MaxRows req)) (txn_opts txn scanTargetBytes)) s ics (\<lambda>res.
        if scanForUpdate req
        then (if txn = None then (Fail (NewErrorf ''locking scan outside a transaction''), s, ics)
              else case lock_rows E rts txn (KVs res) True s ics of
                     (Inl e, s', ics') \<Rightarrow> (Fail e, s', ics')
                   | (Inr locked, s', ics') \<Rightarrow> (if locked then Reply (scanResponse res) else Skip, s', ics'))
        else (Reply (scanResponse res), s, ics)))"

definition metaUpdateApplies :: "RangeDescriptor option \<Rightarrow> UpdateMetaRequest \<Rightarrow> bool" where
  "metaUpdateApplies existing req =
     (case umDesc req of
        None \<Rightarrow> (case existing of None \<Rightarrow> False
                 | Some d \<Rightarrow> dRangeID d = IfRangeID req \<and> sint (Generation d) \<le> sint (IfGeneration req))
      | Some nd \<Rightarrow>
          (case existing of None \<Rightarrow> True
           | Some d \<Rightarrow> sint (Generation d) < sint (Generation nd) \<or>
               dRangeID d = dRangeID nd \<and> Generation d = Generation nd))"

definition evalUpdateMeta ::
  "'s deps \<Rightarrow> kv_codec \<Rightarrow> UpdateMetaRequest \<Rightarrow> timestamp \<Rightarrow> 's \<Rightarrow> Error + bool \<times> 's" where
  "evalUpdateMeta E K req ts s =
     (case MVCCGet E s (rKey req) maxTimestamp (txn_opts None 0) of Inl e \<Rightarrow> Inl (NewError e)
      | Inr raw \<Rightarrow>
          res_bind (case raw of None \<Rightarrow> Inr None
            | Some b \<Rightarrow> (case unjsonDesc K b of Inl _ \<Rightarrow> Inl (NewErrorf ''corrupt meta record at %s: %w'')
                        | Inr d \<Rightarrow> Inr (Some d))) (\<lambda>existing.
          if \<not> metaUpdateApplies existing req then Inr (False, s)
          else case umDesc req of
                 None \<Rightarrow> map_sum NewError (Pair True) (MVCCDelete E (rKey req) ts None s)
               | Some d \<Rightarrow>
                   (case jsonDesc K d of Inl _ \<Rightarrow> Inl (NewErrorf ''storage'')
                    | Inr val \<Rightarrow> map_sum NewError (Pair True) (MVCCPut E (rKey req) ts (Some val) None s))))"

definition eval_gc :: "'s deps \<Rightarrow> GCRequest \<Rightarrow> 's \<Rightarrow> mvcc_error + 's" where
  "eval_gc E req s =
     res_bind (res_fold (\<lambda>v s. lift_io (Batch_Delete E (EncodeMVCCKey (gvKey v) (gvTS v)) s)) (Versions req) s)
       (res_fold (\<lambda>k s. lift_io (Batch_Delete E k s)) (TxnRecordKeys req))"

text \<open>Requests that change what the replica holds in memory.\<close>

definition eval_truncate ::
  "'s deps \<Rightarrow> TruncateLogRequest \<Rightarrow> Replica \<Rightarrow> 's \<Rightarrow> Intent list \<Rightarrow> Replica \<times> 's evaluated" where
  "eval_truncate E req r s ics =
     (if rsSplit (r_rs r)
      then (r\<lparr>r_deferred := notePendingTruncate (tlIndex req) (tlTerm req) (r_deferred r)\<rparr>, Reply RespTruncateLog, s, ics)
      else case stageTruncate E (tlIndex req) (tlTerm req) (r_rs r) s of
             Inl _ \<Rightarrow> (r, Fail (NewErrorf ''storage''), s, ics)
           | Inr (rs, s') \<Rightarrow> (r\<lparr>r_rs := rs\<rparr>, Reply RespTruncateLog, s', ics))"

definition eval_request ::
  "'s deps \<Rightarrow> kv_codec \<Rightarrow> BatchRequest \<Rightarrow> Request \<Rightarrow> Replica \<Rightarrow> 's \<Rightarrow> Intent list \<Rightarrow> Replica \<times> 's evaluated" where
  "eval_request E K ba q r s ics =
     (let ts = writeTimestamp ba; rts = readTimestamp ba; txn = txn_meta ba; t = bTxn (baHeader ba)
      in case q of
           ReqPut req \<Rightarrow> (r, attempt (MVCCPut E (rKey req) ts (putValue req) txn s) s ics (\<lambda>s'. (Reply RespPut, s', ics)))
         | ReqDelete req \<Rightarrow> (r, attempt (MVCCDelete E (rKey req) ts txn s) s ics (\<lambda>s'. (Reply RespDelete, s', ics)))
         | ReqIncrement req \<Rightarrow> (r, eval_increment E ts txn req s ics)
         | ReqGet req \<Rightarrow> (r, eval_get E rts txn req s ics)
         | ReqScan req \<Rightarrow> (r, eval_scan E rts txn req s ics)
         | ReqEndTxn req \<Rightarrow> (r, answer_with (evalEndTxn E K t req s) s ics RespEndTxn)
         | ReqHeartbeatTxn req \<Rightarrow> (r, answer_with (evalHeartbeatTxn E K t req s) s ics RespHeartbeatTxn)
         | ReqPushTxn req \<Rightarrow> (r, answer_with (evalPushTxn E K req s) s ics RespPushTxn)
         | ReqResolveIntent req \<Rightarrow>
             (r, answer_with (unit_res (MVCCResolveIntent E (rKey req) (riTxnID req) (riStatus req) (riCommitTS req) s))
                   s ics (\<lambda>_. RespResolveIntent))
         | ReqUpdateMeta req \<Rightarrow> (r, answer_with (evalUpdateMeta E K req ts s) s ics RespUpdateMeta)
         | ReqRollbackIntent req \<Rightarrow>
             (r, answer_with (unit_res (MVCCRollbackIntent E (rKey req) (rbTxnID req) (rbSequence req) s))
                   s ics (\<lambda>_. RespRollbackIntent))
         | ReqRecoverTxn req \<Rightarrow> (r, answer_with (evalRecoverTxn E K req s) s ics RespRecoverTxn)
         | ReqGC req \<Rightarrow> (r, answer_with (unit_res (eval_gc E req s)) s ics (\<lambda>_. RespGC))
         | ReqTruncateLog req \<Rightarrow> eval_truncate E req r s ics
         | ReqSubsume req \<Rightarrow> (r\<lparr>r_frozen := True, r_mergedInto := MergeInto req\<rparr>, Reply RespSubsume, s, ics)
         | ReqUnfreeze req \<Rightarrow> (r\<lparr>r_frozen := False, r_mergedInto := 0\<rparr>, Reply RespUnfreeze, s, ics)
         | _ \<Rightarrow> (r, Fail (NewErrorf ''unsupported request in write batch: %T''), s, ics))"

section \<open>Write batches\<close>

fun eval_requests ::
  "'s deps \<Rightarrow> kv_codec \<Rightarrow> BatchRequest \<Rightarrow> RequestUnion list \<Rightarrow> Replica \<Rightarrow> 's \<Rightarrow> Intent list \<Rightarrow> ResponseUnion list \<Rightarrow>
   Replica \<times> 's \<times> (Error + ResponseUnion list)" where
  "eval_requests E K ba [] r s ics rus =
     (r, s, case conflict_err ics of Some e \<Rightarrow> Inl (NewError e) | None \<Rightarrow> Inr rus)"
| "eval_requests E K ba (u # us) r s ics rus =
     (case GetInner u of
        None \<Rightarrow> (r, s, Inl (NewErrorf ''unsupported request in write batch: %T''))
      | Some q \<Rightarrow>
          (case eval_request E K ba q r s ics of
             (r', Fail e, s', _) \<Rightarrow> (r', s', Inl e)
           | (r', Skip, s', ics') \<Rightarrow> eval_requests E K ba us r' s' ics' rus
           | (r', Reply ru, s', ics') \<Rightarrow> eval_requests E K ba us r' s' ics' (rus @ [ru])))"

definition one_phase_request ::
  "'s deps \<Rightarrow> timestamp \<Rightarrow> Request option \<Rightarrow> 's \<Rightarrow> Intent list \<Rightarrow> 's evaluated" where
  "one_phase_request E ts q s ics =
     (case q of
        Some (ReqPut req) \<Rightarrow>
          attempt (MVCCPutCommitted E (rKey req) ts (putValue req) s) s ics (\<lambda>s'. (Reply RespPut, s', ics))
      | Some (ReqDelete req) \<Rightarrow> attempt (MVCCDeleteCommitted E (rKey req) ts s) s ics (\<lambda>s'. (Reply RespDelete, s', ics))
      | Some (ReqEndTxn req) \<Rightarrow> (Reply (RespEndTxn \<lparr>CommitTimestamp = ts, OnePhase = True\<rparr>), s, ics)
      | _ \<Rightarrow> (Fail (NewErrorf ''unsupported request in one-phase batch: %T''), s, ics))"

fun one_phase_requests ::
  "'s deps \<Rightarrow> timestamp \<Rightarrow> RequestUnion list \<Rightarrow> 's \<Rightarrow> Intent list \<Rightarrow> ResponseUnion list \<Rightarrow>
   's \<times> (Error + ResponseUnion list)" where
  "one_phase_requests E ts [] s ics rus =
     (s, case conflict_err ics of Some e \<Rightarrow> Inl (NewError e) | None \<Rightarrow> Inr rus)"
| "one_phase_requests E ts (u # us) s ics rus =
     (case one_phase_request E ts (GetInner u) s ics of
        (Fail e, s', _) \<Rightarrow> (s', Inl e)
      | (Skip, s', ics') \<Rightarrow> one_phase_requests E ts us s' ics' rus
      | (Reply ru, s', ics') \<Rightarrow> one_phase_requests E ts us s' ics' (rus @ [ru]))"

definition batch_response :: "BatchRequest \<Rightarrow> ResponseUnion list \<Rightarrow> BatchResponse" where
  "batch_response ba rus = \<lparr>brTxn = bTxn (baHeader ba), brTimestamp = bTimestamp (baHeader ba), Responses = rus\<rparr>"

definition evalOnePhase ::
  "'s deps \<Rightarrow> kv_codec \<Rightarrow> Transaction \<Rightarrow> BatchRequest \<Rightarrow> 's \<Rightarrow> 's \<times> (Error + BatchResponse)" where
  "evalOnePhase E K txn ba s =
     (if \<not> Equal (ReadTimestamp txn) (WriteTimestamp txn)
      then (s, Inl ((NewErrorf ''transaction %s cannot commit in one phase: write timestamp %s diverged from read timestamp %s'')
                  \<lparr>TxnRetry := Some (WriteTimestamp txn)\<rparr>))
      else case loadTxnRecord E K s (txnRecordKey txn) of Inl e \<Rightarrow> (s, Inl (store_Error e))
           | Inr rec \<Rightarrow>
               if (case rec of None \<Rightarrow> False | Some x \<Rightarrow> Status x = ABORTED)
               then (s, Inl (aborted_Error ''transaction %s aborted before its one-phase commit''))
               else let (s', res) = one_phase_requests E (WriteTimestamp txn) (Requests ba) s [] []
                    in (s', map_sum id (batch_response ba) res))"

definition evalWriteBatch ::
  "'s deps \<Rightarrow> kv_codec \<Rightarrow> Replica \<Rightarrow> BatchRequest \<Rightarrow> 's \<Rightarrow> Replica \<times> 's \<times> (Error + BatchResponse)" where
  "evalWriteBatch E K r ba s =
     (if is1PC ba then (r, evalOnePhase E K (the (bTxn (baHeader ba))) ba s)
      else case (if CreateTxnRecord (baHeader ba) then createTxnRecord E K (r_gcThreshold r) (bTxn (baHeader ba)) s
                 else Inr ((), s)) of
             Inl e \<Rightarrow> (r, s, Inl e)
           | Inr (_, s) \<Rightarrow>
               let (r', s', res) = eval_requests E K ba (Requests ba) r s [] []
               in (r', s', map_sum id (batch_response ba) res))"

section \<open>Read-only batches\<close>

definition read_opts :: "64 word \<Rightarrow> BatchRequest \<Rightarrow> MVCCGetOptions" where
  "read_opts offset ba =
     \<lparr>optTxn = txn_meta ba,
      UncertaintyLimit = (if StaleRead (baHeader ba) then readTimestamp ba
        else case bTxn (baHeader ba) of Some t \<Rightarrow> AddNanos (ReadTimestamp t) offset | None \<Rightarrow> zero_ts),
      TargetBytes = 0, Inconsistent = ReadInconsistent (baHeader ba)\<rparr>"

definition query_push :: "'s deps \<Rightarrow> kv_codec \<Rightarrow> PushTxnRequest \<Rightarrow> 's \<Rightarrow> Error + ResponseUnion" where
  "query_push E K req s =
     (case loadTxnRecord E K s (txnRecordKey (PusheeTxn req)) of Inl e \<Rightarrow> Inl (store_Error e)
      | Inr None \<Rightarrow> Inr (RespPushTxn (push_response PENDING zero_ts []))
      | Inr (Some rec) \<Rightarrow> Inr (RespPushTxn \<lparr>prStatus = Status rec, prCommitTS = WriteTimestamp rec,
          prWaitingFor = WaitingFor rec, prWaitingForKey = WaitingForKey rec, prPriority = Priority rec,
          prInFlightKeys = []\<rparr>))"

definition read_request ::
  "'s deps \<Rightarrow> kv_codec \<Rightarrow> 64 word \<Rightarrow> BatchRequest \<Rightarrow> Request option \<Rightarrow> 's \<Rightarrow> Error + ResponseUnion" where
  "read_request E K offset ba q s =
     (let ts = readTimestamp ba; opts = read_opts offset ba
      in case q of
           Some (ReqGet req) \<Rightarrow> map_sum NewError RespGet (MVCCGet E s (rKey req) ts opts)
         | Some (ReqScan req) \<Rightarrow>
             map_sum NewError scanResponse ((if Reverse req then MVCCReverseScan else MVCCScan) E s (rKey req)
               (rEndKey req) ts (sint (MaxRows req)) (opts\<lparr>TargetBytes := scanTargetBytes\<rparr>))
         | Some (ReqExport req) \<Rightarrow>
             map_sum NewError (\<lambda>res. RespExport
                 (map (\<lambda>rec. \<lparr>xrKey = erKey rec, xrValue = erValue rec, xrDeleted = erDeleted rec\<rparr>) (Records res))
                 (case erResume res of None \<Rightarrow> [] | Some k \<Rightarrow> k))
               (MVCCExport E s (rKey req) (rEndKey req) (expStartTS req) ts (sint (MaxRecords req)))
         | Some (ReqRefresh req) \<Rightarrow>
             (case bTxn (baHeader ba) of None \<Rightarrow> Inl (NewErrorf ''Refresh without a transaction'')
              | Some t \<Rightarrow>
                  map_sum NewError (\<lambda>_. RespRefresh) (MVCCCheckForWrites E s (rKey req)
                    (if rEndKey req = [] then Key_Next (rKey req) else rEndKey req) (FromTS req) ts (ID t)))
         | Some (ReqPushTxn req) \<Rightarrow>
             if \<not> QueryOnly req then Inl (NewErrorf ''non-query PushTxn in read-only batch'') else query_push E K req s
         | _ \<Rightarrow> Inl (NewErrorf ''non-read request in read-only batch: %T''))"

definition evalReadOnly ::
  "'s deps \<Rightarrow> kv_codec \<Rightarrow> 64 word \<Rightarrow> BatchRequest \<Rightarrow> 's \<Rightarrow> Error + BatchResponse" where
  "evalReadOnly E K offset ba s =
     res_bind (res_map (\<lambda>u. read_request E K offset ba (GetInner u) s) (Requests ba)) (\<lambda>rus.
       Inr (batch_response ba rus))"

section \<open>Size accounting\<close>

abbreviation (input) mvccVersionOverhead :: "64 word" where "mvccVersionOverhead \<equiv> 16"

definition request_size :: "Request \<Rightarrow> 64 word" where
  "request_size q =
     (case q of
        ReqPut req \<Rightarrow> of_nat (length (rKey req) + nlen (putValue req)) + mvccVersionOverhead
      | ReqDelete req \<Rightarrow> of_nat (length (rKey req)) + mvccVersionOverhead
      | ReqIncrement req \<Rightarrow> of_nat (length (rKey req)) + mvccVersionOverhead + 8
      | ReqGC req \<Rightarrow> - sum_list (map gvBytes (Versions req))
      | _ \<Rightarrow> 0)"

definition commandSizeDelta :: "BatchRequest \<Rightarrow> 64 word" where
  "commandSizeDelta ba =
     sum_list (map (\<lambda>u. case GetInner u of None \<Rightarrow> 0 | Some q \<Rightarrow> request_size q) (Requests ba))"

end
