(* ===== verification/Apply.thy ===== *)
theory Apply
  imports Eval
begin

text \<open>
  Applying committed Raft entries (\<^verbatim>\<open>applyEntry\<close>, \<^verbatim>\<open>applyCommand\<close> of
  \<^verbatim>\<open>src/pkg/kvserver/apply.go\<close>, the triggers of \<^verbatim>\<open>split.go\<close> and \<^verbatim>\<open>merge.go\<close>, the command
  format of \<^verbatim>\<open>raftcmd.go\<close>, \<^verbatim>\<open>newReplica\<close> of \<^verbatim>\<open>replica.go\<close>). A store is its two engines (one and
  the same when not split) and the replicas other than the one that applies. What comes from
  outside is an argument: the clock reading, the sequence numbers of the engine, whether the
  Raft group is stopped, the voters the Raft library computes for a membership change, and the
  state of the right-hand replica once the merge has waited for it. A failed commit of the
  engine batch ends the process in the source and has no counterpart here.
\<close>

section \<open>Commands\<close>

record splitTrigger =
  sLeft :: RangeDescriptor
  sRight :: RangeDescriptor
  sClosedTS :: timestamp

record mergeTrigger =
  mLeft :: RangeDescriptor
  mRight :: RangeDescriptor
  Merged :: RangeDescriptor
  RightAppliedIndex :: "64 word"
  RightSizeBytes :: "64 word"
  RightGCThreshold :: timestamp

record raftCommand =
  cmdID :: string
  cmdBatch :: BatchRequest
  cmdSplit :: "splitTrigger option"
  cmdMerge :: "mergeTrigger option"
  cmdClosedTS :: timestamp
  cmdLoad :: "(64 word \<times> 64 word) option"
  cmdChecksum :: "string option"

text \<open>The messages of \<^verbatim>\<open>rpcpb\<close>.\<close>

record pb_SplitTrigger =
  psLeft :: pb_RangeDescriptor
  psRight :: pb_RangeDescriptor
  psClosedTs :: "pb_Hlc option"

record pb_MergeTrigger =
  pmLeft :: pb_RangeDescriptor
  pmRight :: pb_RangeDescriptor
  pmMerged :: pb_RangeDescriptor
  pmRightAppliedIndex :: "64 word"
  pmRightSizeBytes :: "64 word"
  pmRightGcThreshold :: "pb_Hlc option"

record pb_RaftCommand =
  pcId :: string
  pcBatch :: pb_BatchRequest
  pcClosedTs :: "pb_Hlc option"
  pcLoadHandoff :: "(64 word \<times> 64 word) option"
  pcChecksum :: "string option"
  pcSplit :: "pb_SplitTrigger option"
  pcMerge :: "pb_MergeTrigger option"

datatype ConfChangeType = ConfChangeAddNode | ConfChangeRemoveNode | ConfChangeOther

record ConfChange =
  ccType :: ConfChangeType
  ccNodeID :: "64 word"
  ccContext :: bytes

record cmd_codec =
  protoCmd :: "pb_RaftCommand \<Rightarrow> io_error + bytes"
  unprotoCmd :: "bytes \<Rightarrow> io_error + pb_RaftCommand"
  unjsonCmd :: "bytes \<Rightarrow> io_error + raftCommand"
  unmarshalCC :: "bytes \<Rightarrow> io_error + ConfChange"
  unjsonContext :: "bytes \<Rightarrow> io_error + RangeDescriptor"

datatype cmd_error = CmdEmpty | CmdJson io_error | CmdFormat byte | CmdProto io_error | CmdBatch kv_proto_error

abbreviation (input) raftCommandVersionProto :: byte where "raftCommandVersionProto \<equiv> 1"

definition tsToProto :: "timestamp \<Rightarrow> pb_Hlc option" where
  "tsToProto t = (if IsEmpty t then None else Some \<lparr>pbWallTime = WallTime t, pbLogical = Logical t\<rparr>)"

definition tsFromProto :: "pb_Hlc option \<Rightarrow> timestamp" where
  "tsFromProto p = (case p of None \<Rightarrow> zero_ts | Some h \<Rightarrow> Timestamp (pbWallTime h) (pbLogical h))"

definition encodeRaftCommand :: "kv_codec \<Rightarrow> cmd_codec \<Rightarrow> raftCommand \<Rightarrow> cmd_error + bytes" where
  "encodeRaftCommand K C cmd =
     (case BatchRequestToProto K (cmdBatch cmd) of Inl e \<Rightarrow> Inl (CmdBatch e)
      | Inr b \<Rightarrow>
          let pb = \<lparr>pcId = cmdID cmd, pcBatch = b, pcClosedTs = tsToProto (cmdClosedTS cmd),
                pcLoadHandoff = cmdLoad cmd, pcChecksum = cmdChecksum cmd,
                pcSplit = map_option (\<lambda>t. \<lparr>psLeft = RangeDescriptorToProto (sLeft t),
                  psRight = RangeDescriptorToProto (sRight t), psClosedTs = tsToProto (sClosedTS t)\<rparr>) (cmdSplit cmd),
                pcMerge = map_option (\<lambda>t. \<lparr>pmLeft = RangeDescriptorToProto (mLeft t),
                  pmRight = RangeDescriptorToProto (mRight t), pmMerged = RangeDescriptorToProto (Merged t),
                  pmRightAppliedIndex = RightAppliedIndex t, pmRightSizeBytes = RightSizeBytes t,
                  pmRightGcThreshold = tsToProto (RightGCThreshold t)\<rparr>) (cmdMerge cmd)\<rparr>
          in case protoCmd C pb of Inl e \<Rightarrow> Inl (CmdProto e) | Inr raw \<Rightarrow> Inr (raftCommandVersionProto # raw))"

definition decodeRaftCommand :: "kv_codec \<Rightarrow> cmd_codec \<Rightarrow> bytes \<Rightarrow> cmd_error + raftCommand" where
  "decodeRaftCommand K C data =
     (case data of [] \<Rightarrow> Inl CmdEmpty
      | b # rest \<Rightarrow>
          if b = open_brace then (case unjsonCmd C data of Inl e \<Rightarrow> Inl (CmdJson e) | Inr cmd \<Rightarrow> Inr cmd)
          else if b \<noteq> raftCommandVersionProto then Inl (CmdFormat b)
          else case unprotoCmd C rest of Inl e \<Rightarrow> Inl (CmdProto e)
               | Inr pb \<Rightarrow>
                   (case BatchRequestFromProto K (pcBatch pb) of Inl e \<Rightarrow> Inl (CmdBatch e)
                    | Inr batch \<Rightarrow> Inr
                        \<lparr>cmdID = pcId pb, cmdBatch = batch,
                         cmdSplit = map_option (\<lambda>t. \<lparr>sLeft = RangeDescriptorFromProto (Some (psLeft t)),
                           sRight = RangeDescriptorFromProto (Some (psRight t)), sClosedTS = tsFromProto (psClosedTs t)\<rparr>) (pcSplit pb),
                         cmdMerge = map_option (\<lambda>t. \<lparr>mLeft = RangeDescriptorFromProto (Some (pmLeft t)),
                           mRight = RangeDescriptorFromProto (Some (pmRight t)), Merged = RangeDescriptorFromProto (Some (pmMerged t)),
                           RightAppliedIndex = pmRightAppliedIndex t, RightSizeBytes = pmRightSizeBytes t,
                           RightGCThreshold = tsFromProto (pmRightGcThreshold t)\<rparr>) (pcMerge pb),
                         cmdClosedTS = tsFromProto (pcClosedTs pb), cmdLoad = pcLoadHandoff pb,
                         cmdChecksum = pcChecksum pb\<rparr>))"

section \<open>Stores and replicas\<close>

record 's Store =
  st_eng :: 's
  st_raft :: 's
  st_split :: bool
  st_nodeID :: NodeID
  st_replicas :: "(RangeID \<times> Replica) list"

text \<open>The engine that holds the Raft state.\<close>

definition raftEngine :: "'s Store \<Rightarrow> 's" where
  "raftEngine st = (if st_split st then st_raft st else st_eng st)"

definition set_raftEngine :: "'s \<Rightarrow> 's Store \<Rightarrow> 's Store" where
  "set_raftEngine s st = (if st_split st then st\<lparr>st_raft := s\<rparr> else st\<lparr>st_eng := s\<rparr>)"

record apply_env =
  ae_now :: timestamp
  ae_seq :: "64 word"
  ae_flushed :: "64 word"
  ae_stopped :: bool

definition newReplica ::
  "'s deps \<Rightarrow> raft_codec \<Rightarrow> RangeDescriptor \<Rightarrow> 's Store \<Rightarrow> raft_error + Replica" where
  "newReplica E RC desc st =
     res_bind (newRaftStorage E RC (st_split st) (raftEngine st) (st_eng st) (dRangeID desc) desc) (\<lambda>rs.
     res_bind (loadReplicaStateFrom E RC (dRangeID desc) (st_eng st)) (\<lambda>rst.
       Inr \<lparr>r_rangeID = dRangeID desc, r_desc = desc, r_appliedIndex = AppliedIndex rst, r_appliedTerm = 0,
         r_gcThreshold = GCThreshold rst, r_sizeBytes = SizeBytes rst, r_frozen = Frozen rst,
         r_mergedInto = MergedInto rst, r_closedTS = ClosedTS rst, r_rs = rs_setApplied (AppliedIndex rst) rs,
         r_deferred = \<lparr>applySeqs = [], durableApplied = 0, pendingTrunc = \<lparr>tsIndex = 0, tsTerm = 0\<rparr>\<rparr>,
         r_tsCache = (if IsEmpty (ClosedTS rst) then empty_cache else Bump [wholeRangeSpan] (ClosedTS rst) uuid_nil empty_cache),
         r_loadHandoff = None, r_confChangeRefusals = 0\<rparr>))"

definition addReplica ::
  "'s deps \<Rightarrow> raft_codec \<Rightarrow> RangeDescriptor \<Rightarrow> 's Store \<Rightarrow> raft_error + Replica \<times> 's Store" where
  "addReplica E RC desc st =
     (case map_of (st_replicas st) (dRangeID desc) of
        Some existing \<Rightarrow> Inr (existing, st)
      | None \<Rightarrow> res_bind (newReplica E RC desc st) (\<lambda>r.
          Inr (r, st\<lparr>st_replicas := AList.update (dRangeID desc) r (st_replicas st)\<rparr>)))"

definition detachReplica :: "RangeID \<Rightarrow> 's Store \<Rightarrow> 's Store" where
  "detachReplica rid st = st\<lparr>st_replicas := AList.delete rid (st_replicas st)\<rparr>"

definition setApplied :: "64 word \<Rightarrow> Replica \<Rightarrow> Replica" where
  "setApplied idx r = r\<lparr>r_rs := rs_setApplied idx (r_rs r), r_appliedIndex := idx\<rparr>"

definition noteAppliedTerm :: "64 word \<Rightarrow> Replica \<Rightarrow> Replica" where
  "noteAppliedTerm term r = (if term > r_appliedTerm r then r\<lparr>r_appliedTerm := term\<rparr> else r)"

section \<open>The applied state\<close>

definition state_of :: "64 word \<Rightarrow> Replica \<Rightarrow> replicaState" where
  "state_of idx r =
     \<lparr>AppliedIndex = idx, TruncatedIndex = tsIndex (rsTrunc (r_rs r)), TruncatedTerm = tsTerm (rsTrunc (r_rs r)),
      GCThreshold = r_gcThreshold r, SizeBytes = r_sizeBytes r, Frozen = r_frozen r, MergedInto = r_mergedInto r,
      ClosedTS = r_closedTS r\<rparr>"

definition stageAppliedIndex ::
  "'s deps \<Rightarrow> raft_codec \<Rightarrow> 64 word \<Rightarrow> Replica \<Rightarrow> 's \<Rightarrow> raft_error + 's" where
  "stageAppliedIndex E RC idx r s = putReplicaState E RC (r_rangeID r) (state_of idx r) s"

definition persistAppliedIndex ::
  "'s deps \<Rightarrow> raft_codec \<Rightarrow> apply_env \<Rightarrow> 64 word \<Rightarrow> Replica \<Rightarrow> 's Store \<Rightarrow> raft_error + Replica \<times> 's Store" where
  "persistAppliedIndex E RC env idx r st =
     res_bind (stageAppliedIndex E RC idx r (st_eng st)) (\<lambda>s.
       Inr (r\<lparr>r_deferred := noteAppliedSeq (st_split st) idx (ae_seq env) (r_deferred r)\<rparr>, st\<lparr>st_eng := s\<rparr>))"

section \<open>Splits and merges\<close>

definition staleDescriptorChange :: "64 word \<Rightarrow> 64 word \<Rightarrow> bool" where
  "staleDescriptorChange current produced \<longleftrightarrow> produced \<noteq> current + 1"

definition spanSizeBytes :: "'s deps \<Rightarrow> 's \<Rightarrow> key \<Rightarrow> key \<Rightarrow> raft_error + 64 word" where
  "spanSizeBytes E s start end' =
     (let lower = EncodeMVCCKey start zero_ts; upper = EncodeMVCCKey end' zero_ts
      in res_bind (it_close E s lower upper) (\<lambda>_.
           Inr (sum_list (map (\<lambda>(k, v). of_nat (length k + length v)) (iter_rest (SeekGE lower (NewIter E s lower upper)))))))"

datatype trigger_error = Refused | Aborted | Fatal | TRaft raft_error

definition t_raft :: "raft_error + 'a \<Rightarrow> trigger_error + 'a" where
  "t_raft r = map_sum TRaft id r"

text \<open>The error a refused trigger is reported with.\<close>

definition split_Error :: "trigger_error \<Rightarrow> Error" where
  "split_Error e = NewErrorf (case e of
     Refused \<Rightarrow> ''%s: split against generation %d but range is at %d; the range changed under it, retry against the current descriptor''
   | _ \<Rightarrow> ''storage'')"

definition merge_Error :: "trigger_error \<Rightarrow> Error" where
  "merge_Error e = NewErrorf (case e of
     Refused \<Rightarrow> ''%s: merge against generation %d but range is at %d; retried by housekeeping'' | _ \<Rightarrow> ''storage'')"

definition stageSplit ::
  "'s deps \<Rightarrow> raft_codec \<Rightarrow> kv_codec \<Rightarrow> splitTrigger \<Rightarrow> Replica \<Rightarrow> 's \<Rightarrow> Replica \<times> (trigger_error + 's)" where
  "stageSplit E RC K trig r s =
     (if staleDescriptorChange (Generation (r_desc r)) (Generation (sLeft trig)) then (r, Inl Refused)
      else case res_bind (t_raft (PutRangeDescriptor E K (sLeft trig) s)) (\<lambda>s.
                res_bind (t_raft (PutRangeDescriptor E K (sRight trig) s)) (\<lambda>s.
                res_bind (t_raft (spanSizeBytes E s (StartKey (sLeft trig)) (EndKey (sLeft trig)))) (\<lambda>leftSize.
                res_bind (t_raft (spanSizeBytes E s (StartKey (sRight trig)) (EndKey (sRight trig)))) (\<lambda>rightSize.
                  Inr (leftSize, rightSize, s))))) of
             Inl e \<Rightarrow> (r, Inl e)
           | Inr (leftSize, rightSize, s) \<Rightarrow>
               (r\<lparr>r_sizeBytes := leftSize\<rparr>,
                t_raft (putReplicaState E RC (dRangeID (sRight trig))
                  (zero_state\<lparr>GCThreshold := r_gcThreshold r, SizeBytes := rightSize, ClosedTS := sClosedTS trig\<rparr>) s)))"

definition finishSplit ::
  "'s deps \<Rightarrow> raft_codec \<Rightarrow> apply_env \<Rightarrow> splitTrigger \<Rightarrow> Replica \<Rightarrow> 's Store \<Rightarrow> Replica \<times> 's Store" where
  "finishSplit E RC env trig r st =
     (let r = r\<lparr>r_desc := sLeft trig, r_rs := setConfState (sLeft trig) (r_rs r)\<rparr>
      in case GetReplica (sRight trig) (st_nodeID st) of None \<Rightarrow> (r, st)
         | Some rep \<Rightarrow>
             (case addReplica E RC (sRight trig) st of Inl _ \<Rightarrow> (r, st)
              | Inr (rhs, st) \<Rightarrow>
                  (r, st\<lparr>st_replicas := AList.update (dRangeID (sRight trig))
                    (rhs\<lparr>r_tsCache := Bump [wholeRangeSpan] (ae_now env) uuid_nil (r_tsCache rhs)\<rparr>) (st_replicas st)\<rparr>)))"

text \<open>
  \<open>rhs\<close> is the local right-hand replica when the wait for its applied index is over: it reached
  the subsume, or it never will (the node shuts down or its Raft loop died).
\<close>

definition stageMerge ::
  "'s deps \<Rightarrow> kv_codec \<Rightarrow> mergeTrigger \<Rightarrow> Replica option \<Rightarrow> Replica \<Rightarrow> 's \<Rightarrow> 's Store \<Rightarrow>
   Replica \<times> 's Store \<times> (trigger_error + 's)" where
  "stageMerge E K trig rhs r s st =
     (if Generation (r_desc r) \<noteq> Generation (mLeft trig) then (r, st, Inl Refused)
      else case rhs of None \<Rightarrow> (r, st, Inl Fatal)
      | Some rhs \<Rightarrow>
          if r_appliedIndex rhs < RightAppliedIndex trig then (r, st, Inl Aborted)
          else if Generation (r_desc rhs) \<noteq> Generation (mRight trig) \<or> EndKey (r_desc rhs) \<noteq> EndKey (Merged trig)
          then (r, st, Inl Refused)
          else let st = detachReplica (dRangeID (mRight trig)) st; pre = RangeUnreplicatedPrefix (dRangeID (mRight trig))
               in case res_bind (t_raft (PutRangeDescriptor E K (Merged trig) s)) (\<lambda>s.
                       res_bind (t_raft (r_io (Batch_DeleteRange E pre (PrefixEnd pre) s))) (\<lambda>s.
                         t_raft (r_io (Batch_Put E (RangeTombstoneKey (dRangeID (mRight trig))) (str ''merged'') s)))) of
                    Inl e \<Rightarrow> (r, st, Inl e)
                  | Inr s \<Rightarrow>
                      (r\<lparr>r_sizeBytes := r_sizeBytes r + RightSizeBytes trig,
                         r_gcThreshold := Forward (r_gcThreshold r) (RightGCThreshold trig)\<rparr>, st, Inr s))"

definition finishMerge :: "apply_env \<Rightarrow> mergeTrigger \<Rightarrow> Replica \<Rightarrow> Replica" where
  "finishMerge env trig r =
     r\<lparr>r_desc := Merged trig, r_rs := setConfState (Merged trig) (r_rs r),
       r_tsCache := Bump [\<lparr>Start = StartKey (mRight trig), End = Some (EndKey (mRight trig))\<rparr>] (ae_now env) uuid_nil (r_tsCache r)\<rparr>"

section \<open>Applying a command\<close>

text \<open>What a command that evaluated without error changes in memory.\<close>

definition command_effects :: "raftCommand \<Rightarrow> Replica \<Rightarrow> Replica" where
  "command_effects cmd r =
     (let newThr = foldl (\<lambda>t u. case uGC u of None \<Rightarrow> t | Some gc \<Rightarrow> Forward t (Threshold gc)) zero_ts (Requests (cmdBatch cmd));
          r = (if \<not> IsEmpty newThr \<and> Less (r_gcThreshold r) newThr then r\<lparr>r_gcThreshold := newThr\<rparr> else r);
          r = (if \<not> IsEmpty (cmdClosedTS cmd) \<and> Less (r_closedTS r) (cmdClosedTS cmd) then r\<lparr>r_closedTS := cmdClosedTS cmd\<rparr> else r);
          delta = commandSizeDelta (cmdBatch cmd); size' = r_sizeBytes r + delta
      in if delta \<noteq> 0 then r\<lparr>r_sizeBytes := if sint size' < 0 then 0 else size'\<rparr> else r)"

text \<open>The batch to commit after evaluation and triggers; an error leaves an empty batch.\<close>

definition eval_command ::
  "'s deps \<Rightarrow> raft_codec \<Rightarrow> kv_codec \<Rightarrow> raftCommand \<Rightarrow> Replica option \<Rightarrow> Replica \<Rightarrow> 's Store \<Rightarrow>
   Replica \<times> 's Store \<times> 's \<times> (trigger_error + (Error + BatchResponse))" where
  "eval_command E RC K cmd rhs r st =
     (case evalWriteBatch E K r (cmdBatch cmd) (st_eng st) of
        (r, _, Inl e) \<Rightarrow> (r, st, st_eng st, Inr (Inl e))
      | (r, s, Inr resp) \<Rightarrow>
          let r = command_effects cmd r
          in case (case cmdSplit cmd of None \<Rightarrow> (r, Inr s) | Some trig \<Rightarrow> stageSplit E RC K trig r s) of
               (r, Inl e) \<Rightarrow> (r, st, st_eng st, Inr (Inl (split_Error e)))
             | (r, Inr s) \<Rightarrow>
                 (case (case cmdMerge cmd of None \<Rightarrow> (r, st, Inr s) | Some trig \<Rightarrow> stageMerge E K trig rhs r s st) of
                    (r, st, Inl e) \<Rightarrow>
                      (r, st, st_eng st, if e = Aborted \<or> e = Fatal then Inl e
                        else Inr (Inl (merge_Error e)))
                  | (r, st, Inr s) \<Rightarrow> (r, st, s, Inr (Inr resp))))"

definition after_split ::
  "'s deps \<Rightarrow> raft_codec \<Rightarrow> apply_env \<Rightarrow> raftCommand \<Rightarrow> bool \<Rightarrow> Replica \<Rightarrow> 's Store \<Rightarrow> Replica \<times> 's Store" where
  "after_split E RC env cmd ok r st =
     (case cmdSplit cmd of None \<Rightarrow> (r, st) | Some trig \<Rightarrow> if ok then finishSplit E RC env trig r st else (r, st))"

definition after_merge ::
  "'s deps \<Rightarrow> apply_env \<Rightarrow> raftCommand \<Rightarrow> bool \<Rightarrow> Replica \<Rightarrow> 's Store \<Rightarrow> Replica \<times> 's Store" where
  "after_merge E env cmd ok r st =
     (case cmdMerge cmd of None \<Rightarrow> (r, st)
      | Some trig \<Rightarrow>
          if ok then (finishMerge env trig r,
            case wipeRaftState E (st_split st) (dRangeID (mRight trig)) (raftEngine st) of
              Inl _ \<Rightarrow> st | Inr s \<Rightarrow> set_raftEngine s st)
          else (r, st))"

definition after_truncate ::
  "'s deps \<Rightarrow> raft_codec \<Rightarrow> apply_env \<Rightarrow> Replica \<Rightarrow> 's Store \<Rightarrow> Replica \<times> 's Store" where
  "after_truncate E RC env r st =
     (case maybeTruncateDeferredLocked E RC (r_appliedIndex r) (ae_flushed env) (ae_stopped env) (r_rs r) (r_deferred r)
             (raftEngine st) of
        (d, rs, res) \<Rightarrow> (r\<lparr>r_deferred := d, r_rs := rs\<rparr>, case res of Inl _ \<Rightarrow> st | Inr s \<Rightarrow> set_raftEngine s st))"

definition after_commit ::
  "'s deps \<Rightarrow> raft_codec \<Rightarrow> apply_env \<Rightarrow> raftCommand \<Rightarrow> bool \<Rightarrow> Replica \<Rightarrow> 's Store \<Rightarrow> Replica \<times> 's Store" where
  "after_commit E RC env cmd ok r st =
     (let (r, st) = after_split E RC env cmd ok r st;
          (r, st) = after_merge E env cmd ok r st;
          (r, st) = after_truncate E RC env r st
      in (case cmdLoad cmd of None \<Rightarrow> r | Some l \<Rightarrow> r\<lparr>r_loadHandoff := Some l\<rparr>, st))"

definition applyCommand ::
  "'s deps \<Rightarrow> raft_codec \<Rightarrow> kv_codec \<Rightarrow> apply_env \<Rightarrow> raftCommand \<Rightarrow> Replica option \<Rightarrow> 64 word \<Rightarrow> Replica \<Rightarrow> 's Store \<Rightarrow>
   Replica \<times> 's Store \<times> (trigger_error + (Error + BatchResponse))" where
  "applyCommand E RC K env cmd rhs idx r st =
     (case eval_command E RC K cmd rhs r st of
        (r, st, s, Inl e) \<Rightarrow> (r, st, Inl e)
      | (r, st, s, Inr res) \<Rightarrow>
          (case stageAppliedIndex E RC idx r s of
             Inl _ \<Rightarrow> (r, st, Inr (Inl (NewErrorf ''storage'')))
           | Inr s \<Rightarrow>
               let st = st\<lparr>st_eng := s\<rparr>;
                   r = setApplied idx (r\<lparr>r_deferred := noteAppliedSeq (st_split st) idx (ae_seq env) (r_deferred r)\<rparr>);
                   (r, st) = after_commit E RC env cmd (case res of Inl _ \<Rightarrow> False | Inr _ \<Rightarrow> True) r st
               in (r, st, Inr res)))"

section \<open>Applying an entry\<close>

datatype apply_error = AStore raft_error | ATrigger trigger_error | ACorruptConfChange | ACorruptCommand cmd_error
  | ARaftStopped | AReplicaRemoved | AUnhandledType

definition sameReplicas :: "ReplicaDescriptor list \<Rightarrow> ReplicaDescriptor list \<Rightarrow> bool" where
  "sameReplicas a b \<longleftrightarrow> length a = length b \<and> list_all (\<lambda>x. list_ex (\<lambda>y. x = y) b) a"

definition sameDescriptor :: "RangeDescriptor \<Rightarrow> RangeDescriptor \<Rightarrow> bool" where
  "sameDescriptor a b \<longleftrightarrow> dRangeID a = dRangeID b \<and> Generation a = Generation b \<and> StartKey a = StartKey b \<and>
     EndKey a = EndKey b \<and> sameReplicas (Replicas a) (Replicas b)"

text \<open>\<open>voters\<close> is what the Raft library answers to \<^verbatim>\<open>ApplyConfChange\<close>.\<close>

definition adopt_conf_change ::
  "'s deps \<Rightarrow> raft_codec \<Rightarrow> kv_codec \<Rightarrow> apply_env \<Rightarrow> 64 word list \<Rightarrow> ConfChange \<Rightarrow> RangeDescriptor option \<Rightarrow> Entry \<Rightarrow>
   Replica \<Rightarrow> 's Store \<Rightarrow> Replica \<times> 's Store \<times> apply_error option" where
  "adopt_conf_change E RC K env voters cc newDesc ent r st =
     (if ae_stopped env then (r, st, Some ARaftStopped)
      else let r = r\<lparr>r_rs := setConfStateRaw voters (r_rs r)\<rparr>
           in case res_bind (case newDesc of None \<Rightarrow> Inr (st_eng st) | Some d \<Rightarrow> PutRangeDescriptor E K d (st_eng st))
                     (stageAppliedIndex E RC (eIndex ent) r) of
                Inl e \<Rightarrow> (r, st, Some (AStore e))
              | Inr s \<Rightarrow>
                  let st = st\<lparr>st_eng := s\<rparr>; r = (case newDesc of None \<Rightarrow> r | Some d \<Rightarrow> r\<lparr>r_desc := d\<rparr>);
                      r = noteAppliedTerm (eTerm ent) (setApplied (eIndex ent) r)
                  in (r, st, case newDesc of None \<Rightarrow> None
                       | Some d \<Rightarrow> if ccType cc = ConfChangeRemoveNode \<and> GetReplica d (st_nodeID st) = None
                                   then Some AReplicaRemoved else None))"

definition apply_noop ::
  "'s deps \<Rightarrow> raft_codec \<Rightarrow> apply_env \<Rightarrow> Entry \<Rightarrow> Replica \<Rightarrow> 's Store \<Rightarrow> Replica \<times> 's Store \<times> apply_error option" where
  "apply_noop E RC env ent r st =
     (case persistAppliedIndex E RC env (eIndex ent) r st of Inl e \<Rightarrow> (r, st, Some (AStore e))
      | Inr (r, st) \<Rightarrow> (noteAppliedTerm (eTerm ent) (setApplied (eIndex ent) r), st, None))"

definition apply_conf_change ::
  "'s deps \<Rightarrow> raft_codec \<Rightarrow> kv_codec \<Rightarrow> cmd_codec \<Rightarrow> apply_env \<Rightarrow> 64 word list \<Rightarrow> Entry \<Rightarrow> Replica \<Rightarrow> 's Store \<Rightarrow>
   Replica \<times> 's Store \<times> apply_error option" where
  "apply_conf_change E RC K C env voters ent r st =
     (case unmarshalCC C (eData ent) of Inl _ \<Rightarrow> (r, st, Some ACorruptConfChange)
      | Inr cc \<Rightarrow>
          if ccContext cc = [] then adopt_conf_change E RC K env voters cc None ent r st
          else case unjsonContext C (ccContext cc) of Inl _ \<Rightarrow> (r, st, Some ACorruptConfChange)
               | Inr d \<Rightarrow>
                   if staleDescriptorChange (Generation (r_desc r)) (Generation d) \<and> \<not> sameDescriptor (r_desc r) d
                   then (case persistAppliedIndex E RC env (eIndex ent) r st of Inl e \<Rightarrow> (r, st, Some (AStore e))
                         | Inr (r, st) \<Rightarrow>
                             (noteAppliedTerm (eTerm ent) (setApplied (eIndex ent)
                               (r\<lparr>r_confChangeRefusals := r_confChangeRefusals r + 1\<rparr>)), st, None))
                   else adopt_conf_change E RC K env voters cc (Some d) ent r st)"

text \<open>The result carries the outcome for a local waiter, with the command's id.\<close>

definition applyEntry ::
  "'s deps \<Rightarrow> raft_codec \<Rightarrow> kv_codec \<Rightarrow> cmd_codec \<Rightarrow> apply_env \<Rightarrow> 64 word list \<Rightarrow> Replica option \<Rightarrow> Entry \<Rightarrow> Replica \<Rightarrow> 's Store \<Rightarrow>
   Replica \<times> 's Store \<times> apply_error option \<times> (string \<times> (Error + BatchResponse)) option" where
  "applyEntry E RC K C env voters rhs ent r st =
     (if eIndex ent \<le> r_appliedIndex r then (r, st, None, None)
      else case eType ent of
             EntryConfChange \<Rightarrow> (let (r, st, e) = apply_conf_change E RC K C env voters ent r st in (r, st, e, None))
           | EntryNormal \<Rightarrow>
               if eData ent = [] then (let (r, st, e) = apply_noop E RC env ent r st in (r, st, e, None))
               else (case decodeRaftCommand K C (eData ent) of Inl e \<Rightarrow> (r, st, Some (ACorruptCommand e), None)
                     | Inr cmd \<Rightarrow>
                         (case applyCommand E RC K env cmd rhs (eIndex ent) r st of
                            (r, st, Inl e) \<Rightarrow> (r, st, Some (ATrigger e), None)
                          | (r, st, Inr res) \<Rightarrow> (noteAppliedTerm (eTerm ent) r, st, None, Some (cmdID cmd, res))))
           | EntryOther \<Rightarrow> (r, st, Some AUnhandledType, None))"

end
