(* ===== verification/Crash.thy ===== *)
theory Crash
  imports Apply
begin

text \<open>
  Crash consistency of applying entries: what a restart reads from the engines is what the
  replica holds in memory, after every applied entry.
\<close>

section \<open>Keys\<close>

lemma unreplicated_span:
  "RangeUnreplicatedPrefix q \<le> k \<and> k < PrefixEnd (RangeUnreplicatedPrefix q) \<longleftrightarrow> prefix (RangeUnreplicatedPrefix q) k"
proof -
  have "\<exists>c \<in> set (RangeUnreplicatedPrefix q). c \<noteq> 0xFF"
    by (simp add: RangeUnreplicatedPrefix_def makeRangeLocalKey_app localUnreplicatedPrefix_def)
  then show ?thesis using PrefixEnd_span [of "RangeUnreplicatedPrefix q" k] by (simp add: in_span_def)
qed

lemma range_local_prefix: "prefix (RangeUnreplicatedPrefix q) (makeRangeLocalKey r sfx) \<longleftrightarrow> q = r"
proof -
  have "prefix (EncodeUint64 [] q) (EncodeUint64 [] r @ str sfx) \<longleftrightarrow> q = r"
    by (auto simp: prefix_def u64.prefix_free)
  then show ?thesis
    by (simp add: RangeUnreplicatedPrefix_def makeRangeLocalKey_app str_def)
qed

lemma log_prefix_span:
  "RaftLogPrefix q \<le> k \<and> k < PrefixEnd (RaftLogPrefix q) \<longleftrightarrow> prefix (RaftLogPrefix q) k"
proof -
  have "\<exists>c \<in> set (RaftLogPrefix q). c \<noteq> 0xFF"
    by (simp add: RaftLogPrefix_def makeRangeLocalKey_app localUnreplicatedPrefix_def)
  then show ?thesis using PrefixEnd_span [of "RaftLogPrefix q" k] by (simp add: in_span_def)
qed

section \<open>Persisted state\<close>

lemma raft_codec_state:
  assumes "raft_codec_ok RC"
  obtains raw where "jsonState RC st = Inr raw" "raw \<noteq> []" "unjsonState RC raw = Inr st"
  using assms unfolding raft_codec_ok_def by blast

lemma raft_codec_trunc:
  assumes "raft_codec_ok RC"
  obtains raw where "jsonTrunc RC t = Inr raw" "raw \<noteq> []" "unjsonTrunc RC raw = Inr t"
  using assms unfolding raft_codec_ok_def by blast

lemma put_engine:
  assumes "healthy E c"
  obtains s' where "Batch_Put E k v s = Inr s'" "c s' = (c s)(k \<mapsto> v)"
  using healthyD(3) [OF assms, of k v s] that unfolding Batch_Put_def by blast

lemma Batch_Get_eq: "healthy E c \<Longrightarrow> Batch_Get E s k = Inr (case c s k of None \<Rightarrow> None | Some v \<Rightarrow> clone_nil v)"
  by (simp add: Batch_Get_def healthyD(1) split: option.splits)

lemma putReplicaState_ok:
  assumes "healthy E c" "raft_codec_ok RC"
  obtains s' where "putReplicaState E RC rid rst s = Inr s'" "loadReplicaStateFrom E RC rid s' = Inr rst"
    and "\<And>k. k \<noteq> RaftAppliedStateKey rid \<Longrightarrow> c s' k = c s k"
proof -
  obtain raw where raw: "jsonState RC rst = Inr raw" "raw \<noteq> []" "unjsonState RC raw = Inr rst"
    by (rule raft_codec_state [OF assms(2)])
  obtain s' where s': "Batch_Put E (RaftAppliedStateKey rid) raw s = Inr s'" "c s' = (c s)(RaftAppliedStateKey rid \<mapsto> raw)"
    by (rule put_engine [OF assms(1)])
  show thesis
  proof (rule that)
    show "putReplicaState E RC rid rst s = Inr s'" using raw s' by (simp add: putReplicaState_def r_io_def)
    show "loadReplicaStateFrom E RC rid s' = Inr rst"
      using raw s' by (simp add: loadReplicaStateFrom_def Batch_Get_eq [OF assms(1)] r_io_def r_corrupt_def clone_nil_def)
    show "c s' k = c s k" if "k \<noteq> RaftAppliedStateKey rid" for k using s' that by simp
  qed
qed

lemma putTruncatedState_ok:
  assumes "healthy E c" "raft_codec_ok RC"
  obtains s' raw where "putTruncatedState E RC rid t s = Inr s'" "c s' = (c s)(RaftTruncatedStateKey rid \<mapsto> raw)"
    "Batch_Get E s' (RaftTruncatedStateKey rid) = Inr (Some raw)" "unjsonTrunc RC raw = Inr t"
proof -
  obtain raw where raw: "jsonTrunc RC t = Inr raw" "raw \<noteq> []" "unjsonTrunc RC raw = Inr t"
    by (rule raft_codec_trunc [OF assms(2)])
  obtain s' where s': "Batch_Put E (RaftTruncatedStateKey rid) raw s = Inr s'" "c s' = (c s)(RaftTruncatedStateKey rid \<mapsto> raw)"
    by (rule put_engine [OF assms(1)])
  show thesis
    using that [of s' raw] raw s' by (simp add: putTruncatedState_def r_io_def Batch_Get_eq [OF assms(1)] clone_nil_def)
qed

section \<open>The invariant\<close>

definition forget :: "replicaState \<Rightarrow> replicaState" where
  "forget rst = rst\<lparr>TruncatedIndex := 0, TruncatedTerm := 0\<rparr>"

definition replicated :: "Replica \<Rightarrow> replicaState" where
  "replicated r = forget (state_of (r_appliedIndex r) r)"

definition wired :: "Replica \<Rightarrow> 's Store \<Rightarrow> bool" where
  "wired r st \<longleftrightarrow> rsSplit (r_rs r) = st_split st \<and> rsRangeID (r_rs r) = r_rangeID r \<and>
     (\<not> st_split st \<longrightarrow> tsIndex (pendingTrunc (r_deferred r)) = 0)"

definition load_trunc :: "'s deps \<Rightarrow> raft_codec \<Rightarrow> Replica \<Rightarrow> 's Store \<Rightarrow> raft_error + truncatedState" where
  "load_trunc E RC r st = loadTruncatedState E RC (st_split st) (r_rangeID r) (raftEngine st) (st_eng st)"

definition consistent :: "'s deps \<Rightarrow> raft_codec \<Rightarrow> Replica \<Rightarrow> 's Store \<Rightarrow> bool" where
  "consistent E RC r st \<longleftrightarrow>
     (\<exists>rst. loadReplicaStateFrom E RC (r_rangeID r) (st_eng st) = Inr rst \<and> forget rst = replicated r) \<and>
     load_trunc E RC r st = Inr (rsTrunc (r_rs r)) \<and> wired r st"

text \<open>What evaluating a command may change in memory.\<close>

definition mem_frame :: "Replica \<Rightarrow> Replica \<Rightarrow> bool" where
  "mem_frame r r' \<longleftrightarrow>
     r_rangeID r' = r_rangeID r \<and> rsSplit (r_rs r') = rsSplit (r_rs r) \<and> rsRangeID (r_rs r') = rsRangeID (r_rs r) \<and>
     (if rsSplit (r_rs r) then rsTrunc (r_rs r') = rsTrunc (r_rs r)
      else tsIndex (pendingTrunc (r_deferred r')) = tsIndex (pendingTrunc (r_deferred r)))"

lemma mem_frame_refl [simp]: "mem_frame r r"
  by (simp add: mem_frame_def)

lemma mem_frame_trans: "mem_frame r r' \<Longrightarrow> mem_frame r' r'' \<Longrightarrow> mem_frame r r''"
  by (auto simp: mem_frame_def split: if_splits)

lemma mem_frame_wired: "mem_frame r r' \<Longrightarrow> wired r st \<Longrightarrow> wired r' st"
  by (auto simp: mem_frame_def wired_def)

lemma stageTruncate_frame:
  "stageTruncate E i t rs s = Inr (rs', s') \<Longrightarrow> rsSplit rs' = rsSplit rs \<and> rsRangeID rs' = rsRangeID rs"
  by (auto simp: stageTruncate_def res_bind_def split: if_splits sum.splits)

lemma eval_truncate_frame: "mem_frame r (fst (eval_truncate E req r s ics))"
  by (auto simp: eval_truncate_def mem_frame_def dest: stageTruncate_frame split: sum.splits)

lemma eval_request_frame: "mem_frame r (fst (eval_request E K ba q r s ics))"
  by (cases q) (simp_all add: eval_request_def Let_def eval_truncate_frame, simp_all add: mem_frame_def)

lemma eval_requests_frame: "mem_frame r (fst (eval_requests E K ba us r s ics rus))"
proof (induction us arbitrary: r s ics rus)
  case Nil
  then show ?case by simp
next
  case (Cons u us)
  show ?case
  proof (cases "GetInner u")
    case None
    then show ?thesis by simp
  next
    case (Some q)
    obtain r' o' s' ics' where e: "eval_request E K ba q r s ics = (r', o', s', ics')" by (cases "eval_request E K ba q r s ics")
    then have "mem_frame r r'" using eval_request_frame [of r E K ba q s ics] by simp
    then show ?thesis using Some e mem_frame_trans [OF _ Cons.IH] by (cases o') simp_all
  qed
qed

lemma evalWriteBatch_frame: "mem_frame r (fst (evalWriteBatch E K r ba s))"
  using eval_requests_frame
  by (auto simp: evalWriteBatch_def Let_def case_prod_beta split: sum.splits)

lemma command_effects_frame: "mem_frame r (command_effects cmd r)"
  by (simp add: command_effects_def mem_frame_def Let_def)

lemma stageSplit_frame: "mem_frame r (fst (stageSplit E RC K trig r s))"
  by (simp add: stageSplit_def mem_frame_def split: sum.splits)

lemma stageMerge_frame: "mem_frame r (fst (stageMerge E K trig rhs r s st))"
  by (simp add: stageMerge_def mem_frame_def Let_def split: sum.splits option.splits)

section \<open>Committing\<close>

lemma raftEngine_upd [simp]:
  "raftEngine (st\<lparr>st_eng := s\<rparr>) = (if st_split st then st_raft st else s)"
  "st_split st \<Longrightarrow> raftEngine st = st_raft st" "\<not> st_split st \<Longrightarrow> raftEngine st = st_eng st"
  by (simp_all add: raftEngine_def)

text \<open>Staging the applied state of \<open>r\<close> makes the new contents consistent with it.\<close>

lemma commit_consistent:
  assumes env: "healthy E c" "raft_codec_ok RC" and old: "consistent E RC r0 st" and fr: "mem_frame r0 r"
    and stg: "stageAppliedIndex E RC idx r s = Inr s'"
  shows "consistent E RC (r\<lparr>r_appliedIndex := idx\<rparr>) (st\<lparr>st_eng := s'\<rparr>)"
proof -
  have w: "wired r0 st" "load_trunc E RC r0 st = Inr (rsTrunc (r_rs r0))" using old by (simp_all add: consistent_def)
  have rid: "r_rangeID r = r_rangeID r0" using fr by (simp add: mem_frame_def)
  obtain s1 where s1: "putReplicaState E RC (r_rangeID r) (state_of idx r) s = Inr s1"
    "loadReplicaStateFrom E RC (r_rangeID r) s1 = Inr (state_of idx r)"
    by (rule putReplicaState_ok [OF env])
  then have load: "loadReplicaStateFrom E RC (r_rangeID r) s' = Inr (state_of idx r)"
    using stg by (simp add: stageAppliedIndex_def)
  moreover have "forget (state_of idx r) = replicated (r\<lparr>r_appliedIndex := idx\<rparr>)"
    by (simp add: replicated_def state_of_def forget_def)
  moreover have "load_trunc E RC (r\<lparr>r_appliedIndex := idx\<rparr>) (st\<lparr>st_eng := s'\<rparr>) = Inr (rsTrunc (r_rs r))"
  proof (cases "st_split st")
    case False
    then show ?thesis using load by (simp add: load_trunc_def loadTruncatedState_def Let_def state_of_def)
  next
    case True
    have tr: "rsTrunc (r_rs r) = rsTrunc (r_rs r0)" using fr w(1) True by (simp add: mem_frame_def wired_def)
    show ?thesis
      using w(2) True load tr rid
      by (simp add: load_trunc_def loadTruncatedState_def Let_def state_of_def Batch_Get_eq [OF env(1)] r_io_def
        split: option.splits)
  qed
  moreover have "wired (r\<lparr>r_appliedIndex := idx\<rparr>) (st\<lparr>st_eng := s'\<rparr>)"
    using mem_frame_wired [OF fr w(1)] by (simp add: wired_def)
  ultimately show ?thesis by (simp add: consistent_def)
qed

text \<open>Changes of memory that the invariant does not see.\<close>

definition same_durable :: "Replica \<Rightarrow> Replica \<Rightarrow> bool" where
  "same_durable r r' \<longleftrightarrow> r_rangeID r' = r_rangeID r \<and> replicated r' = replicated r \<and>
     rsTrunc (r_rs r') = rsTrunc (r_rs r) \<and> rsSplit (r_rs r') = rsSplit (r_rs r) \<and>
     rsRangeID (r_rs r') = rsRangeID (r_rs r) \<and>
     (\<not> rsSplit (r_rs r) \<longrightarrow> tsIndex (pendingTrunc (r_deferred r')) = tsIndex (pendingTrunc (r_deferred r)))"

lemma consistent_durable: "same_durable r r' \<Longrightarrow> consistent E RC r st \<Longrightarrow> consistent E RC r' st"
  by (auto simp: same_durable_def consistent_def wired_def load_trunc_def)

lemma same_durable_trans: "same_durable r r' \<Longrightarrow> same_durable r' r'' \<Longrightarrow> same_durable r r''"
  by (auto simp: same_durable_def)

lemma pending_noteAppliedSeq [simp]: "pendingTrunc (noteAppliedSeq b i q d) = pendingTrunc d"
  by (simp add: noteAppliedSeq_def Let_def)

lemma rs_setApplied_simps [simp]:
  "rsTrunc (rs_setApplied i rs) = rsTrunc rs" "rsSplit (rs_setApplied i rs) = rsSplit rs"
  "rsRangeID (rs_setApplied i rs) = rsRangeID rs"
  by (simp_all add: rs_setApplied_def)

lemma setConfState_simps [simp]:
  "rsTrunc (setConfStateRaw v rs) = rsTrunc rs" "rsSplit (setConfStateRaw v rs) = rsSplit rs"
  "rsRangeID (setConfStateRaw v rs) = rsRangeID rs"
  by (simp_all add: setConfStateRaw_def)

lemma same_durable_setApplied:
  "same_durable (r\<lparr>r_appliedIndex := idx\<rparr>) (setApplied idx (r\<lparr>r_deferred := noteAppliedSeq b idx q (r_deferred r)\<rparr>))"
  by (simp add: same_durable_def setApplied_def replicated_def state_of_def)

lemma same_durable_setApplied':
  "same_durable (r\<lparr>r_appliedIndex := idx\<rparr>) (setApplied idx r)"
  by (simp add: same_durable_def setApplied_def replicated_def state_of_def)

lemma same_durable_noteAppliedTerm: "same_durable r (noteAppliedTerm t r)"
  by (simp add: same_durable_def noteAppliedTerm_def replicated_def state_of_def)

lemma finishSplit_durable:
  "same_durable r (fst (finishSplit E RC env trig r st))"
  by (simp add: finishSplit_def same_durable_def replicated_def state_of_def Let_def setConfState_def
    split: option.splits sum.splits prod.splits)

lemma finishMerge_durable: "same_durable r (finishMerge env trig r)"
  by (simp add: finishMerge_def same_durable_def replicated_def state_of_def setConfState_def)

text \<open>Changes of the store that the invariant does not see.\<close>

definition same_disk :: "('s \<Rightarrow> contents) \<Rightarrow> RangeID \<Rightarrow> 's Store \<Rightarrow> 's Store \<Rightarrow> bool" where
  "same_disk c rid st st' \<longleftrightarrow> st_split st' = st_split st \<and> st_eng st' = st_eng st \<and>
     (st_split st \<longrightarrow> c (st_raft st') (RaftTruncatedStateKey rid) = c (st_raft st) (RaftTruncatedStateKey rid))"

lemma consistent_disk:
  assumes "healthy E c" "same_disk c (r_rangeID r) st st'" "consistent E RC r st"
  shows "consistent E RC r st'"
  using assms(2,3)
  by (auto simp: same_disk_def consistent_def wired_def load_trunc_def loadTruncatedState_def Let_def raftEngine_def
    Batch_Get_eq [OF assms(1)])

lemma finishSplit_disk: "same_disk c rid st (snd (finishSplit E RC env trig r st))"
  by (auto simp: finishSplit_def addReplica_def same_disk_def Let_def res_bind_def split: option.splits sum.splits)

lemma same_disk_trans: "same_disk c rid st st' \<Longrightarrow> same_disk c rid st' st'' \<Longrightarrow> same_disk c rid st st''"
  by (auto simp: same_disk_def)

lemma wipe_disk:
  assumes "healthy E c" "wipeRaftState E (st_split st) q (raftEngine st) = Inr s" "q \<noteq> rid"
  shows "same_disk c rid st (set_raftEngine s st)"
proof (cases "st_split st")
  case False
  then show ?thesis using assms(2) by (simp add: same_disk_def set_raftEngine_def wipeRaftState_def)
next
  case True
  then have "r_io (pDeleteRange E (RangeUnreplicatedPrefix q) (PrefixEnd (RangeUnreplicatedPrefix q)) (st_raft st)) = Inr s"
    using assms(2) by (simp add: wipeRaftState_def Let_def Batch_DeleteRange_def)
  then have "c s = (\<lambda>k. if RangeUnreplicatedPrefix q \<le> k \<and> k < PrefixEnd (RangeUnreplicatedPrefix q) then None else c (st_raft st) k)"
    using healthyD(5) [OF assms(1), of "RangeUnreplicatedPrefix q" "PrefixEnd (RangeUnreplicatedPrefix q)" "st_raft st"]
    by (auto simp: r_io_def)
  then have "c s (RaftTruncatedStateKey rid) = c (st_raft st) (RaftTruncatedStateKey rid)"
    using assms(3) unfolding unreplicated_span by (simp add: RaftTruncatedStateKey_def range_local_prefix)
  then show ?thesis using True by (simp add: same_disk_def set_raftEngine_def)
qed

text \<open>The deferred truncation moves the point in memory and on the Raft engine together.\<close>

lemma maybeTruncate_cases:
  assumes "maybeTruncateDeferredLocked E RC a f b rs0 d0 s = (d, rs, res)"
  obtains "rs = rs0" "res = Inr s \<or> (\<exists>e. res = Inl e)" "tsIndex (pendingTrunc d0) = 0 \<longrightarrow> tsIndex (pendingTrunc d) = 0"
  | s1 where "stageTruncate E (tsIndex (pendingTrunc d0)) (tsTerm (pendingTrunc d0)) rs0 s = Inr (rs, s1)"
      "res = stageTruncatedState E RC rs s1" "tsIndex (pendingTrunc d0) \<noteq> 0"
  using assms unfolding maybeTruncateDeferredLocked_def
  by (auto simp: Let_def case_prod_beta split: if_splits sum.splits prod.splits)

lemma maybeTruncate_consistent:
  assumes env: "healthy E c" "raft_codec_ok RC" and old: "consistent E RC r st"
    and mt: "maybeTruncateDeferredLocked E RC a f b (r_rs r) (r_deferred r) (raftEngine st) = (d, rs, res)"
  shows "consistent E RC (r\<lparr>r_deferred := d, r_rs := rs\<rparr>) (case res of Inl _ \<Rightarrow> st | Inr s \<Rightarrow> set_raftEngine s st)"
proof -
  have w: "wired r st" using old by (simp add: consistent_def)
  from mt show ?thesis
  proof (cases rule: maybeTruncate_cases)
    case 1
    have "same_durable r (r\<lparr>r_deferred := d, r_rs := rs\<rparr>)"
      using 1(1,3) w by (simp add: same_durable_def replicated_def state_of_def wired_def)
    moreover have "(case res of Inl _ \<Rightarrow> st | Inr s \<Rightarrow> set_raftEngine s st) = st"
      using 1(2) by (auto simp: set_raftEngine_def raftEngine_def)
    ultimately show ?thesis using consistent_durable [OF _ old] by simp
  next
    case (2 s1)
    have sp: "st_split st" using 2(3) w by (auto simp: wired_def)
    have rs: "rsSplit rs" "rsRangeID rs = r_rangeID r" using stageTruncate_frame [OF 2(1)] w sp by (simp_all add: wired_def)
    obtain s2 raw where s2: "putTruncatedState E RC (r_rangeID r) (rsTrunc rs) s1 = Inr s2"
      "Batch_Get E s2 (RaftTruncatedStateKey (r_rangeID r)) = Inr (Some raw)" "unjsonTrunc RC raw = Inr (rsTrunc rs)"
      by (rule putTruncatedState_ok [OF env])
    then have "res = Inr s2" using 2(2) rs by (simp add: stageTruncatedState_def)
    then show ?thesis
      using old sp s2 rs
      by (simp add: consistent_def set_raftEngine_def load_trunc_def loadTruncatedState_def r_io_def r_corrupt_def
        wired_def replicated_def state_of_def forget_def)
  qed
qed

text \<open>Each step after the commit keeps the invariant and the range.\<close>

definition kept :: "'s deps \<Rightarrow> raft_codec \<Rightarrow> RangeID \<Rightarrow> Replica \<times> 's Store \<Rightarrow> bool" where
  "kept E RC rid p \<longleftrightarrow> consistent E RC (fst p) (snd p) \<and> r_rangeID (fst p) = rid"

lemma kept_mono:
  assumes "healthy E c" "kept E RC rid (r, st)" "same_durable r r'" "same_disk c rid st st'"
  shows "kept E RC rid (r', st')"
  using consistent_durable [OF assms(3)] consistent_disk [OF assms(1), of r st st' RC] assms
  by (simp add: kept_def same_durable_def)

lemma after_split_kept:
  assumes "healthy E c" "kept E RC rid (r, st)"
  shows "kept E RC rid (after_split E RC env cmd ok r st)"
proof (cases "cmdSplit cmd")
  case (Some trig)
  have "kept E RC rid (fst (finishSplit E RC env trig r st), snd (finishSplit E RC env trig r st))"
    by (rule kept_mono [OF assms finishSplit_durable finishSplit_disk])
  with Some assms(2) show ?thesis by (simp add: after_split_def)
qed (simp add: after_split_def assms(2))

lemma after_merge_kept:
  assumes "healthy E c" "kept E RC rid (r, st)" "\<And>trig. cmdMerge cmd = Some trig \<Longrightarrow> dRangeID (mRight trig) \<noteq> rid"
  shows "kept E RC rid (after_merge E env cmd ok r st)"
proof (cases "cmdMerge cmd")
  case (Some trig)
  have "same_disk c rid st (case wipeRaftState E (st_split st) (dRangeID (mRight trig)) (raftEngine st) of
      Inl _ \<Rightarrow> st | Inr s \<Rightarrow> set_raftEngine s st)"
    using wipe_disk [OF assms(1) _ assms(3) [OF Some], of st] by (auto simp: same_disk_def split: sum.splits)
  from kept_mono [OF assms(1,2) finishMerge_durable this] Some assms(2) show ?thesis by (simp add: after_merge_def)
qed (simp add: after_merge_def assms(2))

lemma after_truncate_kept:
  assumes "healthy E c" "raft_codec_ok RC" "kept E RC rid (r, st)"
  shows "kept E RC rid (after_truncate E RC env r st)"
proof -
  obtain d rs res where mt: "maybeTruncateDeferredLocked E RC (r_appliedIndex r) (ae_flushed env) (ae_stopped env)
      (r_rs r) (r_deferred r) (raftEngine st) = (d, rs, res)" by (metis prod_cases3)
  then show ?thesis
    using maybeTruncate_consistent [OF assms(1,2) _ mt] assms(3) by (simp add: after_truncate_def kept_def)
qed

lemma after_commit_kept:
  assumes "healthy E c" "raft_codec_ok RC" "kept E RC rid (r, st)"
    and "\<And>trig. cmdMerge cmd = Some trig \<Longrightarrow> dRangeID (mRight trig) \<noteq> rid"
  shows "kept E RC rid (after_commit E RC env cmd ok r st)"
proof -
  obtain r1 st1 where p1: "after_split E RC env cmd ok r st = (r1, st1)" by (cases "after_split E RC env cmd ok r st")
  obtain r2 st2 where p2: "after_merge E env cmd ok r1 st1 = (r2, st2)" by (cases "after_merge E env cmd ok r1 st1")
  obtain r3 st3 where p3: "after_truncate E RC env r2 st2 = (r3, st3)" by (cases "after_truncate E RC env r2 st2")
  have "kept E RC rid (r1, st1)" using after_split_kept [OF assms(1,3), where env = env and cmd = cmd and ok = ok] p1 by simp
  then have "kept E RC rid (r2, st2)" using after_merge_kept [OF assms(1) _ assms(4), where cmd = cmd and env = env and ok = ok and RC = RC and r = r1 and st = st1] p2 by simp
  then have k: "kept E RC rid (r3, st3)" using after_truncate_kept [OF assms(1,2), where env = env and rid = rid and r = r2 and st = st2] p3 by simp
  moreover have "kept E RC rid (r3\<lparr>r_loadHandoff := l\<rparr>, st3)" for l
    using k by (rule kept_mono [OF assms(1)]) (simp_all add: same_durable_def same_disk_def replicated_def state_of_def)
  ultimately show ?thesis using p1 p2 p3 by (simp add: after_commit_def split: option.splits)
qed

section \<open>Entries\<close>

lemma eval_command_frame:
  assumes "eval_command E RC K cmd rhs r st = (r', st', s', res)"
  shows "mem_frame r r'" "st_eng st' = st_eng st" "st_raft st' = st_raft st" "st_split st' = st_split st"
proof -
  obtain r1 s1 o1 where e1: "evalWriteBatch E K r (cmdBatch cmd) (st_eng st) = (r1, s1, o1)"
    by (metis prod_cases3)
  have f1: "mem_frame r r1" using evalWriteBatch_frame [of r E K "cmdBatch cmd" "st_eng st"] e1 by simp
  let ?r2 = "command_effects cmd r1"
  have f2: "mem_frame r ?r2" using mem_frame_trans [OF f1 command_effects_frame] .
  obtain r3 o3 where e3: "(case cmdSplit cmd of None \<Rightarrow> (?r2, Inr s1) | Some trig \<Rightarrow> stageSplit E RC K trig ?r2 s1) = (r3, o3)"
    by (metis surj_pair)
  have f3: "mem_frame r r3"
    using mem_frame_trans [OF f2 stageSplit_frame [of ?r2 E RC K _ s1]] f2 e3 by (auto split: option.splits) (metis fst_conv)
  obtain r4 st4 o4 where e4: "(case cmdMerge cmd of None \<Rightarrow> (r3, st, Inr (projr o3)) | Some trig \<Rightarrow> stageMerge E K trig rhs r3 (projr o3) st) = (r4, st4, o4)"
    by (metis prod_cases3)
  have f4: "mem_frame r r4"
    using mem_frame_trans [OF f3 stageMerge_frame [of r3 E K _ rhs "projr o3" st]] f3 e4 by (auto split: option.splits) (metis fst_conv)
  have st4: "st_eng st4 = st_eng st" "st_raft st4 = st_raft st" "st_split st4 = st_split st"
    using e4 by (auto simp: stageMerge_def detachReplica_def Let_def split: option.splits if_splits sum.splits)
  have "r' = r1 \<and> st' = st \<or> r' = r3 \<and> st' = st \<or> r' = r4 \<and> st' = st4"
  proof (cases o1)
    case (Inl e)
    then show ?thesis using assms e1 by (simp add: eval_command_def)
  next
    case o1: (Inr resp)
    show ?thesis
    proof (cases o3)
      case (Inl e)
      then show ?thesis using assms e1 e3 o1 by (simp add: eval_command_def Let_def)
    next
      case (Inr s3)
      show ?thesis using assms e1 e3 e4 [unfolded Inr sum.sel] o1 Inr by (cases o4) (simp_all add: eval_command_def Let_def)
    qed
  qed
  then show "mem_frame r r'" "st_eng st' = st_eng st" "st_raft st' = st_raft st" "st_split st' = st_split st"
    using f1 f3 f4 st4 by auto
qed

lemma applyCommand_kept:
  assumes env: "healthy E c" "raft_codec_ok RC" and old: "kept E RC rid (r, st)"
    and merge: "\<And>trig. cmdMerge cmd = Some trig \<Longrightarrow> dRangeID (mRight trig) \<noteq> rid"
    and ap: "applyCommand E RC K en cmd rhs idx r st = (r', st', Inr res)"
  shows "kept E RC rid (r', st')"
proof -
  obtain r1 st1 s1 o1 where e: "eval_command E RC K cmd rhs r st = (r1, st1, s1, o1)" by (metis prod_cases4)
  note fr = eval_command_frame [OF e]
  obtain res1 where o1: "o1 = Inr res1" using ap e by (cases o1) (auto simp: applyCommand_def)
  have old1: "consistent E RC r st1" "r_rangeID r1 = rid"
    using consistent_disk [OF env(1), of r st st1 RC] old fr by (simp_all add: kept_def same_disk_def mem_frame_def)
  obtain s2 where s2: "stageAppliedIndex E RC idx r1 s1 = Inr s2"
    using putReplicaState_ok [OF env, of "r_rangeID r1" "state_of idx r1" s1] unfolding stageAppliedIndex_def by blast
  let ?r2 = "setApplied idx (r1\<lparr>r_deferred := noteAppliedSeq (st_split st1) idx (ae_seq en) (r_deferred r1)\<rparr>)"
  have "kept E RC rid (?r2, st1\<lparr>st_eng := s2\<rparr>)"
    using consistent_durable [OF same_durable_setApplied commit_consistent [OF env old1(1) fr(1) s2]] old1(2)
    by (simp add: kept_def setApplied_def)
  from after_commit_kept [OF env this merge, where env = en] show ?thesis
    using ap unfolding applyCommand_def e o1 s2 by (auto simp: s2 Let_def case_prod_beta)
qed

lemma persistAppliedIndex_kept:
  assumes env: "healthy E c" "raft_codec_ok RC" and old: "kept E RC rid (r, st)"
    and p: "persistAppliedIndex E RC en idx r st = Inr (r', st')"
  shows "kept E RC rid (setApplied idx r', st')"
proof -
  obtain s where s: "stageAppliedIndex E RC idx r (st_eng st) = Inr s"
    and eq: "r' = r\<lparr>r_deferred := noteAppliedSeq (st_split st) idx (ae_seq en) (r_deferred r)\<rparr>" "st' = st\<lparr>st_eng := s\<rparr>"
    using p by (auto simp: persistAppliedIndex_def res_bind_def split: sum.splits)
  have "consistent E RC (r\<lparr>r_appliedIndex := idx\<rparr>) st'"
    using commit_consistent [OF env _ mem_frame_refl s] old eq(2) by (simp add: kept_def)
  then show ?thesis
    using consistent_durable [OF same_durable_setApplied] old unfolding eq(1) by (simp add: kept_def setApplied_def)
qed

lemma kept_noteAppliedTerm: "kept E RC rid (r, st) \<Longrightarrow> kept E RC rid (noteAppliedTerm t r, st)"
  using consistent_durable [OF same_durable_noteAppliedTerm, of E RC r st t]
  by (auto simp: kept_def noteAppliedTerm_def split: if_splits)

lemma kept_refusals: "kept E RC rid (r, st) \<Longrightarrow> kept E RC rid (r\<lparr>r_confChangeRefusals := n\<rparr>, st)"
  using consistent_durable [of r "r\<lparr>r_confChangeRefusals := n\<rparr>" E RC st]
  by (simp add: kept_def same_durable_def replicated_def state_of_def)

lemma setApplied_refusals:
  "setApplied i (r\<lparr>r_confChangeRefusals := n\<rparr>) = (setApplied i r)\<lparr>r_confChangeRefusals := n\<rparr>"
  by (simp add: setApplied_def)

lemma adopt_conf_change_kept:
  assumes env: "healthy E c" "raft_codec_ok RC" and old: "kept E RC rid (r, st)"
    and ap: "adopt_conf_change E RC K en voters cc newDesc ent r st = (r', st', e)" and ok: "e = None \<or> e = Some AReplicaRemoved"
  shows "kept E RC rid (r', st')"
proof -
  let ?r1 = "r\<lparr>r_rs := setConfStateRaw voters (r_rs r)\<rparr>"
  let ?b = "res_bind (case newDesc of None \<Rightarrow> Inr (st_eng st) | Some d \<Rightarrow> PutRangeDescriptor E K d (st_eng st))
    (stageAppliedIndex E RC (eIndex ent) ?r1)"
  have ns: "\<not> ae_stopped en" using ap ok by (auto simp: adopt_conf_change_def)
  obtain s where b: "?b = Inr s" using ap ok ns by (cases ?b) (auto simp: adopt_conf_change_def Let_def)
  then obtain s0 where s0: "stageAppliedIndex E RC (eIndex ent) ?r1 s0 = Inr s"
    by (auto simp: res_bind_def split: sum.splits)
  let ?r2 = "case newDesc of None \<Rightarrow> ?r1 | Some d \<Rightarrow> ?r1\<lparr>r_desc := d\<rparr>"
  have eq: "r' = noteAppliedTerm (eTerm ent) (setApplied (eIndex ent) ?r2)" "st' = st\<lparr>st_eng := s\<rparr>"
    using ap ns b by (simp_all add: adopt_conf_change_def Let_def)
  have "mem_frame r ?r1" by (simp add: mem_frame_def)
  from commit_consistent [OF env _ this s0] have "consistent E RC (?r1\<lparr>r_appliedIndex := eIndex ent\<rparr>) st'"
    using old eq(2) by (simp add: kept_def)
  moreover have "same_durable (?r1\<lparr>r_appliedIndex := eIndex ent\<rparr>) (setApplied (eIndex ent) ?r2)"
    by (simp add: same_durable_def setApplied_def replicated_def state_of_def split: option.splits)
  ultimately show ?thesis
    using consistent_durable old unfolding eq(1)
    by (intro kept_noteAppliedTerm) (auto simp: kept_def setApplied_def split: option.splits)
qed

text \<open>The merges a range's log holds absorb another range.\<close>

definition merges_other :: "kv_codec \<Rightarrow> cmd_codec \<Rightarrow> RangeID \<Rightarrow> Entry \<Rightarrow> bool" where
  "merges_other K C rid ent \<longleftrightarrow>
     (\<forall>cmd trig. decodeRaftCommand K C (eData ent) = Inr cmd \<longrightarrow> cmdMerge cmd = Some trig \<longrightarrow> dRangeID (mRight trig) \<noteq> rid)"

lemma applyEntry_kept:
  assumes env: "healthy E c" "raft_codec_ok RC" and old: "kept E RC rid (r, st)" and m: "merges_other K C rid ent"
    and ap: "applyEntry E RC K C en voters rhs ent r st = (r', st', None, res)"
  shows "kept E RC rid (r', st')"
proof (cases "eIndex ent \<le> r_appliedIndex r")
  case True
  then show ?thesis using ap old by (simp add: applyEntry_def)
next
  case new: False
  show ?thesis
  proof (cases "eType ent")
    case EntryNormal
    show ?thesis
    proof (cases "eData ent = []")
      case True
      then show ?thesis
        using ap new EntryNormal kept_noteAppliedTerm [OF persistAppliedIndex_kept [OF env old]]
        by (auto simp: applyEntry_def apply_noop_def split: sum.splits)
    next
      case False
      obtain cmd where cmd: "decodeRaftCommand K C (eData ent) = Inr cmd"
        using ap new EntryNormal False by (cases "decodeRaftCommand K C (eData ent)") (auto simp: applyEntry_def)
      obtain r1 st1 o1 where a: "applyCommand E RC K en cmd rhs (eIndex ent) r st = (r1, st1, o1)" by (metis prod_cases3)
      then obtain res1 where o1: "o1 = Inr res1" "r' = noteAppliedTerm (eTerm ent) r1" "st' = st1"
        using ap new EntryNormal False cmd by (cases o1) (auto simp: applyEntry_def)
      show ?thesis
        unfolding o1(2,3)
        by (intro kept_noteAppliedTerm applyCommand_kept [OF env old _ a [unfolded o1(1)]])
          (use m cmd in \<open>auto simp: merges_other_def\<close>)
    qed
  next
    case EntryConfChange
    then have "apply_conf_change E RC K C en voters ent r st = (r', st', None)"
      using ap new by (cases "apply_conf_change E RC K C en voters ent r st") (auto simp: applyEntry_def)
    then show ?thesis
      unfolding apply_conf_change_def
      using adopt_conf_change_kept [OF env old] persistAppliedIndex_kept [OF env old]
      by (auto simp: setApplied_refusals split: sum.splits if_splits intro!: kept_noteAppliedTerm kept_refusals)
  next
    case EntryOther
    then show ?thesis using ap new by (simp add: applyEntry_def)
  qed
qed

section \<open>The applied index\<close>

lemma durable_applied: "same_durable r r' \<Longrightarrow> r_appliedIndex r' = r_appliedIndex r"
  by (auto simp: same_durable_def replicated_def forget_def state_of_def)

lemma noteAppliedTerm_applied [simp]: "r_appliedIndex (noteAppliedTerm t r) = r_appliedIndex r"
  by (simp add: noteAppliedTerm_def)

lemma setApplied_applied [simp]: "r_appliedIndex (setApplied i r) = i"
  by (simp add: setApplied_def)

lemma after_commit_applied: "r_appliedIndex (fst (after_commit E RC en cmd ok r st)) = r_appliedIndex r"
proof -
  have "r_appliedIndex (fst (after_split E RC en cmd ok r st)) = r_appliedIndex r" for r st
    using durable_applied [OF finishSplit_durable] by (auto simp: after_split_def split: option.splits)
  moreover have "r_appliedIndex (fst (after_merge E en cmd ok r st)) = r_appliedIndex r" for r st
    using durable_applied [OF finishMerge_durable] by (auto simp: after_merge_def split: option.splits)
  moreover have "r_appliedIndex (fst (after_truncate E RC en r st)) = r_appliedIndex r" for r st
    by (simp add: after_truncate_def split: prod.splits)
  ultimately show ?thesis
    by (simp add: after_commit_def split_beta split: option.splits)
qed

lemma applyCommand_applied:
  assumes "healthy E c" "raft_codec_ok RC" "applyCommand E RC K en cmd rhs idx r st = (r', st', Inr res)"
  shows "r_appliedIndex r' = idx"
proof -
  obtain r1 st1 s1 o1 where ev: "eval_command E RC K cmd rhs r st = (r1, st1, s1, o1)" by (metis prod_cases4)
  then obtain res1 where o1: "o1 = Inr res1" using assms(3) by (cases o1) (auto simp: applyCommand_def)
  obtain s2 where s2: "stageAppliedIndex E RC idx r1 s1 = Inr s2"
    using putReplicaState_ok [OF assms(1,2)] unfolding stageAppliedIndex_def by metis
  let ?ok = "case res1 of Inl _ \<Rightarrow> False | Inr _ \<Rightarrow> True"
  let ?r = "setApplied idx (r1\<lparr>r_deferred := noteAppliedSeq (st_split st1) idx (ae_seq en) (r_deferred r1)\<rparr>)"
  have "r' = fst (after_commit E RC en cmd ?ok ?r (st1\<lparr>st_eng := s2\<rparr>))"
    using assms(3) ev o1 s2 by (auto simp: applyCommand_def Let_def split_beta)
  then show ?thesis by (simp add: after_commit_applied)
qed

lemma adopt_conf_change_applied:
  assumes "adopt_conf_change E RC K en voters cc newDesc ent r st = (r', st', e)" "e = None \<or> e = Some AReplicaRemoved"
  shows "r_appliedIndex r' = eIndex ent"
  using assms by (auto simp: adopt_conf_change_def Let_def split: sum.splits if_splits)

lemma applyEntry_applied:
  assumes "healthy E c" "raft_codec_ok RC" "applyEntry E RC K C en voters rhs ent r st = (r', st', None, res)"
  shows "r_appliedIndex r' = max (r_appliedIndex r) (eIndex ent)"
proof (cases "eIndex ent \<le> r_appliedIndex r")
  case True
  then show ?thesis using assms(3) by (simp add: applyEntry_def max_def)
next
  case False
  have "r_appliedIndex r' = eIndex ent"
  proof (cases "eType ent")
    case EntryNormal
    show ?thesis
      using assms(3) False EntryNormal applyCommand_applied [OF assms(1,2)]
      by (auto simp: applyEntry_def apply_noop_def split: sum.splits if_splits prod.splits)
  next
    case EntryConfChange
    then have "apply_conf_change E RC K C en voters ent r st = (r', st', None)"
      using assms(3) False by (cases "apply_conf_change E RC K C en voters ent r st") (auto simp: applyEntry_def)
    then show ?thesis
      by (auto simp: apply_conf_change_def split: sum.splits if_splits dest: adopt_conf_change_applied)
  next
    case EntryOther
    then show ?thesis using assms(3) False by (simp add: applyEntry_def)
  qed
  then show ?thesis using False by (simp add: max_absorb2)
qed

section \<open>Runs\<close>

text \<open>
  A delivery: the environment of the applying node, the voters Raft reports, the right-hand
  replica a merge waits for, and the entry. A run applies deliveries until one fails.
\<close>

type_synonym delivery = "apply_env \<times> 64 word list \<times> Replica option \<times> Entry"

primrec apply_all ::
  "'s deps \<Rightarrow> raft_codec \<Rightarrow> kv_codec \<Rightarrow> cmd_codec \<Rightarrow> delivery list \<Rightarrow> Replica \<Rightarrow> 's Store \<Rightarrow>
   Replica \<times> 's Store \<times> apply_error option" where
  "apply_all E RC K C [] r st = (r, st, None)"
| "apply_all E RC K C (d # ds) r st =
     (case d of (en, voters, rhs, ent) \<Rightarrow>
        (case applyEntry E RC K C en voters rhs ent r st of
           (r, st, None, _) \<Rightarrow> apply_all E RC K C ds r st
         | (r, st, Some e, _) \<Rightarrow> (r, st, Some e)))"

lemma apply_all_kept:
  assumes env: "healthy E c" "raft_codec_ok RC"
  shows "kept E RC rid (r, st) \<Longrightarrow> list_all (\<lambda>(_, _, _, ent). merges_other K C rid ent) ds \<Longrightarrow>
    apply_all E RC K C ds r st = (r', st', None) \<Longrightarrow>
    kept E RC rid (r', st') \<and> r_appliedIndex r \<le> r_appliedIndex r' \<and>
    list_all (\<lambda>(_, _, _, ent). eIndex ent \<le> r_appliedIndex r') ds"
proof (induction ds arbitrary: r st)
  case Nil
  then show ?case by simp
next
  case (Cons d ds)
  obtain en voters rhs ent where d: "d = (en, voters, rhs, ent)" by (cases d) auto
  obtain r1 st1 e1 res where a: "applyEntry E RC K C en voters rhs ent r st = (r1, st1, e1, res)" by (metis prod_cases4)
  have e1: "e1 = None" and rest: "apply_all E RC K C ds r1 st1 = (r', st', None)"
    using Cons.prems(3) a d by (cases e1; simp)+
  have "kept E RC rid (r1, st1)"
    by (rule applyEntry_kept [OF env Cons.prems(1) _ a [unfolded e1]]) (use Cons.prems(2) d in simp)
  from Cons.IH [OF this _ rest] show ?case
    using Cons.prems(2) d applyEntry_applied [OF env a [unfolded e1]] by auto
qed

lemma apply_all_stale:
  "list_all (\<lambda>(_, _, _, ent). eIndex ent \<le> r_appliedIndex r) ds \<Longrightarrow> apply_all E RC K C ds r st = (r, st, None)"
  by (induction ds) (auto simp: applyEntry_def)

section \<open>Restart\<close>

text \<open>Every record under the range's log prefix is an entry.\<close>

definition log_decodes :: "('s \<Rightarrow> contents) \<Rightarrow> raft_codec \<Rightarrow> RangeID \<Rightarrow> 's Store \<Rightarrow> bool" where
  "log_decodes c RC rid st \<longleftrightarrow>
     (\<forall>k v. prefix (RaftLogPrefix rid) k \<longrightarrow> c (raftEngine st) k = Some v \<longrightarrow> (\<exists>ent. entUnmarshal RC v = Inr ent))"

lemma newest_index_ok:
  "\<forall>kv \<in> set kvs. \<exists>ent. entUnmarshal RC (snd kv) = Inr ent \<Longrightarrow> \<exists>lst'. newest_index RC kvs lst = Inr lst'"
  unfolding newest_index_def
proof (induction kvs arbitrary: lst)
  case (Cons kv kvs)
  then obtain ent where "entUnmarshal RC (snd kv) = Inr ent" by auto
  then show ?case using Cons by (simp add: r_corrupt_def)
qed simp

lemma newReplica_ok:
  assumes env: "healthy E c" "raft_codec_ok RC" and k: "consistent E RC r st" "log_decodes c RC (r_rangeID r) st"
    and d: "dRangeID d = r_rangeID r"
  shows "\<exists>r2. newReplica E RC d st = Inr r2 \<and> replicated r2 = replicated r \<and> rsTrunc (r_rs r2) = rsTrunc (r_rs r)"
proof -
  let ?lo = "RaftLogPrefix (r_rangeID r)" and ?s = "raftEngine st"
  obtain es where es: "pIter E ?s ?lo (PrefixEnd ?lo) = Inr es"
    "\<And>k v. (k, v) \<in> set es \<longleftrightarrow> ?lo \<le> k \<and> k < PrefixEnd ?lo \<and> c ?s k = Some v"
    by (rule pebble_iter [OF healthy_pebble [OF env(1)], of ?s ?lo "PrefixEnd ?lo"]) blast
  have "\<forall>kv \<in> set es. \<exists>ent. entUnmarshal RC (snd kv) = Inr ent"
  proof (clarify)
    fix k v
    assume "(k, v) \<in> set es"
    then have "prefix ?lo k" "c ?s k = Some v" using es(2) log_prefix_span by metis+
    then show "\<exists>ent. entUnmarshal RC (snd (k, v)) = Inr ent" using k(2) unfolding log_decodes_def by simp
  qed
  then obtain lst where lst: "newest_index RC es (tsIndex (rsTrunc (r_rs r))) = Inr lst"
    using newest_index_ok by metis
  obtain rst where rst: "loadReplicaStateFrom E RC (r_rangeID r) (st_eng st) = Inr rst" "forget rst = replicated r"
    "loadTruncatedState E RC (st_split st) (r_rangeID r) ?s (st_eng st) = Inr (rsTrunc (r_rs r))"
    using k(1) by (auto simp: consistent_def load_trunc_def)
  have f: "AppliedIndex rst = r_appliedIndex r" "GCThreshold rst = r_gcThreshold r" "SizeBytes rst = r_sizeBytes r"
    "Frozen rst = r_frozen r" "MergedInto rst = r_mergedInto r" "ClosedTS rst = r_closedTS r"
    using rst(2) by (cases rst; simp add: replicated_def state_of_def forget_def)+
  have cl: "it_close E ?s ?lo (PrefixEnd ?lo) = Inr ()" using es(1) by (simp add: it_close_def)
  show ?thesis
    unfolding newReplica_def newRaftStorage_def d Let_def iter_rest_span [OF env(1) es(1)] rst(1,3) lst cl res_bind_simps
    by (simp add: rst(3) lst cl replicated_def state_of_def forget_def setConfState_def f)
qed


section \<open>A run\<close>

text \<open>An empty entry, then a command that freezes the range for a merge into range 2.\<close>

definition demo_desc :: RangeDescriptor where
  "demo_desc = \<lparr>dRangeID = 1, StartKey = [1], EndKey = [9], Replicas = [], NextReplicaID = 1, Generation = 1\<rparr>"

definition demo_replica :: Replica where
  "demo_replica = \<lparr>r_rangeID = 1, r_desc = demo_desc, r_appliedIndex = 0, r_appliedTerm = 0, r_gcThreshold = zero_ts,
     r_sizeBytes = 0, r_frozen = False, r_mergedInto = 0, r_closedTS = zero_ts,
     r_rs = \<lparr>rsSplit = False, rsRangeID = 1, rsLast = 0, rsVoters = [], rsApplied = 0, rsTrunc = \<lparr>tsIndex = 0, tsTerm = 0\<rparr>\<rparr>,
     r_deferred = \<lparr>applySeqs = [], durableApplied = 0, pendingTrunc = \<lparr>tsIndex = 0, tsTerm = 0\<rparr>\<rparr>,
     r_tsCache = empty_cache, r_loadHandoff = None, r_confChangeRefusals = 0\<rparr>"

definition demo_node :: "(bytes \<times> bytes) list Store" where
  "demo_node = \<lparr>st_eng = [], st_raft = [], st_split = False, st_nodeID = 1, st_replicas = []\<rparr>"

definition demo_command :: raftCommand where
  "demo_command = \<lparr>cmdID = ''a'', cmdBatch = \<lparr>baHeader = \<lparr>bTimestamp = Timestamp 5 0, bTxn = None, bRangeID = 1,
       CreateTxnRecord = False, ReadInconsistent = False, StaleRead = False\<rparr>,
       Requests = [to_union (ReqSubsume \<lparr>rKey = [1], rEndKey = [], MergeInto = 2\<rparr>)]\<rparr>,
     cmdSplit = None, cmdMerge = None, cmdClosedTS = Timestamp 4 0, cmdLoad = None, cmdChecksum = None\<rparr>"

definition demo_cmds :: cmd_codec where
  "demo_cmds = \<lparr>protoCmd = \<lambda>_. Inl (IOError 1), unprotoCmd = \<lambda>_. Inl (IOError 1), unjsonCmd = \<lambda>_. Inr demo_command,
     unmarshalCC = \<lambda>_. Inl (IOError 1), unjsonContext = \<lambda>_. Inl (IOError 1)\<rparr>"

definition demo_delivery :: "64 word \<Rightarrow> bytes \<Rightarrow> delivery" where
  "demo_delivery idx data =
     (\<lparr>ae_now = Timestamp 6 0, ae_seq = 3, ae_flushed = 0, ae_stopped = False\<rparr>, [], None,
      \<lparr>eTerm = 1, eIndex = idx, eType = EntryNormal, eData = data\<rparr>)"

abbreviation (input) demo_deliveries :: "delivery list" where
  "demo_deliveries \<equiv> [demo_delivery 1 [], demo_delivery 2 [open_brace]]"

definition demo_after :: "64 word \<Rightarrow> Replica" where
  "demo_after idx = (if idx = 1 then demo_replica\<lparr>r_appliedIndex := 1, r_appliedTerm := 1, r_rs := rs_setApplied 1 (r_rs demo_replica)\<rparr>
     else demo_replica\<lparr>r_appliedIndex := 2, r_appliedTerm := 1, r_frozen := True, r_mergedInto := 2, r_closedTS := Timestamp 4 0,
       r_rs := rs_setApplied 2 (rs_setApplied 1 (r_rs demo_replica))\<rparr>)"

definition demo_disk :: "64 word \<Rightarrow> (bytes \<times> bytes) list" where
  "demo_disk idx = map (\<lambda>i. (RaftAppliedStateKey 1, put_state (state_of i (demo_after i)))) (if idx = 1 then [1] else [2, 1])"

lemma demo_noop:
  "applyEntry (mem_deps True) demo_raft demo_codec demo_cmds en [] None
     \<lparr>eTerm = 1, eIndex = 1, eType = EntryNormal, eData = []\<rparr> demo_replica demo_node =
   (demo_after 1, demo_node\<lparr>st_eng := demo_disk 1\<rparr>, None, None)"
  by (simp add: applyEntry_def apply_noop_def persistAppliedIndex_def stageAppliedIndex_def putReplicaState_def demo_replica_def
    demo_node_def demo_raft_def mem_deps_def Batch_Put_def r_io_def demo_after_def demo_disk_def state_of_def setApplied_def
    noteAppliedTerm_def noteAppliedSeq_def)

lemma demo_eval:
  "eval_command (mem_deps True) demo_raft demo_codec demo_command None (demo_after 1) (demo_node\<lparr>st_eng := demo_disk 1\<rparr>) =
   ((demo_after 1)\<lparr>r_frozen := True, r_mergedInto := 2, r_closedTS := Timestamp 4 0\<rparr>, demo_node\<lparr>st_eng := demo_disk 1\<rparr>, demo_disk 1,
    Inr (Inr (batch_response (cmdBatch demo_command) [RespSubsume])))"
  by (simp add: eval_command_def demo_command_def evalWriteBatch_def is1PC_def eval_request_def demo_node_def conflict_err_def
    GetInner_def or_else_def command_effects_def commandSizeDelta_def request_size_def demo_after_def demo_replica_def
    Let_def empty_union_def zero_ts_def ts_less_sint)

lemma demo_cmd:
  "applyEntry (mem_deps True) demo_raft demo_codec demo_cmds en [] None
     \<lparr>eTerm = 1, eIndex = 2, eType = EntryNormal, eData = [open_brace]\<rparr> (demo_after 1) (demo_node\<lparr>st_eng := demo_disk 1\<rparr>) =
   (demo_after 2, demo_node\<lparr>st_eng := demo_disk 2\<rparr>, None, Some (''a'', Inr (batch_response (cmdBatch demo_command) [RespSubsume])))"
proof -
  have "applyCommand (mem_deps True) demo_raft demo_codec en demo_command None 2 (demo_after 1) (demo_node\<lparr>st_eng := demo_disk 1\<rparr>) =
      (demo_after 2, demo_node\<lparr>st_eng := demo_disk 2\<rparr>, Inr (Inr (batch_response (cmdBatch demo_command) [RespSubsume])))"
    unfolding applyCommand_def demo_eval
    by (simp add: stageAppliedIndex_def putReplicaState_def
      demo_raft_def mem_deps_def Batch_Put_def r_io_def demo_after_def demo_disk_def state_of_def setApplied_def demo_node_def
      noteAppliedSeq_def demo_command_def demo_replica_def after_commit_def after_split_def after_merge_def
      after_truncate_def maybeTruncateDeferredLocked_def set_raftEngine_def raftEngine_def)
  then show ?thesis
    by (simp add: applyEntry_def decodeRaftCommand_def demo_cmds_def demo_after_def noteAppliedTerm_def demo_replica_def)
      (simp add: demo_command_def word_le_nat_alt)
qed

lemma demo_apply_run:
  "apply_all (mem_deps True) demo_raft demo_codec demo_cmds demo_deliveries demo_replica demo_node =
   (demo_after 2, demo_node\<lparr>st_eng := demo_disk 2\<rparr>, None)"
  by (simp add: demo_delivery_def demo_noop demo_cmd)

lemma demo_consistent: "consistent (mem_deps True) demo_raft demo_replica demo_node"
  by (simp add: consistent_def loadReplicaStateFrom_def mem_deps_def Batch_Get_def r_io_def demo_node_def replicated_def
    forget_def state_of_def demo_replica_def zero_state_def load_trunc_def loadTruncatedState_def raftEngine_def wired_def)

lemma demo_decodes: "log_decodes map_of demo_raft 1 (demo_node\<lparr>st_eng := demo_disk 2\<rparr>)"
  by (simp add: log_decodes_def demo_node_def raftEngine_def demo_disk_def RaftAppliedStateKey_def RaftLogPrefix_def
    makeRangeLocalKey_app str_def)


end
