(* ===== verification/Spec2Isabelle.thy ===== *)
theory Spec2Isabelle
  imports MVCC_Range TxnRecord Crash
begin

text \<open>
  A verification development of datax, a distributed SQL database (Go sources under
  \<^verbatim>\<open>src/pkg\<close>).
\<close>

end
